(* ===== verification/Prelude.thy ===== *)
theory Prelude
  imports Main "HOL-Library.Word" "HOL-Library.Monad_Syntax"
begin

unbundle bit_operations_syntax

text \<open>
  Shared vocabulary of the development.

  \<^item> \<open>mword\<close>, \<open>vaddr\<close>, \<open>paddr\<close> are the 64-bit machine words of
    \<open>src/generic/basics.h\<close>; arithmetic on them wraps.
  \<^item> A kernel operation that can stop the machine returns an \<open>option\<close>:
    \<open>None\<close> is a failed \<open>KASSERT\<close>/\<open>GENASSERT\<close>, a \<open>KABORT\<close> or an access through
    a null pointer, all of which end in \<open>Reboot()\<close> and never return;
    \<open>kassert\<close> is the check itself.
  \<^item> Generic lemmas on lists, options and words that several components use.
\<close>

type_synonym mword = "64 word"
type_synonym vaddr = "64 word"
type_synonym paddr = "64 word"

named_theorems word_to_nat \<open>equations that move word operations to natural numbers\<close>
named_theorems kernel_simps \<open>definitions of small helpers, unfolded in component proofs\<close>

definition kassert :: "bool \<Rightarrow> unit option" where
  "kassert b = (if b then Some () else None)"

lemma kassert_bind_Some [simp]:
  "(Option.bind (kassert b) f = Some x) \<longleftrightarrow> b \<and> f () = Some x"
  by (simp add: kassert_def)

lemma kassert_bind_None [simp]:
  "(Option.bind (kassert b) f = None) \<longleftrightarrow> (b \<longrightarrow> f () = None)"
  by (simp add: kassert_def)

lemma kassert_True [simp]: "kassert True = Some ()"
  and kassert_False [simp]: "kassert False = None"
  by (simp_all add: kassert_def)

section \<open>Words and natural numbers\<close>

lemma mask_word_unfold: "(mask n :: 'a::len word) = 2 ^ n - 1"
  by (simp add: mask_eq_exp_minus_1)

lemma and_not_mask_word:
  "x AND NOT (mask n) = push_bit n (drop_bit n (x :: 'a::len word))"
  by (rule bit_word_eqI) (auto simp: bit_simps)

lemma unat_and_mask [word_to_nat]:
  "unat (x AND mask n) = unat (x :: 'a::len word) mod 2 ^ n"
proof -
  have "x AND mask n = take_bit n x" by (rule take_bit_eq_mask [symmetric])
  moreover have "unat (take_bit n x) = take_bit n (unat x)" by (rule unsigned_take_bit_eq)
  ultimately show ?thesis by (simp add: take_bit_eq_mod del: unsigned_take_bit_eq)
qed

lemma and_not_mask_minus: "x AND NOT (mask n) = x - (x AND mask n)"
  for x :: "'a::len word"
proof -
  have "x = (x AND mask n) OR (x AND NOT (mask n))"
    by (rule bit_word_eqI) (auto simp: bit_simps)
  also have "\<dots> = (x AND mask n) + (x AND NOT (mask n))"
    by (rule disjunctive_add [symmetric]) (auto simp: bit_simps)
  finally show ?thesis
    by (simp add: algebra_simps)
qed

lemma unat_and_not_mask [word_to_nat]:
  "unat (x AND NOT (mask n)) = unat (x :: 'a::len word) - unat x mod 2 ^ n"
proof -
  have "x AND mask n \<le> x"
    by (simp add: word_le_nat_alt unat_and_mask)
  then show ?thesis
    by (simp add: and_not_mask_minus unat_sub unat_and_mask)
qed

lemma unat_pow2 [word_to_nat]:
  "n < LENGTH('a) \<Longrightarrow> unat (2 ^ n :: 'a::len word) = 2 ^ n"
  by (transfer; simp add: take_bit_eq_mod power_strict_increasing)

lemma unat_mask_word [word_to_nat]:
  "n < LENGTH('a) \<Longrightarrow> unat (mask n :: 'a::len word) = 2 ^ n - 1"
  by (simp add: mask_eq_exp_minus_1 unat_sub word_le_nat_alt unat_pow2)

lemma unat_lt_pow: "unat (x :: 'a::len word) < 2 ^ LENGTH('a)"
  by (rule unsigned_less)

section \<open>Lists\<close>

lemma takeWhile_first:
  assumes "length (takeWhile P xs) < length xs"
  shows "\<not> P (xs ! length (takeWhile P xs))"
  using assms by (rule nth_length_takeWhile)

lemma takeWhile_before:
  "i < length (takeWhile P xs) \<Longrightarrow> P (xs ! i)"
  using nth_mem [of i "takeWhile P xs"] by (auto simp: takeWhile_nth dest: set_takeWhileD)

lemma length_takeWhile_eq_length:
  "length (takeWhile P xs) = length xs \<longleftrightarrow> (\<forall>x\<in>set xs. P x)"
  by (induction xs) auto

end
