(* ===== verification/BitManip.thy ===== *)
theory BitManip
  imports Prelude
begin

unbundle bit_operations_syntax

text \<open>
  Arithmetic and bit helpers of \<open>generic/basics.h\<close> and \<open>generic/bitmanip.h\<close>.
  The templates over an unsigned type \<open>T\<close> are definitions over \<open>'a::len word\<close>;
  the functions that return \<open>int\<close> do so here, with the conversion of the unsigned
  alternative written out.  The scans implemented by inline assembly are folds over
  the array with the accumulator variables of the source.
\<close>

section \<open>\<open>generic/basics.h\<close>\<close>

definition pow2 :: "nat \<Rightarrow> 'a::len word" where
  "pow2 x = push_bit x 1"

definition ispow2 :: "'a::len word \<Rightarrow> bool" where
  "ispow2 x \<longleftrightarrow> x AND (x - 1) = 0"

definition align_up :: "'a::len word \<Rightarrow> 'a word \<Rightarrow> 'a word" where
  "align_up x a = (x + a - 1) AND NOT (a - 1)"

definition align_down :: "'a::len word \<Rightarrow> 'a word \<Rightarrow> 'a word" where
  "align_down x a = x AND NOT (a - 1)"

definition aligned :: "'a::len word \<Rightarrow> 'a word \<Rightarrow> bool" where
  "aligned x a \<longleftrightarrow> x AND (a - 1) = 0"

definition divup :: "'a::len word \<Rightarrow> 'a word \<Rightarrow> 'a word" where
  "divup n d = ((n - 1) div d) + 1"

definition limit :: "'a::len word" where
  "limit = NOT 0"

section \<open>\<open>generic/bitmanip.h\<close>\<close>

definition bitmask :: "nat \<Rightarrow> 'a::len word" where
  "bitmask w = (if w = LENGTH('a) then limit else pow2 w - 1)"

definition bitmask_at :: "nat \<Rightarrow> nat \<Rightarrow> 'a::len word" where
  "bitmask_at pos w = push_bit pos (bitmask w)"

text \<open>Compiler builtins, defined for every argument (the C builtins leave 0 open).\<close>

definition ctz :: "'a::len word \<Rightarrow> nat" where
  "ctz x = length (takeWhile (\<lambda>i. \<not> bit x i) [0..<LENGTH('a)])"

definition clz :: "'a::len word \<Rightarrow> nat" where
  "clz x = length (takeWhile (\<lambda>i. \<not> bit x i) (rev [0..<LENGTH('a)]))"

text \<open>Conversion of an unsigned value to the 32-bit \<open>int\<close> of the return type.\<close>

definition to_int :: "'a::len word \<Rightarrow> int" where
  "to_int x = sint (ucast x :: 32 word)"

definition lsbcond :: "'a::len word \<Rightarrow> 'a word \<Rightarrow> int" where
  "lsbcond x alt = (if x = 0 then to_int alt else int (ctz x))"

definition msbcond :: "'a::len word \<Rightarrow> 'a word \<Rightarrow> int" where
  "msbcond x alt = (if x = 0 then to_int alt else (int LENGTH('a) - 1) - int (clz x))"

definition lsb :: "'a::len word \<Rightarrow> int" where
  "lsb x = int (ctz x)"

definition msb :: "'a::len word \<Rightarrow> int" where
  "msb x = (int LENGTH('a) - 1) - int (clz x)"

definition popcount :: "'a::len word \<Rightarrow> nat" where
  "popcount x = length (filter (bit x) [0..<LENGTH('a)])"

definition floorlog2 :: "'a::len word \<Rightarrow> int" where
  "floorlog2 x = msbcond x (of_nat LENGTH('a))"

definition ceilinglog2 :: "'a::len word \<Rightarrow> int" where
  "ceilinglog2 x = msbcond (x - 1) limit + 1"

definition alignment :: "'a::len word \<Rightarrow> int" where
  "alignment x = lsbcond x (of_nat LENGTH('a))"

text \<open>\<open>BitString<T,Pos,Width>\<close>: the template arguments are the fields of a record.\<close>

record bitstring =
  Pos :: nat
  Width :: nat

definition bs_mask :: "bitstring \<Rightarrow> 'a::len word" where
  "bs_mask b = bitmask_at (Pos b) (Width b)"

definition bs_put :: "bitstring \<Rightarrow> 'a::len word \<Rightarrow> 'a word" where
  "bs_put b f = push_bit (Pos b) (f AND bitmask (Width b))"

definition bs_get :: "bitstring \<Rightarrow> 'a::len word \<Rightarrow> 'a word" where
  "bs_get b f = drop_bit (Pos b) f AND bitmask (Width b)"

definition bit_set :: "mword \<Rightarrow> nat \<Rightarrow> mword" where
  "bit_set a idx = a OR push_bit idx 1"

definition bit_clr :: "mword \<Rightarrow> nat \<Rightarrow> mword" where
  "bit_clr a idx = a AND NOT (push_bit idx 1)"

definition bit_flp :: "mword \<Rightarrow> nat \<Rightarrow> mword" where
  "bit_flp a idx = a XOR push_bit idx 1"

text \<open>
  \<open>bsfq\<close>/\<open>bsrq\<close> followed by the two conditional moves: the scan result with its
  replacement for an empty word, and the new value of \<open>newmask\<close>.
\<close>

fun multiscan_loop :: "bool \<Rightarrow> mword list \<Rightarrow> mword \<Rightarrow> mword \<Rightarrow> mword" where
  "multiscan_loop findset [] result msk = result"
| "multiscan_loop findset (d # data) result msk =
    (let src = (if findset then d else NOT d);
         scan = (if src = 0 then 64 else of_nat (ctz src));
         newmask = (if src = 0 then msk else 0)
     in multiscan_loop findset data (result + (scan AND msk)) newmask)"

definition multiscan :: "bool \<Rightarrow> mword list \<Rightarrow> mword" where
  "multiscan findset data = multiscan_loop findset data 0 (NOT 0)"

fun multiscan_r_loop :: "bool \<Rightarrow> mword list \<Rightarrow> mword \<Rightarrow> mword \<Rightarrow> mword" where
  "multiscan_r_loop findset [] result msk = result"
| "multiscan_r_loop findset (d # data) result msk =
    (let src = (if findset then d else NOT d);
         scan = (if src = 0 then 0 else of_nat (63 - clz src));
         newmask = (if src = 0 then msk else 0)
     in multiscan_r_loop findset data
          (result + ((scan AND msk) + (64 AND NOT msk))) newmask)"

definition multiscan_r :: "bool \<Rightarrow> mword list \<Rightarrow> mword" where
  "multiscan_r findset data = multiscan_r_loop findset (rev data) 0 (NOT 0)"

section \<open>Masks and alignment\<close>

lemma pow2_eq [word_to_nat]: "pow2 n = (2 ^ n :: 'a::len word)"
  by (simp add: pow2_def push_bit_of_1)

lemma bitmask_mask: "bitmask w = (mask w :: 'a::len word)"
  by (simp add: bitmask_def limit_def pow2_eq mask_eq_exp_minus_1)

lemma bit_bitmask [simp]: "bit (bitmask w :: 'a::len word) i \<longleftrightarrow> i < w \<and> i < LENGTH('a)"
  by (auto simp: bitmask_mask bit_simps)

lemma limit_max [simp]: "x \<le> (limit :: 'a::len word)"
  by (simp add: limit_def)

lemma aligned_iff_dvd: "aligned x (2 ^ n) \<longleftrightarrow> 2 ^ n dvd unat x"
  by (simp add: aligned_def dvd_eq_mod_eq_0 unsigned_eq_0_iff
      flip: mask_eq_exp_minus_1 unat_and_mask)

lemma unat_align_down [word_to_nat]:
  "unat (align_down x (2 ^ n)) = unat x - unat x mod 2 ^ n"
  by (simp add: align_down_def unat_and_not_mask flip: mask_eq_exp_minus_1)

lemma align_down_le: "align_down x (2 ^ n) \<le> x"
  by (simp add: word_le_nat_alt unat_align_down)

lemma aligned_align_down: "aligned (align_down x (2 ^ n)) (2 ^ n)"
  by (simp add: aligned_iff_dvd unat_align_down minus_mod_eq_mult_div)

lemma unat_plus_mask:
  fixes x :: "'a::len word"
  assumes "unat x + 2 ^ n \<le> 2 ^ LENGTH('a)"
  shows "unat (x + 2 ^ n - 1) = unat x + (2 ^ n - 1)"
proof (cases "n < LENGTH('a)")
  case True
  have "unat (mask n :: 'a word) = 2 ^ n - 1"
    using True by (rule unat_mask_word)
  moreover have "(x + 2 ^ n - 1) = x + mask n"
    by (simp add: mask_eq_exp_minus_1)
  moreover have "unat x + (2 ^ n - 1) < 2 ^ LENGTH('a)"
    using assms zero_less_power [of "2::nat" n] by linarith
  ultimately show ?thesis
    using unat_add_lem [of x "mask n"] by (simp only:)
next
  case False
  then have "(2::nat) ^ LENGTH('a) \<le> 2 ^ n"
    by (simp add: power_increasing)
  with assms have "2 ^ n = (2::nat) ^ LENGTH('a)" "unat x = 0"
    by linarith+
  then have "n = LENGTH('a)" "x = 0"
    by (simp_all add: unsigned_eq_0_iff)
  then show ?thesis
    by (simp add: unsigned_minus_1_eq_mask mask_eq_exp_minus_1)
qed

lemma unat_align_up:
  fixes x :: "'a::len word"
  assumes "unat x + 2 ^ n \<le> 2 ^ LENGTH('a)"
  shows "unat (align_up x (2 ^ n)) = ((unat x + (2 ^ n - 1)) div 2 ^ n) * 2 ^ n"
proof -
  have "align_up x (2 ^ n) = (x + 2 ^ n - 1) AND NOT (mask n)"
    by (simp add: align_up_def mask_eq_exp_minus_1)
  then show ?thesis
    by (simp add: unat_and_not_mask unat_plus_mask [OF assms] minus_mod_eq_div_mult)
qed

lemma align_up_ge:
  fixes x :: "'a::len word"
  assumes "unat x + 2 ^ n \<le> 2 ^ LENGTH('a)"
  shows "x \<le> align_up x (2 ^ n)"
proof -
  have "unat x \<le> ((unat x + (2 ^ n - 1)) div 2 ^ n) * 2 ^ n"
    using mod_less_divisor [of "2 ^ n" "unat x + (2 ^ n - 1)"] zero_less_power [of "2::nat" n]
      div_mult_mod_eq [of "unat x + (2 ^ n - 1)" "2 ^ n"] by linarith
  then show ?thesis
    by (simp add: word_le_nat_alt unat_align_up [OF assms])
qed

lemma align_up_least:
  fixes x :: "'a::len word"
  assumes "unat x + 2 ^ n \<le> 2 ^ LENGTH('a)" "aligned y (2 ^ n)" "x \<le> y"
  shows "align_up x (2 ^ n) \<le> y"
proof -
  obtain k where k: "unat y = 2 ^ n * k"
    using assms(2) by (auto simp: aligned_iff_dvd)
  have "unat x + (2 ^ n - 1) < (k + 1) * 2 ^ n"
    using assms(3) zero_less_power [of "2::nat" n]
    unfolding word_le_nat_alt k by (simp only: algebra_simps) linarith
  then have "(unat x + (2 ^ n - 1)) div 2 ^ n < k + 1"
    by (rule less_mult_imp_div_less)
  then show ?thesis
    by (simp add: word_le_nat_alt unat_align_up [OF assms(1)] k mult.commute)
qed

section \<open>Bit scans\<close>

lemma ctz_0 [simp]: "ctz (0 :: 'a::len word) = LENGTH('a)"
  using length_takeWhile_eq_length [of "\<lambda>i. \<not> bit (0 :: 'a word) i" "[0..<LENGTH('a)]"]
  by (simp add: ctz_def)

lemma ctz_le: "ctz (x :: 'a::len word) \<le> LENGTH('a)"
  unfolding ctz_def by (rule order_trans [OF length_takeWhile_le]) simp

lemma ctz_less: "(ctz (x :: 'a::len word) < LENGTH('a)) \<longleftrightarrow> x \<noteq> 0"
proof -
  have "ctz x = LENGTH('a) \<longleftrightarrow> x = 0"
    using length_takeWhile_eq_length [of "\<lambda>i. \<not> bit x i" "[0..<LENGTH('a)]"]
    by (auto simp: ctz_def bit_eq_iff dest: bit_imp_le_length)
  then show ?thesis
    using ctz_le [of x] by auto
qed

lemma bit_ctz: "x \<noteq> 0 \<Longrightarrow> bit x (ctz x)"
  for x :: "'a::len word"
  using takeWhile_first [of "\<lambda>i. \<not> bit x i" "[0..<LENGTH('a)]"] ctz_less [of x]
  by (simp add: ctz_def)

lemma bit_below_ctz: "i < ctz x \<Longrightarrow> \<not> bit x i"
  for x :: "'a::len word"
  using takeWhile_before [of i "\<lambda>i. \<not> bit x i" "[0..<LENGTH('a)]"] ctz_le [of x]
  by (simp add: ctz_def)

lemma ctz_unique: "bit x n \<Longrightarrow> (\<And>i. i < n \<Longrightarrow> \<not> bit x i) \<Longrightarrow> ctz x = n"
  for x :: "'a::len word"
  using bit_ctz [of x] bit_below_ctz [of _ x] by (metis bit_0_eq bot_apply linorder_neqE_nat)

definition top_bit :: "'a::len word \<Rightarrow> nat" where
  "top_bit x = LENGTH('a) - 1 - clz x"

lemma clz_le: "clz (x :: 'a::len word) \<le> LENGTH('a)"
  unfolding clz_def by (rule order_trans [OF length_takeWhile_le]) simp

lemma clz_less: "(clz (x :: 'a::len word) < LENGTH('a)) \<longleftrightarrow> x \<noteq> 0"
proof -
  have "clz x = LENGTH('a) \<longleftrightarrow> x = 0"
    using length_takeWhile_eq_length [of "\<lambda>i. \<not> bit x i" "rev [0..<LENGTH('a)]"]
    by (auto simp: clz_def bit_eq_iff dest: bit_imp_le_length)
  then show ?thesis
    using clz_le [of x] by auto
qed

lemma bit_top_bit: "x \<noteq> 0 \<Longrightarrow> bit x (top_bit x)"
  for x :: "'a::len word"
  using takeWhile_first [of "\<lambda>i. \<not> bit x i" "rev [0..<LENGTH('a)]"] clz_less [of x]
  by (simp add: clz_def top_bit_def rev_nth)

lemma bit_above_top_bit:
  fixes x :: "'a::len word"
  assumes "top_bit x < i" shows "\<not> bit x i"
proof (cases "i < LENGTH('a)")
  case True
  then have "LENGTH('a) - 1 - i < clz x"
    using assms by (simp add: top_bit_def)
  then show ?thesis
    using takeWhile_before [of "LENGTH('a) - 1 - i" "\<lambda>i. \<not> bit x i" "rev [0..<LENGTH('a)]"] True
    by (simp add: clz_def rev_nth)
qed (auto dest: bit_imp_le_length)

lemma top_bit_less: "top_bit (x :: 'a::len word) < LENGTH('a)"
  by (simp add: top_bit_def less_imp_diff_less)

lemma int_top_bit: "x \<noteq> 0 \<Longrightarrow> (int LENGTH('a) - 1) - int (clz x) = int (top_bit x)"
  for x :: "'a::len word"
  using clz_less [of x] by (simp add: top_bit_def of_nat_diff)

lemma unat_ge_bit: "bit x n \<Longrightarrow> 2 ^ n \<le> unat x"
  for x :: "'a::len word"
proof -
  assume "bit x n"
  then have "odd (unat x div 2 ^ n)"
    by (metis bit_iff_odd bit_unsigned_iff possible_bit_nat)
  then have "unat x div 2 ^ n \<noteq> 0"
    by (metis even_zero)
  then show ?thesis
    by (simp add: div_eq_0_iff not_less)
qed

lemma unat_less_bits:
  fixes x :: "'a::len word"
  assumes "\<And>i. n \<le> i \<Longrightarrow> \<not> bit x i"
  shows "unat x < 2 ^ n"
proof -
  have "take_bit n x = x"
    by (rule bit_word_eqI) (use assms in \<open>auto simp: bit_simps not_less [symmetric]\<close>)
  then have "unat x = take_bit n (unat x)"
    by (metis unsigned_take_bit_eq)
  then show ?thesis
    by (metis take_bit_nat_less_exp)
qed

lemma top_bit_bounds:
  assumes "x \<noteq> 0"
  shows "2 ^ top_bit x \<le> unat x" "unat x < 2 ^ Suc (top_bit x)"
  using unat_ge_bit [OF bit_top_bit [OF assms]] unat_less_bits [of "Suc (top_bit x)" x]
    bit_above_top_bit [of x] by (simp_all add: Suc_le_eq)

lemma floorlog2_top_bit: "x \<noteq> 0 \<Longrightarrow> floorlog2 x = int (top_bit x)"
  by (simp add: floorlog2_def msbcond_def int_top_bit)

lemma to_int_limit: "32 \<le> LENGTH('a) \<Longrightarrow> to_int (limit :: 'a::len word) = - 1"
proof -
  assume "32 \<le> LENGTH('a)"
  then have "(ucast (- 1 :: 'a word) :: 32 word) = - 1"
    by (intro bit_word_eqI) (simp add: bit_simps)
  then show ?thesis
    by (simp add: to_int_def limit_def)
qed

section \<open>Bit fields\<close>

lemma bit_bs_put: "bit (bs_put b f) i \<longleftrightarrow>
    Pos b \<le> i \<and> i < Pos b + Width b \<and> i < LENGTH('a) \<and> bit f (i - Pos b)"
  for f :: "'a::len word"
  by (auto simp: bs_put_def bit_simps)

lemma bit_bs_get: "bit (bs_get b f) i \<longleftrightarrow> i < Width b \<and> bit f (Pos b + i)"
  for f :: "'a::len word"
  by (auto simp: bs_get_def bit_simps dest: bit_imp_le_length)

lemma bit_bs_mask: "bit (bs_mask b :: 'a::len word) i \<longleftrightarrow>
    Pos b \<le> i \<and> i < Pos b + Width b \<and> i < LENGTH('a)"
  by (auto simp: bs_mask_def bitmask_at_def bit_simps)

lemma bs_get_put:
  "Pos b + Width b \<le> LENGTH('a) \<Longrightarrow> bs_get b (bs_put b f) = f AND bitmask (Width b)"
  for f :: "'a::len word"
  by (rule bit_word_eqI) (auto simp: bit_bs_get bit_bs_put bit_simps)

lemma bs_get_or [simp]: "bs_get b (x OR y) = bs_get b x OR bs_get b y"
  by (rule bit_word_eqI) (auto simp: bit_bs_get bit_simps)

lemma bs_get_other:
  assumes "Pos b + Width b \<le> Pos c \<or> Pos c + Width c \<le> Pos b"
  shows "bs_get b (bs_put c f) = (0 :: 'a::len word)"
  by (rule bit_word_eqI) (use assms in \<open>auto simp: bit_bs_get bit_bs_put\<close>)

lemma bs_put_get: "bs_put b (bs_get b x) = x AND bs_mask b"
  by (rule bit_word_eqI) (auto simp: bit_bs_get bit_bs_put bit_bs_mask bit_simps)

section \<open>Single bits\<close>

lemma bit_bit_set [simp]: "idx < 64 \<Longrightarrow> bit (bit_set a idx) i \<longleftrightarrow> bit a i \<or> i = idx"
  by (auto simp: bit_set_def bit_simps)

lemma bit_bit_clr [simp]: "bit (bit_clr a idx) i \<longleftrightarrow> bit a i \<and> i \<noteq> idx"
  by (auto simp: bit_clr_def bit_simps dest: bit_imp_le_length)

lemma bit_bit_flp [simp]: "idx < 64 \<Longrightarrow> bit (bit_flp a idx) i \<longleftrightarrow> (bit a i \<noteq> (i = idx))"
  by (auto simp: bit_flp_def bit_simps)

section \<open>The multi-word scans find the first and the last set bit\<close>

definition words_bit :: "mword list \<Rightarrow> nat \<Rightarrow> bool" where
  "words_bit ws i \<longleftrightarrow> i < 64 * length ws \<and> bit (ws ! (i div 64)) (i mod 64)"

fun first_set :: "mword list \<Rightarrow> nat" where
  "first_set [] = 0"
| "first_set (d # ds) = (if d = 0 then 64 + first_set ds else ctz d)"

lemma words_bit_Nil [simp]: "\<not> words_bit [] i"
  by (simp add: words_bit_def)

lemma words_bit_less: "words_bit ws i \<Longrightarrow> i < 64 * length ws"
  by (simp add: words_bit_def)

lemma words_bit_Cons:
  "words_bit (w # ws) i \<longleftrightarrow> (if i < 64 then bit w i else words_bit ws (i - 64))"
  by (auto simp: words_bit_def nth_Cons' div_eq_0_iff le_div_geq le_mod_geq)

lemma first_set_le: "first_set ws \<le> 64 * length ws"
proof (induction ws)
  case (Cons w ws)
  then show ?case using ctz_le [of w] by simp
qed simp

lemma first_set_none: "(first_set ws = 64 * length ws) \<longleftrightarrow> (\<forall>i. \<not> words_bit ws i)"
proof (induction ws)
  case (Cons w ws)
  show ?case
  proof (cases "w = 0")
    case True
    then have "(\<forall>i. \<not> words_bit (w # ws) i) \<longleftrightarrow> (\<forall>i. \<not> words_bit ws i)"
      by (auto simp: words_bit_Cons)
    with True Cons show ?thesis by simp
  next
    case False
    then have "ctz w < 64" "words_bit (w # ws) (ctz w)"
      using ctz_less [of w] bit_ctz [of w] by (simp_all add: words_bit_Cons)
    with False show ?thesis by auto
  qed
qed simp

lemma first_set_hit: "first_set ws < 64 * length ws \<Longrightarrow> words_bit ws (first_set ws)"
proof (induction ws)
  case (Cons w ws)
  then show ?case
    using bit_ctz [of w] ctz_less [of w] by (auto simp: words_bit_Cons)
qed simp

lemma first_set_least: "words_bit ws i \<Longrightarrow> first_set ws \<le> i"
proof (induction ws arbitrary: i)
  case (Cons w ws)
  show ?case
  proof (cases "i < 64")
    case True
    with Cons.prems have "bit w i" by (simp add: words_bit_Cons)
    with bit_below_ctz [of i w] show ?thesis by (auto simp: not_less [symmetric])
  next
    case False
    with Cons have "first_set ws \<le> i - 64" by (simp add: words_bit_Cons)
    with False show ?thesis using ctz_le [of w] by auto
  qed
qed simp

lemma multiscan_loop_masked: "multiscan_loop fs ws r 0 = r"
  by (induction ws arbitrary: r) (simp_all add: Let_def)

lemma multiscan_loop_first:
  "multiscan_loop True ws r (- 1) = r + of_nat (first_set ws)"
  by (induction ws arbitrary: r)
    (simp_all add: Let_def multiscan_loop_masked)

lemma multiscan_loop_negate:
  "multiscan_loop False ws r m = multiscan_loop True (map NOT ws) r m"
  by (induction ws arbitrary: r m) (simp_all add: Let_def)

lemma multiscan_first_set:
  "multiscan fs ws = of_nat (first_set (if fs then ws else map NOT ws))"
  by (cases fs) (simp_all add: multiscan_def multiscan_loop_first multiscan_loop_negate)

lemma unat_of_nat_index:
  "n \<le> 64 * l \<Longrightarrow> l < 2 ^ 58 \<Longrightarrow> unat (of_nat n :: mword) = n"
  by (simp add: unat_of_nat)

lemma unat_multiscan:
  "length ws < 2 ^ 58 \<Longrightarrow> unat (multiscan fs ws) = first_set (if fs then ws else map NOT ws)"
  using first_set_le [of "if fs then ws else map NOT ws"]
  by (simp add: multiscan_first_set unat_of_nat_index split: if_splits)

fun last_set_rev :: "mword list \<Rightarrow> nat" where
  "last_set_rev [] = 0"
| "last_set_rev (d # ds) = (if d = 0 then last_set_rev ds else 64 * length ds + top_bit d)"

lemma top_bit_mword: "top_bit (x :: mword) = 63 - clz x"
  by (simp add: top_bit_def del: One_nat_def)

lemma multiscan_r_loop_masked:
  "multiscan_r_loop True ws r 0 = r + of_nat (64 * length ws)"
  by (induction ws arbitrary: r) (simp_all add: Let_def algebra_simps)

lemma multiscan_r_loop_last:
  "multiscan_r_loop True ws r (- 1) = r + of_nat (last_set_rev ws)"
  by (induction ws arbitrary: r)
    (simp_all add: Let_def multiscan_r_loop_masked top_bit_mword algebra_simps)

lemma multiscan_r_last_set: "multiscan_r True ws = of_nat (last_set_rev (rev ws))"
  by (simp add: multiscan_r_def multiscan_r_loop_last)

lemma words_bit_append: "words_bit (xs @ ys) i \<longleftrightarrow>
    (if i < 64 * length xs then words_bit xs i else words_bit ys (i - 64 * length xs))"
  by (induction xs arbitrary: i) (auto simp: words_bit_Cons)

lemma last_set_rev_spec:
  assumes "words_bit ws i"
  shows "words_bit ws (last_set_rev (rev ws)) \<and> i \<le> last_set_rev (rev ws)"
  using assms
proof (induction ws arbitrary: i rule: rev_induct)
  case (snoc w ws)
  show ?case
  proof (cases "w = 0")
    case True
    with snoc.prems have "words_bit ws i"
      by (auto simp: words_bit_append words_bit_Cons split: if_splits)
    from snoc.IH [OF this] True show ?thesis
      by (auto simp: words_bit_append dest: words_bit_less)
  next
    case False
    have "i \<le> 64 * length ws + top_bit w"
      using snoc.prems bit_above_top_bit [of w "i - 64 * length ws"]
      by (force simp: words_bit_append words_bit_Cons split: if_splits)
    with False top_bit_less [of w] bit_top_bit [of w] show ?thesis
      by (simp add: words_bit_append words_bit_Cons)
  qed
qed simp

lemma last_set_rev_empty: "(\<And>i. \<not> words_bit ws i) \<Longrightarrow> last_set_rev (rev ws) = 0"
proof (induction ws rule: rev_induct)
  case (snoc w ws)
  have "\<not> words_bit ws i" for i
    using snoc.prems [of i] words_bit_less [of ws i] by (auto simp: words_bit_append split: if_splits)
  moreover have "w = 0"
  proof (rule ccontr)
    assume "w \<noteq> 0"
    with snoc.prems [of "64 * length ws + top_bit w"] top_bit_less [of w] bit_top_bit [of w]
    show False by (simp add: words_bit_append words_bit_Cons)
  qed
  ultimately show ?case using snoc.IH by simp
qed simp

lemma last_set_rev_less: "ws \<noteq> [] \<Longrightarrow> last_set_rev (rev ws) < 64 * length ws"
proof (induction ws rule: rev_induct)
  case (snoc w ws)
  then show ?case using top_bit_less [of w] by (cases "ws = []") auto
qed simp

section \<open>Properties\<close>

text \<open>
  for a power-of-two alignment whose rounding does not wrap, \<open>align_up\<close> returns
  the least aligned word that is not below its argument.
\<close>

theorem align_up_spec:
  fixes x :: "'a::len word"
  assumes "unat x + 2 ^ n \<le> 2 ^ LENGTH('a)"
  shows "aligned (align_up x (2 ^ n)) (2 ^ n) \<and> x \<le> align_up x (2 ^ n) \<and>
    (\<forall>y. aligned y (2 ^ n) \<and> x \<le> y \<longrightarrow> align_up x (2 ^ n) \<le> y)"
  using align_up_ge [OF assms] align_up_least [OF assms]
  by (simp add: aligned_iff_dvd unat_align_up [OF assms])

theorem align_up_spec_witness:
  "aligned (align_up (5000 :: mword) (2 ^ 12)) (2 ^ 12) \<and> align_up (5000 :: mword) (2 ^ 12) = 8192"
  using align_up_spec [of "5000 :: mword" 12] by (simp add: align_up_def)

text \<open>
  C37: the multi-word scan behind \<open>Bitmap::findset\<close> and \<open>findclear\<close> returns the index
  of the first selected bit of the array, and the array's bit size when there is none.
\<close>

theorem multiscan_spec:
  fixes fs :: bool
  assumes "length ws < 2 ^ 58"
  defines "sel \<equiv> words_bit (if fs then ws else map NOT ws)"
  shows "unat (multiscan fs ws) \<le> 64 * length ws
    \<and> (\<forall>i < unat (multiscan fs ws). \<not> sel i)
    \<and> (unat (multiscan fs ws) < 64 * length ws \<longrightarrow> sel (unat (multiscan fs ws)))"
proof -
  let ?v = "if fs then ws else map NOT ws"
  have len: "length ?v = length ws" by simp
  show ?thesis
    using first_set_le [of ?v] first_set_hit [of ?v] first_set_least [of ?v]
    unfolding sel_def unat_multiscan [OF assms(1)] len by (meson leD)
qed

theorem multiscan_spec_witness:
  "unat (multiscan True [0, 8]) = 67 \<and> \<not> words_bit [0, 8] 66 \<and> words_bit [0, 8] 67"
proof -
  have "unat (multiscan True [0, 8]) = 67" by code_simp
  with multiscan_spec [of "[0, 8]" True] show ?thesis by simp
qed

text \<open>
  the reverse scan returns the last set bit when one is set; on an empty array it
  returns 0, which no caller can tell from a bitmap whose only set bit is bit 0.
\<close>

theorem multiscan_r_spec:
  assumes "ws \<noteq> []" "length ws < 2 ^ 58"
  shows "(\<forall>i. words_bit ws i \<longrightarrow> words_bit ws (unat (multiscan_r True ws))
      \<and> i \<le> unat (multiscan_r True ws))
    \<and> ((\<forall>i. \<not> words_bit ws i) \<longrightarrow> multiscan_r True ws = 0)"
proof -
  have "unat (multiscan_r True ws) = last_set_rev (rev ws)"
    unfolding multiscan_r_last_set
    using last_set_rev_less [OF assms(1)] assms(2) by (intro unat_of_nat_index) auto
  then show ?thesis
    using last_set_rev_spec [of ws] last_set_rev_empty [of ws]
    by (auto simp: multiscan_r_last_set)
qed

theorem multiscan_r_spec_witness:
  "multiscan_r True [0, 0] = 0 \<and> unat (multiscan_r True [5, 9]) = 67 \<and> words_bit [5, 9] 67"
proof -
  have "unat (multiscan_r True [5, 9]) = 67" "words_bit [5, 9] 64" by code_simp+
  moreover have "\<not> words_bit [0, 0] i" for i by (simp add: words_bit_Cons)
  ultimately show ?thesis
    using multiscan_r_spec [of "[0, 0]"] multiscan_r_spec [of "[5, 9]"] by auto
qed

end
