(* ===== verification/Bitmaps.thy ===== *)
theory Bitmaps
  imports BitManip
begin

unbundle bit_operations_syntax

text \<open>
  The bitmaps of \<open>generic/Bitmap.h\<close>: the word-array \<open>Bitmap<B>\<close>, its one-word
  specialisation and the \<open>HierarchicalBitmap<B,W>\<close>, a tree of bitmaps in one array
  in which a bit of level \<open>i+1\<close> says whether a block of level \<open>i\<close> has a set bit.
  The locale \<open>bit_store\<close> is the interface the frame manager relies on; all three
  classes are interpretations of it.  Bit indices are natural numbers.
\<close>

section \<open>\<open>Bitmap<B>\<close>\<close>

type_synonym bitmap = "mword list"

definition Bitmap_N :: "nat \<Rightarrow> nat" where
  "Bitmap_N B = (B - 1) div 64 + 1"

definition Bitmap_init :: "nat \<Rightarrow> mword \<Rightarrow> bitmap" where
  "Bitmap_init B b = replicate (Bitmap_N B) b"

definition Bitmap_valid :: "nat \<Rightarrow> nat \<Rightarrow> bool" where
  "Bitmap_valid B idx \<longleftrightarrow> idx < Bitmap_N B * 64"

definition Bitmap_filled :: "nat \<Rightarrow> bitmap" where
  "Bitmap_filled B = Bitmap_init B (NOT 0)"

definition Bitmap_set :: "bitmap \<Rightarrow> nat \<Rightarrow> bitmap" where
  "Bitmap_set bits idx = bits[idx div 64 := bit_set (bits ! (idx div 64)) (idx mod 64)]"

definition Bitmap_clear :: "bitmap \<Rightarrow> nat \<Rightarrow> bitmap" where
  "Bitmap_clear bits idx = bits[idx div 64 := bit_clr (bits ! (idx div 64)) (idx mod 64)]"

definition Bitmap_flip :: "bitmap \<Rightarrow> nat \<Rightarrow> bitmap" where
  "Bitmap_flip bits idx = bits[idx div 64 := bit_flp (bits ! (idx div 64)) (idx mod 64)]"

definition Bitmap_test :: "bitmap \<Rightarrow> nat \<Rightarrow> bool" where
  "Bitmap_test bits idx \<longleftrightarrow> (bits ! (idx div 64)) AND push_bit (idx mod 64) 1 \<noteq> 0"

fun BitmapEmptyHelper :: "nat \<Rightarrow> mword list \<Rightarrow> mword" where
  "BitmapEmptyHelper 0 bits = bits ! 0"
| "BitmapEmptyHelper (Suc X) bits = bits ! Suc X OR BitmapEmptyHelper X bits"

fun BitmapFullHelper :: "nat \<Rightarrow> mword list \<Rightarrow> mword" where
  "BitmapFullHelper 0 bits = bits ! 0"
| "BitmapFullHelper (Suc X) bits = bits ! Suc X AND BitmapFullHelper X bits"

fun BitmapCountHelper :: "nat \<Rightarrow> mword list \<Rightarrow> nat" where
  "BitmapCountHelper 0 bits = popcount (bits ! 0)"
| "BitmapCountHelper (Suc X) bits = popcount (bits ! Suc X) + BitmapCountHelper X bits"

definition Bitmap_empty :: "bitmap \<Rightarrow> bool" where
  "Bitmap_empty bits \<longleftrightarrow> BitmapEmptyHelper (length bits - 1) bits = 0"

definition Bitmap_full :: "bitmap \<Rightarrow> bool" where
  "Bitmap_full bits \<longleftrightarrow> BitmapFullHelper (length bits - 1) bits = NOT 0"

definition Bitmap_count :: "bitmap \<Rightarrow> nat" where
  "Bitmap_count bits = BitmapCountHelper (length bits - 1) bits"

definition Bitmap_findset :: "bitmap \<Rightarrow> nat" where
  "Bitmap_findset bits = unat (multiscan True bits)"

definition Bitmap_findset_rev :: "bitmap \<Rightarrow> nat" where
  "Bitmap_findset_rev bits = unat (multiscan_r True bits)"

definition Bitmap_findclear :: "bitmap \<Rightarrow> nat" where
  "Bitmap_findclear bits = unat (multiscan False bits)"

section \<open>\<open>Bitmap<64>\<close>, the one-word specialisation\<close>

definition Bitmap64_set :: "mword \<Rightarrow> nat \<Rightarrow> mword" where
  "Bitmap64_set bits idx = bit_set bits idx"

definition Bitmap64_clear :: "mword \<Rightarrow> nat \<Rightarrow> mword" where
  "Bitmap64_clear bits idx = bit_clr bits idx"

definition Bitmap64_flip :: "mword \<Rightarrow> nat \<Rightarrow> mword" where
  "Bitmap64_flip bits idx = bit_flp bits idx"

definition Bitmap64_test :: "mword \<Rightarrow> nat \<Rightarrow> bool" where
  "Bitmap64_test bits idx \<longleftrightarrow> bits AND push_bit idx 1 \<noteq> 0"

definition Bitmap64_empty :: "mword \<Rightarrow> bool" where
  "Bitmap64_empty bits \<longleftrightarrow> bits = 0"

definition Bitmap64_full :: "mword \<Rightarrow> bool" where
  "Bitmap64_full bits \<longleftrightarrow> bits = NOT 0"

definition Bitmap64_findset :: "mword \<Rightarrow> nat" where
  "Bitmap64_findset bits = nat (lsbcond bits 64)"

definition Bitmap64_findset_rev :: "mword \<Rightarrow> nat" where
  "Bitmap64_findset_rev bits = nat (msbcond bits 64)"

definition Bitmap64_findclear :: "mword \<Rightarrow> nat" where
  "Bitmap64_findclear bits = nat (lsbcond (NOT bits) 64)"

definition Bitmap64_findnextset :: "mword \<Rightarrow> nat \<Rightarrow> nat" where
  "Bitmap64_findnextset bits idx = nat (lsbcond (bits AND NOT (bitmask idx)) 64)"

section \<open>The interface of a set of bits\<close>

text \<open>
  What a client may rely on: \<open>btest\<close> observes the bits below the capacity, \<open>bput\<close> and
  \<open>bdel\<close> change one of them, and \<open>bfind\<close> returns the first set one if there is one.
\<close>

locale bit_store =
  fixes bput :: "'s \<Rightarrow> nat \<Rightarrow> 's"
    and bdel :: "'s \<Rightarrow> nat \<Rightarrow> 's"
    and btest :: "'s \<Rightarrow> nat \<Rightarrow> bool"
    and bempty :: "'s \<Rightarrow> bool"
    and bfind :: "'s \<Rightarrow> nat"
    and cap :: nat
    and invar :: "'s \<Rightarrow> bool"
  assumes invar_put: "invar s \<Longrightarrow> i < cap \<Longrightarrow> invar (bput s i)"
    and invar_del: "invar s \<Longrightarrow> i < cap \<Longrightarrow> invar (bdel s i)"
    and test_put: "invar s \<Longrightarrow> i < cap \<Longrightarrow> j < cap \<Longrightarrow> btest (bput s i) j \<longleftrightarrow> j = i \<or> btest s j"
    and test_del: "invar s \<Longrightarrow> i < cap \<Longrightarrow> j < cap \<Longrightarrow> btest (bdel s i) j \<longleftrightarrow> j \<noteq> i \<and> btest s j"
    and empty_iff: "invar s \<Longrightarrow> bempty s \<longleftrightarrow> (\<forall>i < cap. \<not> btest s i)"
    and find_hit: "invar s \<Longrightarrow> \<not> bempty s \<Longrightarrow> bfind s < cap \<and> btest s (bfind s)"
    and find_least: "invar s \<Longrightarrow> i < cap \<Longrightarrow> btest s i \<Longrightarrow> bfind s \<le> i"
begin

definition members :: "'s \<Rightarrow> nat set" where
  "members s = {i. i < cap \<and> btest s i}"

lemma finite_members: "finite (members s)"
  by (rule finite_subset [of _ "{..<cap}"]) (auto simp: members_def)

lemma members_put: "invar s \<Longrightarrow> i < cap \<Longrightarrow> members (bput s i) = insert i (members s)"
  by (auto simp: members_def test_put)

lemma members_del: "invar s \<Longrightarrow> i < cap \<Longrightarrow> members (bdel s i) = members s - {i}"
  by (auto simp: members_def test_del)

lemma members_empty: "invar s \<Longrightarrow> bempty s \<longleftrightarrow> members s = {}"
  by (auto simp: members_def empty_iff)

lemma find_Min: "invar s \<Longrightarrow> \<not> bempty s \<Longrightarrow> bfind s = Min (members s)"
  by (rule Min_eqI [symmetric])
    (auto simp: finite_members, auto simp: members_def find_least dest: find_hit)

lemma take_first:
  assumes "invar s" "\<not> bempty s"
  shows "members s = insert (bfind s) (members (bdel s (bfind s)))"
    and "bfind s \<notin> members (bdel s (bfind s))"
  using find_hit [OF assms] assms by (auto simp: members_def test_del)

end

section \<open>\<open>HierarchicalBitmap<B,W>\<close>\<close>

text \<open>
  \<open>blocks\<close> is the array of \<open>Bitmap<B>\<close> at \<open>bitmaps[0]\<close>; \<open>bitmaps\<close> holds the level
  pointers as offsets into it, entries \<open>0..toplevel\<close>.
\<close>

record hbitmap =
  blocks :: "bitmap list"
  bitmaps :: "nat list"
  toplevel :: nat

text \<open>\<open>divup\<close> at \<open>size_t\<close>, with its wrap at 0.\<close>

definition sdivup :: "nat \<Rightarrow> nat \<Rightarrow> nat" where
  "sdivup n d = ((n + (2 ^ 64 - 1)) mod 2 ^ 64) div d + 1"

function HB_size :: "nat \<Rightarrow> nat \<Rightarrow> nat" where
  "HB_size B bitcount =
    (if B < 64 \<or> bitcount < B then B
     else sdivup bitcount B + HB_size B (sdivup bitcount B))"
  by pat_completeness auto

lemma sdivup_pos [simp]: "0 < sdivup n d"
  by (simp add: sdivup_def)

lemma sdivup_le: "0 < n \<Longrightarrow> sdivup n d \<le> (n - 1) div d + 1"
proof -
  assume "0 < n"
  then have "n + (2 ^ 64 - 1) = (n - 1) + 2 ^ 64" by simp
  then have "(n + (2 ^ 64 - 1)) mod 2 ^ 64 = (n - 1) mod 2 ^ 64"
    by (simp only: mod_add_self2)
  then show ?thesis
    using mod_less_eq_dividend [of "n - 1" "2 ^ 64"] by (simp add: sdivup_def div_le_mono)
qed

lemma sdivup_less:
  assumes "64 \<le> B" "2 \<le> n" shows "sdivup n B < n"
proof -
  have "(n - 1) div B \<le> (n - 1) div 64"
    using assms by (intro div_le_mono2) auto
  also have "\<dots> < n - 1"
    using assms by simp
  finally show ?thesis
    using sdivup_le [of n B] assms by linarith
qed

termination HB_size
  by (relation "measure snd") (auto intro!: sdivup_less)

declare HB_size.simps [simp del]

text \<open>
  The loop shared by \<open>init\<close> and \<open>clone\<close>.  \<open>L\<close> is the number of entries of the
  \<open>bitmaps\<close> array; \<open>None\<close> is a store behind its end.  The first test is the class's
  static assertion.
\<close>

function HB_levels :: "nat \<Rightarrow> nat \<Rightarrow> nat \<Rightarrow> nat list \<Rightarrow> nat \<Rightarrow> (nat list \<times> nat) option" where
  "HB_levels B L bitcount bms lvl =
    (if B < 64 then None
     else
       let lvl' = lvl + 1;
           bitcount' = sdivup bitcount B
       in if L \<le> lvl' then None
          else let bms' = bms @ [bms ! lvl + bitcount']
               in if bitcount' > 1 then HB_levels B L bitcount' bms' lvl'
                  else Some (bms', lvl'))"
  by pat_completeness auto
termination
  by (relation "measure (\<lambda>(B, L, n, bms, lvl). L - lvl)") auto

declare HB_levels.simps [simp del]

definition HB_L :: "nat \<Rightarrow> nat \<Rightarrow> nat" where
  "HB_L B W = sdivup W (nat (floorlog2 (of_nat B :: mword)))"

definition HB_init :: "nat \<Rightarrow> nat \<Rightarrow> nat \<Rightarrow> hbitmap option" where
  "HB_init B W bitcount =
    (case HB_levels B (HB_L B W) bitcount [0] 0 of
       None \<Rightarrow> None
     | Some (bms, lvl) \<Rightarrow>
         Some \<lparr>blocks = replicate (HB_size B bitcount) (Bitmap_init B 0),
               bitmaps = bms, toplevel = lvl\<rparr>)"

definition HB_clone :: "nat \<Rightarrow> nat \<Rightarrow> nat \<Rightarrow> bitmap list \<Rightarrow> hbitmap option" where
  "HB_clone B W bitcount p =
    (case HB_levels B (HB_L B W) bitcount [0] 0 of
       None \<Rightarrow> None
     | Some (bms, lvl) \<Rightarrow> Some \<lparr>blocks = p, bitmaps = bms, toplevel = lvl\<rparr>)"

text \<open>\<open>bitmaps[i][k]\<close>, read and written.\<close>

definition HB_block :: "hbitmap \<Rightarrow> nat \<Rightarrow> nat \<Rightarrow> bitmap" where
  "HB_block h i k = blocks h ! (bitmaps h ! i + k)"

definition HB_put :: "hbitmap \<Rightarrow> nat \<Rightarrow> nat \<Rightarrow> bitmap \<Rightarrow> hbitmap" where
  "HB_put h i k b = h\<lparr>blocks := (blocks h)[bitmaps h ! i + k := b]\<rparr>"

fun HB_set_loop :: "nat \<Rightarrow> nat list \<Rightarrow> nat \<Rightarrow> hbitmap \<Rightarrow> hbitmap" where
  "HB_set_loop B [] idx h = h"
| "HB_set_loop B (i # is) idx h =
    (let fin = \<not> Bitmap_empty (HB_block h i (idx div B));
         h' = HB_put h i (idx div B) (Bitmap_set (HB_block h i (idx div B)) (idx mod B))
     in if fin then h' else HB_set_loop B is (idx div B) h')"

definition HB_set :: "nat \<Rightarrow> hbitmap \<Rightarrow> nat \<Rightarrow> hbitmap" where
  "HB_set B h idx = HB_set_loop B [0..<Suc (toplevel h)] idx h"

fun HB_clear_loop :: "nat \<Rightarrow> nat list \<Rightarrow> nat \<Rightarrow> hbitmap \<Rightarrow> hbitmap" where
  "HB_clear_loop B [] idx h = h"
| "HB_clear_loop B (i # is) idx h =
    (let h' = HB_put h i (idx div B) (Bitmap_clear (HB_block h i (idx div B)) (idx mod B))
     in if \<not> Bitmap_empty (HB_block h' i (idx div B)) then h'
        else HB_clear_loop B is (idx div B) h')"

definition HB_clear :: "nat \<Rightarrow> hbitmap \<Rightarrow> nat \<Rightarrow> hbitmap" where
  "HB_clear B h idx = HB_clear_loop B [0..<Suc (toplevel h)] idx h"

definition HB_test :: "nat \<Rightarrow> hbitmap \<Rightarrow> nat \<Rightarrow> bool" where
  "HB_test B h idx = Bitmap_test (HB_block h 0 (idx div B)) (idx mod B)"

definition HB_empty :: "hbitmap \<Rightarrow> bool" where
  "HB_empty h = Bitmap_empty (HB_block h (toplevel h) 0)"

fun HB_findset_loop :: "nat \<Rightarrow> hbitmap \<Rightarrow> nat \<Rightarrow> nat \<Rightarrow> nat" where
  "HB_findset_loop B h i idx =
    (let ldx = Bitmap_findset (HB_block h i idx)
     in if ldx = B then 2 ^ 64 - 1
        else let idx' = idx * B + ldx
             in case i of 0 \<Rightarrow> idx' | Suc i' \<Rightarrow> HB_findset_loop B h i' idx')"

definition HB_findset :: "nat \<Rightarrow> hbitmap \<Rightarrow> nat" where
  "HB_findset B h = HB_findset_loop B h (toplevel h) 0"

fun HB_findset_rev_loop :: "nat \<Rightarrow> hbitmap \<Rightarrow> nat \<Rightarrow> nat \<Rightarrow> nat" where
  "HB_findset_rev_loop B h i idx =
    (let ldx = Bitmap_findset_rev (HB_block h i idx)
     in if ldx = B then 2 ^ 64 - 1
        else let idx' = idx * B + ldx
             in case i of 0 \<Rightarrow> idx' | Suc i' \<Rightarrow> HB_findset_rev_loop B h i' idx')"

definition HB_findset_rev :: "nat \<Rightarrow> hbitmap \<Rightarrow> nat" where
  "HB_findset_rev B h = HB_findset_rev_loop B h (toplevel h) 0"

declare HB_findset_loop.simps [simp del] HB_findset_rev_loop.simps [simp del]

function HB_getrange_loop :: "nat \<Rightarrow> hbitmap \<Rightarrow> bool \<Rightarrow> nat \<Rightarrow> nat \<Rightarrow> nat" where
  "HB_getrange_loop B h isset idx bitcount =
    (let idx' = idx + 1
     in if idx' < bitcount \<and> HB_test B h idx' = isset
        then HB_getrange_loop B h isset idx' bitcount
        else idx')"
  by pat_completeness auto
termination
  by (relation "measure (\<lambda>(B, h, s, idx, n). n - idx)") auto

declare HB_getrange_loop.simps [simp del]

definition HB_getrange :: "nat \<Rightarrow> hbitmap \<Rightarrow> nat \<Rightarrow> nat \<Rightarrow> nat" where
  "HB_getrange B h idx bitcount = HB_getrange_loop B h (HB_test B h idx) idx bitcount"

section \<open>The word-array bitmap is a bit store\<close>

lemma Bitmap_test_words_bit: "idx < 64 * length bits \<Longrightarrow> Bitmap_test bits idx \<longleftrightarrow> words_bit bits idx"
  by (auto simp: Bitmap_test_def words_bit_def bit_iff_and_push_bit_not_eq_0)

lemma word_index_less: "i < 64 * n \<Longrightarrow> i div 64 < (n::nat)"
  by (simp add: div_less_iff_less_mult mult.commute)

lemma eq_word_index: "i = j \<longleftrightarrow> i div 64 = j div 64 \<and> i mod 64 = j mod (64::nat)"
  by (metis div_mult_mod_eq)

lemma words_bit_update:
  assumes "i < 64 * length ws" "j < 64 * length ws"
  shows "words_bit (ws[i div 64 := w]) j \<longleftrightarrow>
    (if j div 64 = i div 64 then bit w (j mod 64) else words_bit ws j)"
  using assms by (simp add: words_bit_def nth_list_update word_index_less)

lemma length_Bitmap_ops [simp]:
  "length (Bitmap_set b i) = length b" "length (Bitmap_clear b i) = length b"
  "length (Bitmap_flip b i) = length b" "length (Bitmap_init B w) = Bitmap_N B"
  "length (Bitmap_filled B) = Bitmap_N B"
  "Bitmap_set b i = [] \<longleftrightarrow> b = []" "Bitmap_clear b i = [] \<longleftrightarrow> b = []"
  by (simp_all add: Bitmap_set_def Bitmap_clear_def Bitmap_flip_def Bitmap_init_def Bitmap_filled_def)

lemma words_bit_nth: "i < 64 * length ws \<Longrightarrow> words_bit ws i \<longleftrightarrow> bit (ws ! (i div 64)) (i mod 64)"
  by (simp add: words_bit_def)

lemma Bitmap_test_set: "i < 64 * length b \<Longrightarrow> j < 64 * length b \<Longrightarrow>
    Bitmap_test (Bitmap_set b i) j \<longleftrightarrow> j = i \<or> Bitmap_test b j"
  by (cases "j div 64 = i div 64")
    (auto simp: Bitmap_test_words_bit Bitmap_set_def words_bit_update words_bit_nth
      eq_word_index [of j i])

lemma Bitmap_test_clear: "i < 64 * length b \<Longrightarrow> j < 64 * length b \<Longrightarrow>
    Bitmap_test (Bitmap_clear b i) j \<longleftrightarrow> j \<noteq> i \<and> Bitmap_test b j"
  by (cases "j div 64 = i div 64")
    (auto simp: Bitmap_test_words_bit Bitmap_clear_def words_bit_update words_bit_nth
      eq_word_index [of j i])

lemma Bitmap_test_flip: "i < 64 * length b \<Longrightarrow> j < 64 * length b \<Longrightarrow>
    Bitmap_test (Bitmap_flip b i) j \<longleftrightarrow> (j = i) \<noteq> Bitmap_test b j"
  by (cases "j div 64 = i div 64")
    (auto simp: Bitmap_test_words_bit Bitmap_flip_def words_bit_update words_bit_nth
      eq_word_index [of j i])

lemma BitmapEmptyHelper_iff: "BitmapEmptyHelper X bits = 0 \<longleftrightarrow> (\<forall>k\<le>X. bits ! k = 0)"
  by (induction X) (auto simp: le_Suc_eq or_eq_0_iff)

lemma BitmapFullHelper_iff: "BitmapFullHelper X bits = - 1 \<longleftrightarrow> (\<forall>k\<le>X. bits ! k = - 1)"
  by (induction X) (auto simp: le_Suc_eq and_eq_minus_1_iff)

lemma le_length_pred: "xs \<noteq> [] \<Longrightarrow> k \<le> length xs - Suc 0 \<longleftrightarrow> k < length xs"
  by (cases xs) auto

lemma bit_not_eq_0: "NOT w = 0 \<longleftrightarrow> w = (- 1 :: mword)"
  by (metis bit.compl_one bit.double_compl)

lemma words_zero_iff: "(\<forall>k < length ws. ws ! k = 0) \<longleftrightarrow> (\<forall>i. \<not> words_bit ws i)"
proof
  assume none: "\<forall>i. \<not> words_bit ws i"
  show "\<forall>k < length ws. ws ! k = 0"
  proof (intro allI impI bit_word_eqI)
    fix k n assume "k < length ws" "n < LENGTH(64)"
    then have "words_bit ws (64 * k + n) \<longleftrightarrow> bit (ws ! k) n"
      by (simp add: words_bit_def)
    with none show "bit (ws ! k) n \<longleftrightarrow> bit (0 :: mword) n" by simp
  qed
qed (auto simp: words_bit_def word_index_less)

lemma Bitmap_empty_iff:
  assumes "bits \<noteq> []"
  shows "Bitmap_empty bits \<longleftrightarrow> (\<forall>i < 64 * length bits. \<not> Bitmap_test bits i)"
proof -
  have "(\<forall>k \<le> length bits - 1. bits ! k = 0) \<longleftrightarrow> (\<forall>k < length bits. bits ! k = 0)"
    using assms by (simp add: le_length_pred)
  then show ?thesis
    by (simp only: Bitmap_empty_def BitmapEmptyHelper_iff words_zero_iff)
      (auto simp: Bitmap_test_words_bit dest: words_bit_less)
qed

lemma Bitmap_full_iff:
  assumes "bits \<noteq> []"
  shows "Bitmap_full bits \<longleftrightarrow> (\<forall>i < 64 * length bits. Bitmap_test bits i)"
proof -
  have "(\<forall>k \<le> length bits - 1. bits ! k = - 1) \<longleftrightarrow> (\<forall>k < length bits. map NOT bits ! k = 0)"
    using assms by (auto simp: le_length_pred bit_not_eq_0)
  then have "Bitmap_full bits \<longleftrightarrow> (\<forall>i. \<not> words_bit (map NOT bits) i)"
    using words_zero_iff [of "map NOT bits"] by (simp add: Bitmap_full_def BitmapFullHelper_iff)
  moreover have "words_bit (map NOT bits) i \<longleftrightarrow> i < 64 * length bits \<and> \<not> words_bit bits i" for i
    by (auto simp: words_bit_def word_index_less bit_not_iff)
  ultimately show ?thesis
    by (simp add: Bitmap_test_words_bit)
qed

lemma Bitmap_findset_first: "length bits < 2 ^ 58 \<Longrightarrow> Bitmap_findset bits = first_set bits"
  by (simp add: Bitmap_findset_def unat_multiscan)

interpretation bmap: bit_store Bitmap_set Bitmap_clear Bitmap_test Bitmap_empty Bitmap_findset
  "64 * N" "\<lambda>b. length b = N \<and> b \<noteq> [] \<and> N < 2 ^ 58"
  for N
proof (unfold_locales, goal_cases)
  case (6 s)
  then obtain i where "words_bit s i"
    by (auto simp: Bitmap_empty_iff Bitmap_test_words_bit)
  then have "first_set s < 64 * length s"
    using first_set_least words_bit_less by (blast intro: le_less_trans)
  with 6 first_set_hit [of s] show ?case
    by (simp add: Bitmap_findset_first Bitmap_test_words_bit)
next
  case (7 s i)
  then show ?case
    using first_set_least [of s i] by (auto simp: Bitmap_findset_first Bitmap_test_words_bit)
qed (auto simp: Bitmap_test_set Bitmap_test_clear Bitmap_empty_iff)

lemma Bitmap64_test_bit: "i < 64 \<Longrightarrow> Bitmap64_test b i \<longleftrightarrow> bit b i"
  by (simp add: Bitmap64_test_def bit_iff_and_push_bit_not_eq_0)

lemma lsbcond_64: "nat (lsbcond (b :: mword) 64) = ctz b"
  by (simp add: lsbcond_def to_int_def)

lemma bit_mword_less: "bit (b :: mword) i \<Longrightarrow> i < 64"
  by (drule bit_imp_le_length) simp

interpretation bmap64: bit_store Bitmap64_set Bitmap64_clear Bitmap64_test Bitmap64_empty
  Bitmap64_findset 64 "\<lambda>_. True"
proof (unfold_locales, goal_cases)
  case (4 s)
  then show ?case
    by (auto simp: Bitmap64_empty_def Bitmap64_test_bit bit_eq_iff)
next
  case (5 s)
  then show ?case
    using ctz_less [of s] bit_ctz [of s]
    by (simp add: Bitmap64_empty_def Bitmap64_findset_def lsbcond_64 Bitmap64_test_bit)
next
  case (6 s i)
  then show ?case
    using bit_below_ctz [of i s]
    by (auto simp: Bitmap64_findset_def lsbcond_64 Bitmap64_test_bit not_less [symmetric])
qed (auto simp: Bitmap64_set_def Bitmap64_clear_def Bitmap64_test_bit)

section \<open>The hierarchical bitmap is a bit store\<close>

text \<open>
  \<open>nblk B n i\<close> is the number of blocks of level \<open>i\<close> for \<open>n\<close> bits, \<open>HB_bit\<close> reads a bit
  of any level.  \<open>HB_shape\<close> says the levels lie behind each other in the array;
  \<open>HB_linked\<close> that every summary bit but the one at level \<open>i0\<close>, index \<open>j0\<close> is right
  (level 0 has no summary bits, so \<open>i0 = 0\<close> makes no exception), and that no
  summary bit without a block below it is set.
\<close>

fun nblk :: "nat \<Rightarrow> nat \<Rightarrow> nat \<Rightarrow> nat" where
  "nblk B n 0 = sdivup n B"
| "nblk B n (Suc i) = sdivup (nblk B n i) B"

definition HB_bit :: "nat \<Rightarrow> hbitmap \<Rightarrow> nat \<Rightarrow> nat \<Rightarrow> bool" where
  "HB_bit B h i j = Bitmap_test (HB_block h i (j div B)) (j mod B)"

definition HB_shape :: "nat \<Rightarrow> nat \<Rightarrow> hbitmap \<Rightarrow> bool" where
  "HB_shape B n h \<longleftrightarrow>
    64 \<le> B \<and> 64 dvd B \<and> B < 2 ^ 64 \<and> 0 < n \<and> n < 2 ^ 64 \<and>
    0 < toplevel h \<and> bitmaps h ! 0 = 0 \<and>
    (\<forall>i < toplevel h. bitmaps h ! Suc i = bitmaps h ! i + nblk B n i) \<and>
    nblk B n (toplevel h - 1) = 1 \<and>
    bitmaps h ! toplevel h < length (blocks h) \<and>
    (\<forall>b \<in> set (blocks h). length b = B div 64)"

definition HB_linked :: "nat \<Rightarrow> nat \<Rightarrow> hbitmap \<Rightarrow> nat \<Rightarrow> nat \<Rightarrow> bool" where
  "HB_linked B n h i0 j0 \<longleftrightarrow>
    (\<forall>i < toplevel h. \<forall>j < nblk B n i. (Suc i, j) \<noteq> (i0, j0) \<longrightarrow>
      (HB_bit B h (Suc i) j \<longleftrightarrow> \<not> Bitmap_empty (HB_block h i j))) \<and>
    (\<forall>i < toplevel h. \<forall>j. nblk B n i \<le> j \<and> j div B < nblk B n (Suc i) \<longrightarrow>
      \<not> HB_bit B h (Suc i) j)"

definition HB_inv :: "nat \<Rightarrow> nat \<Rightarrow> hbitmap \<Rightarrow> bool" where
  "HB_inv B n h \<longleftrightarrow> HB_shape B n h \<and> HB_linked B n h 0 0"

lemma sdivup_eq: "0 < n \<Longrightarrow> n \<le> 2 ^ 64 \<Longrightarrow> sdivup n d = (n - 1) div d + 1"
proof -
  assume *: "0 < n" "n \<le> 2 ^ 64"
  then have "n + (2 ^ 64 - 1) = (n - 1) + 2 ^ 64" "n - 1 < 2 ^ 64" by linarith+
  then have "(n + (2 ^ 64 - 1)) mod 2 ^ 64 = n - 1"
    by (simp only: mod_add_self2 mod_less)
  then show ?thesis by (simp add: sdivup_def)
qed

lemma sdivup_le_self: "0 < n \<Longrightarrow> sdivup n d \<le> n"
  using sdivup_le [of n d] div_le_dividend [of "n - 1" d] by linarith

lemma nblk_pos [simp]: "0 < nblk B n i"
  by (cases i) simp_all

lemma nblk_le: "0 < n \<Longrightarrow> nblk B n i \<le> n"
proof (induction i)
  case (Suc i)
  then show ?case
    using sdivup_le_self [of "nblk B n i" B] by simp
qed (simp add: sdivup_le_self)

lemma parent_index:
  assumes "0 < n" "n < 2 ^ 64" "j < nblk B n i"
  shows "j div B < nblk B n (Suc i)"
proof -
  have "nblk B n (Suc i) = (nblk B n i - 1) div B + 1"
    using nblk_le [OF assms(1), of B i] assms(2) by (simp add: sdivup_eq)
  moreover have "j div B \<le> (nblk B n i - 1) div B"
    using assms(3) by (intro div_le_mono) simp
  ultimately show ?thesis by simp
qed

lemma HB_shape_top: "HB_shape B n h \<Longrightarrow> nblk B n (toplevel h) = 1"
  by (cases "toplevel h") (simp_all add: HB_shape_def sdivup_def)

lemma HB_base_mono:
  assumes "HB_shape B n h" "i < i'" "i' \<le> toplevel h"
  shows "bitmaps h ! i + nblk B n i \<le> bitmaps h ! i'"
  using assms(2,3)
proof (induction i')
  case (Suc m)
  then have "bitmaps h ! Suc m = bitmaps h ! m + nblk B n m"
    using assms(1) by (simp add: HB_shape_def)
  with Suc show ?case by (cases "i = m") auto
qed simp

lemma HB_slot_less:
  assumes "HB_shape B n h" "i \<le> toplevel h" "k < nblk B n i"
  shows "bitmaps h ! i + k < length (blocks h)"
proof (cases "i = toplevel h")
  case True
  with assms show ?thesis by (simp add: HB_shape_top) (simp add: HB_shape_def)
next
  case False
  with assms HB_base_mono [of B n h i "toplevel h"] show ?thesis
    by (simp add: HB_shape_def)
qed

lemma HB_slot_inj:
  assumes "HB_shape B n h" "i \<le> toplevel h" "k < nblk B n i" "i' \<le> toplevel h" "k' < nblk B n i'"
  shows "bitmaps h ! i + k = bitmaps h ! i' + k' \<longleftrightarrow> i = i' \<and> k = k'"
  using HB_base_mono [OF assms(1), of i i'] HB_base_mono [OF assms(1), of i' i] assms(2-)
  by (cases i i' rule: linorder_cases) auto

lemma HB_put_simps [simp]:
  "toplevel (HB_put h i k b) = toplevel h" "bitmaps (HB_put h i k b) = bitmaps h"
  by (simp_all add: HB_put_def)

lemma HB_block_put:
  assumes "HB_shape B n h" "i \<le> toplevel h" "k < nblk B n i" "i' \<le> toplevel h" "k' < nblk B n i'"
  shows "HB_block (HB_put h i k b) i' k' = (if i' = i \<and> k' = k then b else HB_block h i' k')"
  using HB_slot_inj [OF assms] HB_slot_less [OF assms(1-3)]
  by (auto simp: HB_block_def HB_put_def nth_list_update)

lemma HB_bit_put:
  assumes "HB_shape B n h" "i \<le> toplevel h" "k < nblk B n i" "i' \<le> toplevel h" "j div B < nblk B n i'"
  shows "HB_bit B (HB_put h i k b) i' j \<longleftrightarrow>
    (if i' = i \<and> j div B = k then Bitmap_test b (j mod B) else HB_bit B h i' j)"
  using HB_block_put [OF assms, of b] by (simp add: HB_bit_def)

lemma HB_length_block:
  assumes "HB_shape B n h" "i \<le> toplevel h" "k < nblk B n i"
  shows "length (HB_block h i k) = B div 64"
  using HB_slot_less [OF assms] assms(1) by (simp add: HB_shape_def HB_block_def)

lemma HB_shape_put:
  assumes "HB_shape B n h" "length b = B div 64"
  shows "HB_shape B n (HB_put h i k b)"
  using assms set_update_subset_insert [of "blocks h" "bitmaps h ! i + k" b]
  by (auto simp: HB_shape_def HB_put_def)

lemma HB_shapeD:
  assumes "HB_shape B n h"
  shows "64 \<le> B" "0 < B" "64 * (B div 64) = B" "B div 64 \<noteq> 0" "B div 64 < 2 ^ 58"
    "0 < n" "n < 2 ^ 64" "0 < toplevel h"
  using assms by (auto simp: HB_shape_def)

lemma HB_block_empty:
  assumes "HB_shape B n h" "i \<le> toplevel h" "k < nblk B n i"
  shows "Bitmap_empty (HB_block h i k) \<longleftrightarrow> (\<forall>j. j div B = k \<longrightarrow> \<not> HB_bit B h i j)"
proof -
  have len: "length (HB_block h i k) = B div 64" by (rule HB_length_block [OF assms])
  then have "HB_block h i k \<noteq> []"
    using HB_shapeD(4) [OF assms(1)] by auto
  then have "Bitmap_empty (HB_block h i k) \<longleftrightarrow> (\<forall>m < B. \<not> Bitmap_test (HB_block h i k) m)"
    using len HB_shapeD(3) [OF assms(1)] by (simp add: Bitmap_empty_iff)
  also have "\<dots> \<longleftrightarrow> (\<forall>j. j div B = k \<longrightarrow> \<not> HB_bit B h i j)"
    unfolding HB_bit_def using HB_shapeD(2) [OF assms(1)]
    by (metis add.right_neutral div_less div_mult_self3 mod_less mod_less_divisor mod_mult_self3
        neq0_conv)
  finally show ?thesis .
qed

lemma HB_bit_set_block:
  assumes "HB_shape B n h" "i \<le> toplevel h" "idx div B < nblk B n i"
    "i' \<le> toplevel h" "j div B < nblk B n i'"
  shows "HB_bit B (HB_put h i (idx div B) (Bitmap_set (HB_block h i (idx div B)) (idx mod B))) i' j
    \<longleftrightarrow> (i' = i \<and> j = idx) \<or> HB_bit B h i' j"
proof -
  have "j = idx \<longleftrightarrow> j div B = idx div B \<and> j mod B = idx mod B"
    by (metis div_mult_mod_eq)
  with HB_length_block [OF assms(1-3)] HB_shapeD(2,3) [OF assms(1)] show ?thesis
    unfolding HB_bit_put [OF assms] by (auto simp: Bitmap_test_set HB_bit_def)
qed

lemma HB_bit_clear_block:
  assumes "HB_shape B n h" "i \<le> toplevel h" "idx div B < nblk B n i"
    "i' \<le> toplevel h" "j div B < nblk B n i'"
  shows "HB_bit B (HB_put h i (idx div B) (Bitmap_clear (HB_block h i (idx div B)) (idx mod B))) i' j
    \<longleftrightarrow> \<not> (i' = i \<and> j = idx) \<and> HB_bit B h i' j"
proof -
  have "j = idx \<longleftrightarrow> j div B = idx div B \<and> j mod B = idx mod B"
    by (metis div_mult_mod_eq)
  with HB_length_block [OF assms(1-3)] HB_shapeD(2,3) [OF assms(1)] show ?thesis
    unfolding HB_bit_put [OF assms] by (auto simp: Bitmap_test_clear HB_bit_def)
qed

text \<open>
  One step of either loop moves the only summary bit that may be wrong one level up,
  or ends with none.
\<close>

lemma HB_link_step:
  assumes sh: "HB_shape B n h" "HB_shape B n h'" "toplevel h' = toplevel h"
    and lk: "HB_linked B n h i idx" and idx: "idx div B < nblk B n i"
    and child: "0 < i \<Longrightarrow> idx < nblk B n (i - 1) \<and> (Bitmap_empty (HB_block h (i - 1) idx) \<longleftrightarrow> \<not> v)"
    and bit': "\<And>i' j. i' \<le> toplevel h \<Longrightarrow> j div B < nblk B n i' \<Longrightarrow>
      HB_bit B h' i' j \<longleftrightarrow> (if i' = i \<and> j = idx then v else HB_bit B h i' j)"
  shows "HB_linked B n h' (Suc i) (idx div B)"
    and "\<not> Bitmap_empty (HB_block h i (idx div B)) \<Longrightarrow>
      \<not> Bitmap_empty (HB_block h' i (idx div B)) \<Longrightarrow> HB_linked B n h' 0 0"
proof -
  have emp: "Bitmap_empty (HB_block h' i' k) \<longleftrightarrow> Bitmap_empty (HB_block h i' k)"
    if "i' \<le> toplevel h" "k < nblk B n i'" "(i', k) \<noteq> (i, idx div B)" for i' k
  proof -
    have "HB_bit B h' i' j \<longleftrightarrow> HB_bit B h i' j" if "j div B = k" for j
      using bit' [of i' j] \<open>i' \<le> toplevel h\<close> \<open>k < nblk B n i'\<close> \<open>(i', k) \<noteq> (i, idx div B)\<close> that by auto
    then show ?thesis
      using HB_block_empty [OF sh(1) that(1,2)] HB_block_empty [OF sh(2), of i' k] that(1,2) sh(3)
      by simp
  qed
  have par: "j div B < nblk B n (Suc i')" if "j < nblk B n i'" for i' j
    using parent_index [OF HB_shapeD(6,7) [OF sh(1)] that] .
  have A: "HB_bit B h' (Suc i') j \<longleftrightarrow> \<not> Bitmap_empty (HB_block h' i' j)"
    if "i' < toplevel h" "j < nblk B n i'" "(i', j) \<noteq> (i, idx div B)" for i' j
  proof (cases "Suc i' = i \<and> j = idx")
    case True
    with child show ?thesis
      using that bit' [of "Suc i'" j] par [of j i'] emp [of i' j] by auto
  next
    case False
    then have "HB_bit B h (Suc i') j \<longleftrightarrow> \<not> Bitmap_empty (HB_block h i' j)"
      using lk that by (auto simp: HB_linked_def)
    with False that show ?thesis
      using bit' [of "Suc i'" j] par [of j i'] emp [of i' j] by auto
  qed
  have S: "\<not> HB_bit B h' (Suc i') j"
    if "i' < toplevel h" "nblk B n i' \<le> j" "j div B < nblk B n (Suc i')" for i' j
    using that lk child bit' [of "Suc i'" j] by (auto simp: HB_linked_def)
  show "HB_linked B n h' (Suc i) (idx div B)"
    unfolding HB_linked_def sh(3) using A S by (auto simp del: nblk.simps)
  show "HB_linked B n h' 0 0"
    if ne: "\<not> Bitmap_empty (HB_block h i (idx div B))" "\<not> Bitmap_empty (HB_block h' i (idx div B))"
  proof -
    have "HB_bit B h' (Suc i) (idx div B)" if "i < toplevel h"
      using lk that idx ne(1) bit' [of "Suc i" "idx div B"] par [OF idx] by (auto simp: HB_linked_def)
    then show ?thesis
      unfolding HB_linked_def sh(3) using A S ne(2) by (auto simp del: nblk.simps)
  qed
qed

text \<open>The loops started at level \<open>i\<close>: what they leave in every level up to \<open>i\<close>.\<close>

definition HB_changed :: "nat \<Rightarrow> nat \<Rightarrow> hbitmap \<Rightarrow> nat \<Rightarrow> nat \<Rightarrow> bool \<Rightarrow> hbitmap \<Rightarrow> bool" where
  "HB_changed B n h i idx v h' \<longleftrightarrow> HB_inv B n h' \<and> toplevel h' = toplevel h \<and>
    (\<forall>i' \<le> i. \<forall>j. i' \<le> toplevel h \<and> j div B < nblk B n i' \<longrightarrow>
      (HB_bit B h' i' j \<longleftrightarrow> (if i' = i \<and> j = idx then v else HB_bit B h i' j)))"

lemma HB_changed_step:
  assumes "HB_changed B n h1 (Suc i) k v h'" "toplevel h1 = toplevel h"
    "\<And>i' j. i' \<le> toplevel h \<Longrightarrow> j div B < nblk B n i' \<Longrightarrow>
      HB_bit B h1 i' j \<longleftrightarrow> (if i' = i \<and> j = idx then v else HB_bit B h i' j)"
  shows "HB_changed B n h i idx v h'"
  using assms by (auto simp: HB_changed_def)

lemma HB_linked_above: "HB_linked B n h (Suc (toplevel h)) j \<Longrightarrow> HB_linked B n h 0 0"
  by (auto simp: HB_linked_def)

lemma HB_set_loop_spec:
  assumes "HB_shape B n h" "HB_linked B n h i idx" "i + m = Suc (toplevel h)" "idx div B < nblk B n i"
    "0 < i \<Longrightarrow> idx < nblk B n (i - 1) \<and> \<not> Bitmap_empty (HB_block h (i - 1) idx)"
  shows "HB_changed B n h i idx True (HB_set_loop B [i..<i + m] idx h)"
  using assms
proof (induction m arbitrary: i idx h)
  case 0
  then show ?case by (auto simp: HB_changed_def HB_inv_def dest: HB_linked_above)
next
  case (Suc m)
  let ?h = "HB_put h i (idx div B) (Bitmap_set (HB_block h i (idx div B)) (idx mod B))"
  note sh = \<open>HB_shape B n h\<close> and idx = \<open>idx div B < nblk B n i\<close>
  have i: "i \<le> toplevel h" using Suc.prems(3) by simp
  have upt: "[i..<i + Suc m] = i # [Suc i..<Suc i + m]" by (simp add: upt_conv_Cons del: upt_Suc)
  have sh': "HB_shape B n ?h"
    using HB_length_block [OF sh i idx] by (simp add: HB_shape_put [OF sh])
  have bit': "HB_bit B ?h i' j \<longleftrightarrow> (if i' = i \<and> j = idx then True else HB_bit B h i' j)"
    if "i' \<le> toplevel h" "j div B < nblk B n i'" for i' j
    using HB_bit_set_block [OF sh i idx that] by auto
  have ne: "\<not> Bitmap_empty (HB_block ?h i (idx div B))"
    using HB_block_empty [OF sh', of i "idx div B"] i idx bit' [of i idx] by auto
  have link: "HB_linked B n ?h (Suc i) (idx div B)"
    using Suc.prems(5) by (intro HB_link_step(1) [OF sh sh' _ Suc.prems(2) idx _ bit']) auto
  have par: "idx div B div B < nblk B n (Suc i)"
    by (rule parent_index [OF HB_shapeD(6,7) [OF sh] idx])
  show ?case
  proof (cases "Bitmap_empty (HB_block h i (idx div B))")
    case True
    have "HB_changed B n ?h (Suc i) (idx div B) True
        (HB_set_loop B [Suc i..<Suc i + m] (idx div B) ?h)"
      using Suc.prems(3) idx ne by (intro Suc.IH sh' link par) auto
    from HB_changed_step [OF this _ bit'] True show ?thesis
      unfolding upt by (simp add: Let_def del: upt_Suc)
  next
    case False
    then have "HB_linked B n ?h 0 0"
      using Suc.prems(5) by (intro HB_link_step(2) [OF sh sh' _ Suc.prems(2) idx _ bit'] ne) auto
    with False sh' bit' show ?thesis
      unfolding upt by (simp add: Let_def HB_changed_def HB_inv_def del: upt_Suc)
  qed
qed

lemma HB_clear_loop_spec:
  assumes "HB_shape B n h" "HB_linked B n h i idx" "i + m = Suc (toplevel h)" "idx div B < nblk B n i"
    "0 < i \<Longrightarrow> idx < nblk B n (i - 1) \<and> Bitmap_empty (HB_block h (i - 1) idx)"
  shows "HB_changed B n h i idx False (HB_clear_loop B [i..<i + m] idx h)"
  using assms
proof (induction m arbitrary: i idx h)
  case 0
  then show ?case by (auto simp: HB_changed_def HB_inv_def dest: HB_linked_above)
next
  case (Suc m)
  let ?h = "HB_put h i (idx div B) (Bitmap_clear (HB_block h i (idx div B)) (idx mod B))"
  note sh = \<open>HB_shape B n h\<close> and idx = \<open>idx div B < nblk B n i\<close>
  have i: "i \<le> toplevel h" using Suc.prems(3) by simp
  have upt: "[i..<i + Suc m] = i # [Suc i..<Suc i + m]" by (simp add: upt_conv_Cons del: upt_Suc)
  have sh': "HB_shape B n ?h"
    using HB_length_block [OF sh i idx] by (simp add: HB_shape_put [OF sh])
  have bit': "HB_bit B ?h i' j \<longleftrightarrow> (if i' = i \<and> j = idx then False else HB_bit B h i' j)"
    if "i' \<le> toplevel h" "j div B < nblk B n i'" for i' j
    using HB_bit_clear_block [OF sh i idx that] by auto
  have link: "HB_linked B n ?h (Suc i) (idx div B)"
    using Suc.prems(5) by (intro HB_link_step(1) [OF sh sh' _ Suc.prems(2) idx _ bit']) auto
  have par: "idx div B div B < nblk B n (Suc i)"
    by (rule parent_index [OF HB_shapeD(6,7) [OF sh] idx])
  show ?case
  proof (cases "Bitmap_empty (HB_block ?h i (idx div B))")
    case True
    have "HB_changed B n ?h (Suc i) (idx div B) False
        (HB_clear_loop B [Suc i..<Suc i + m] (idx div B) ?h)"
      using Suc.prems(3) idx True by (intro Suc.IH sh' link par) auto
    from HB_changed_step [OF this _ bit'] True show ?thesis
      unfolding upt by (simp add: Let_def del: upt_Suc)
  next
    case False
    then have "\<not> Bitmap_empty (HB_block h i (idx div B))"
      using HB_block_empty [OF sh i idx] HB_block_empty [OF sh', of i "idx div B"] i idx bit'
      by (auto split: if_splits)
    then have "HB_linked B n ?h 0 0"
      using Suc.prems(5) False by (intro HB_link_step(2) [OF sh sh' _ Suc.prems(2) idx _ bit']) auto
    with False sh' bit' show ?thesis
      unfolding upt by (simp add: Let_def HB_changed_def HB_inv_def del: upt_Suc)
  qed
qed

lemma HB_test_bit: "HB_test B h j = HB_bit B h 0 j"
  by (simp add: HB_test_def HB_bit_def)

lemma HB_linked_0: "HB_linked B n h 0 j \<longleftrightarrow> HB_linked B n h 0 0"
  by (simp add: HB_linked_def)

lemma HB_set_changed:
  assumes "HB_inv B n h" "idx div B < nblk B n 0"
  shows "HB_changed B n h 0 idx True (HB_set B h idx)"
  using assms HB_set_loop_spec [of B n h 0 idx "Suc (toplevel h)"]
  by (simp add: HB_inv_def HB_set_def HB_linked_0 [of _ _ _ idx] del: upt_Suc)

lemma HB_clear_changed:
  assumes "HB_inv B n h" "idx div B < nblk B n 0"
  shows "HB_changed B n h 0 idx False (HB_clear B h idx)"
  using assms HB_clear_loop_spec [of B n h 0 idx "Suc (toplevel h)"]
  by (simp add: HB_inv_def HB_clear_def HB_linked_0 [of _ _ _ idx] del: upt_Suc)

lemma HB_block_findset:
  assumes "HB_shape B n h" "i \<le> toplevel h" "k < nblk B n i" "\<not> Bitmap_empty (HB_block h i k)"
  defines "r \<equiv> k * B + Bitmap_findset (HB_block h i k)"
  shows "Bitmap_findset (HB_block h i k) < B" "HB_bit B h i r"
    "\<And>j. j div B = k \<Longrightarrow> HB_bit B h i j \<Longrightarrow> r \<le> j"
proof -
  note D = HB_shapeD [OF assms(1)]
  have inv: "length (HB_block h i k) = B div 64 \<and> HB_block h i k \<noteq> [] \<and> B div 64 < 2 ^ 58"
    using HB_length_block [OF assms(1-3)] D(4,5) by auto
  show less: "Bitmap_findset (HB_block h i k) < B"
    using bmap.find_hit [OF inv assms(4)] D(3) by simp
  show "HB_bit B h i r"
    using bmap.find_hit [OF inv assms(4)] less by (simp add: HB_bit_def r_def)
  show "r \<le> j" if "j div B = k" "HB_bit B h i j" for j
  proof -
    have "Bitmap_findset (HB_block h i k) \<le> j mod B"
      using bmap.find_least [OF inv, of "j mod B"] that D(2,3) by (simp add: HB_bit_def)
    then show ?thesis
      using div_mult_mod_eq [of j B] that(1) by (simp add: r_def)
  qed
qed

lemma HB_bit_div_less:
  assumes "HB_shape B n h" "i \<le> toplevel h" "k \<le> nblk B n i" "\<And>k'. k' < k \<Longrightarrow> Bitmap_empty (HB_block h i k')"
    "j div B < k"
  shows "\<not> HB_bit B h i j"
  using HB_block_empty [OF assms(1,2), of "j div B"] assms(3-5) by auto

lemma HB_findset_level:
  assumes "HB_shape B n h" "i \<le> toplevel h" "idx < nblk B n i" "\<not> Bitmap_empty (HB_block h i idx)"
    "\<And>k. k < idx \<Longrightarrow> Bitmap_empty (HB_block h i k)"
  defines "r \<equiv> idx * B + Bitmap_findset (HB_block h i idx)"
  shows "r div B = idx" "HB_bit B h i r" "\<And>j. j < r \<Longrightarrow> \<not> HB_bit B h i j"
proof -
  note F = HB_block_findset [OF assms(1-4), folded r_def]
  show d: "r div B = idx" using F(1) by (simp add: r_def)
  show "HB_bit B h i r" by (rule F(2))
  show "\<not> HB_bit B h i j" if "j < r" for j
  proof (cases "j div B = idx")
    case True
    with F(3) [of j] that show ?thesis by auto
  next
    case False
    with that d have "j div B < idx" by (metis div_le_mono le_neq_implies_less less_imp_le)
    with HB_bit_div_less [OF assms(1,2), of idx j] assms(3,5) show ?thesis by auto
  qed
qed

lemma HB_findset_loop_spec:
  assumes inv: "HB_inv B n h" and "i \<le> toplevel h" "idx < nblk B n i"
    "\<not> Bitmap_empty (HB_block h i idx)" "\<And>k. k < idx \<Longrightarrow> Bitmap_empty (HB_block h i k)"
  shows "HB_findset_loop B h i idx div B < nblk B n 0 \<and> HB_bit B h 0 (HB_findset_loop B h i idx) \<and>
    (\<forall>j < HB_findset_loop B h i idx. \<not> HB_bit B h 0 j)"
  using assms(2-)
proof (induction i arbitrary: idx)
  case 0
  have sh: "HB_shape B n h" using inv by (simp add: HB_inv_def)
  note F = HB_findset_level [OF sh 0] and less = HB_block_findset(1) [OF sh 0(1-3)]
  from less have "HB_findset_loop B h 0 idx = idx * B + Bitmap_findset (HB_block h 0 idx)"
    by (simp add: HB_findset_loop.simps Let_def)
  with F 0 show ?case by simp
next
  case (Suc i)
  have sh: "HB_shape B n h" and lk: "HB_linked B n h 0 0" using inv by (simp_all add: HB_inv_def)
  note F = HB_findset_level [OF sh Suc.prems] and less = HB_block_findset(1) [OF sh Suc.prems(1-3)]
  let ?r = "idx * B + Bitmap_findset (HB_block h (Suc i) idx)"
  have eq: "HB_findset_loop B h (Suc i) idx = HB_findset_loop B h i ?r"
    using less by (simp add: HB_findset_loop.simps [of _ _ "Suc i"] Let_def)
  have r: "?r < nblk B n i"
  proof (rule ccontr)
    assume "\<not> ?r < nblk B n i"
    then have "nblk B n i \<le> ?r \<and> ?r div B < nblk B n (Suc i)"
      using F(1) Suc.prems(2) by (simp only: not_less)
    with lk Suc.prems(1) have "\<not> HB_bit B h (Suc i) ?r"
      unfolding HB_linked_def Suc_le_eq by blast
    with F(2) show False by blast
  qed
  have linked: "HB_bit B h (Suc i) j \<longleftrightarrow> \<not> Bitmap_empty (HB_block h i j)" if "j < nblk B n i" for j
    using lk that Suc.prems(1) by (auto simp: HB_linked_def)
  show ?case
    unfolding eq using r linked F(2,3) Suc.prems(1) by (intro Suc.IH) auto
qed

lemma HB_bit_up:
  assumes "HB_inv B n h" "i \<le> toplevel h" "j div B < nblk B n i" "HB_bit B h i j"
  shows "\<not> Bitmap_empty (HB_block h (toplevel h) 0)"
  using assms(2-)
proof (induction "toplevel h - i" arbitrary: i j)
  case 0
  then have "i = toplevel h" by simp
  with 0 assms(1) show ?case
    using HB_shape_top [of B n h] HB_block_empty [of B n h i "j div B"] by (auto simp: HB_inv_def)
next
  case (Suc m)
  have sh: "HB_shape B n h" and lk: "HB_linked B n h 0 0" using assms(1) by (simp_all add: HB_inv_def)
  have "\<not> Bitmap_empty (HB_block h i (j div B))"
    using HB_block_empty [OF sh Suc.prems(1,2)] Suc.prems(3) by auto
  with lk have "HB_bit B h (Suc i) (j div B)"
    using Suc.hyps(2) Suc.prems(2) by (auto simp: HB_linked_def)
  with Suc.hyps parent_index [OF HB_shapeD(6,7) [OF sh] Suc.prems(2)] show ?case
    by (intro Suc.hyps(1) [of "Suc i" "j div B"]) auto
qed

lemma HB_findset_spec:
  assumes "HB_inv B n h" "\<not> HB_empty h"
  shows "HB_findset B h div B < nblk B n 0" "HB_bit B h 0 (HB_findset B h)"
    "\<And>j. j < HB_findset B h \<Longrightarrow> \<not> HB_bit B h 0 j"
  using HB_findset_loop_spec [OF assms(1), of "toplevel h" 0] HB_shape_top [of B n h] assms
  by (auto simp: HB_inv_def HB_findset_def HB_empty_def)

lemma HB_empty_iff:
  assumes "HB_inv B n h"
  shows "HB_empty h \<longleftrightarrow> (\<forall>j. j div B < nblk B n 0 \<longrightarrow> \<not> HB_bit B h 0 j)"
  using HB_findset_spec [OF assms] HB_bit_up [OF assms, of 0] by (auto simp: HB_empty_def)

lemma HB_findset_empty:
  assumes "HB_inv B n h" "HB_empty h" shows "HB_findset B h = 2 ^ 64 - 1"
proof -
  note D = HB_shapeD [of B n h]
  let ?b = "HB_block h (toplevel h) 0"
  have sh: "HB_shape B n h" using assms by (simp add: HB_inv_def)
  have len: "length ?b = B div 64" by (rule HB_length_block [OF sh]) simp_all
  have ne: "?b \<noteq> []" using len D(4) [OF sh] by auto
  have "first_set ?b = 64 * length ?b"
    using assms(2) ne
    by (auto simp: first_set_none HB_empty_def Bitmap_empty_iff Bitmap_test_words_bit dest: words_bit_less)
  then have "Bitmap_findset ?b = B"
    using len D(3,5) [OF sh] by (simp add: Bitmap_findset_first)
  then show ?thesis
    by (simp add: HB_findset_def HB_findset_loop.simps)
qed

interpretation hbm: bit_store "HB_set B" "HB_clear B" "HB_test B" HB_empty "HB_findset B"
  "B * nblk B n 0" "HB_inv B n"
  for B n
proof (unfold_locales, goal_cases)
  case (1 s i)
  then show ?case using HB_set_changed [of B n s i] by (simp add: less_mult_imp_div_less mult.commute HB_changed_def)
next
  case (2 s i)
  then show ?case using HB_clear_changed [of B n s i] by (simp add: less_mult_imp_div_less mult.commute HB_changed_def)
next
  case (3 s i j)
  then show ?case
    using HB_set_changed [of B n s i]
    by (simp add: less_mult_imp_div_less mult.commute HB_changed_def HB_test_bit)
next
  case (4 s i j)
  then show ?case
    using HB_clear_changed [of B n s i]
    by (simp add: less_mult_imp_div_less mult.commute HB_changed_def HB_test_bit)
next
  case (5 s)
  then have "0 < B" using HB_shapeD(2) by (auto simp: HB_inv_def)
  then have "j div B < nblk B n 0 \<longleftrightarrow> j < B * nblk B n 0" for j
    by (simp add: div_less_iff_less_mult mult.commute)
  with HB_empty_iff [OF 5] show ?case by (simp add: HB_test_bit)
next
  case (6 s)
  then have "0 < B" using HB_shapeD(2) by (auto simp: HB_inv_def)
  with HB_findset_spec [OF 6] show ?case
    by (simp add: HB_test_bit div_less_iff_less_mult mult.commute)
next
  case (7 s i)
  then have "\<not> HB_empty s"
    using HB_empty_iff [OF 7(1)] by (auto simp: HB_test_bit less_mult_imp_div_less mult.commute)
  with 7 HB_findset_spec(3) [OF 7(1), of i] show ?case
    by (auto simp: HB_test_bit not_less [symmetric])
qed

section \<open>Initialisation\<close>

lemma HB_levels_spec:
  assumes "HB_levels B L bc bms lvl = Some (bms', t)"
    "0 < bc" "bc < 2 ^ 64" "sdivup bc B = nblk B n lvl" "length bms = Suc lvl"
  shows "64 \<le> B \<and> lvl < t \<and> (\<forall>i \<le> lvl. bms' ! i = bms ! i) \<and>
    (\<forall>i. lvl \<le> i \<and> i < t \<longrightarrow> bms' ! Suc i = bms' ! i + nblk B n i) \<and>
    nblk B n (t - 1) = 1 \<and> bms' ! t < bms ! lvl + HB_size B bc"
  using assms
proof (induction B L bc bms lvl rule: HB_levels.induct)
  case (1 B L bc bms lvl)
  let ?bms = "bms @ [bms ! lvl + sdivup bc B]"
  have B: "64 \<le> B" and L: "\<not> L \<le> lvl + 1"
    using "1.prems"(1) by (auto simp: HB_levels.simps [of B L bc] Let_def split: if_splits)
  have size: "sdivup bc B + 1 \<le> HB_size B bc" if "sdivup bc B = 1"
    using B that HB_size.simps [of B bc] HB_size.simps [of B 1] by (auto split: if_splits)
  show ?case
  proof (cases "sdivup bc B > 1")
    case True
    have rec: "HB_levels B L (sdivup bc B) ?bms (lvl + 1) = Some (bms', t)"
      using "1.prems"(1) B L True by (simp add: HB_levels.simps [of B L bc] Let_def)
    have le: "sdivup bc B < 2 ^ 64"
      using sdivup_le_self [OF "1.prems"(2), of B] "1.prems"(3) by simp
    have IH: "lvl + 1 < t \<and> (\<forall>i \<le> lvl + 1. bms' ! i = ?bms ! i) \<and>
        (\<forall>i. lvl + 1 \<le> i \<and> i < t \<longrightarrow> bms' ! Suc i = bms' ! i + nblk B n i) \<and>
        nblk B n (t - 1) = 1 \<and> bms' ! t < ?bms ! (lvl + 1) + HB_size B (sdivup bc B)"
      using "1.IH" [OF _ refl refl _ refl True] B L rec le "1.prems"(4,5) by simp
    have "bc \<ge> B"
      using True sdivup_le [OF "1.prems"(2), of B] B by (cases "bc \<ge> B") auto
    then have "HB_size B bc = sdivup bc B + HB_size B (sdivup bc B)"
      using B HB_size.simps [of B bc] by simp
    moreover have "bms' ! Suc i = bms' ! i + nblk B n i" if "lvl \<le> i" "i < t" for i
      using IH that "1.prems"(4,5) by (cases "i = lvl") (auto simp: nth_append)
    ultimately show ?thesis
      using IH B "1.prems"(5) by (auto simp: nth_append)
  next
    case False
    then have one: "sdivup bc B = 1" using sdivup_pos [of bc B] by linarith
    then have "bms' = ?bms" "t = lvl + 1"
      using "1.prems"(1) B L by (simp_all add: HB_levels.simps [of B L bc] Let_def)
    then show ?thesis
      using B one size "1.prems"(4,5) by (auto simp: nth_append less_Suc_eq_le)
  qed
qed

lemma sdivup_le_iff:
  assumes "0 < n" "n < 2 ^ 64" "0 < d" shows "sdivup n d \<le> m \<longleftrightarrow> n \<le> m * d"
proof -
  have "sdivup n d = (n - 1) div d + 1" using assms by (intro sdivup_eq) simp_all
  then have "sdivup n d \<le> m \<longleftrightarrow> (n - 1) div d < m" by linarith
  also have "\<dots> \<longleftrightarrow> n - 1 < m * d" using assms by (simp add: div_less_iff_less_mult)
  finally show ?thesis using assms by linarith
qed

lemma HB_levels_Some_iff:
  assumes "64 \<le> B" "0 < bc" "bc < 2 ^ 64" "lvl + Suc k = L" "0 < k"
  shows "(\<exists>r. HB_levels B L bc bms lvl = Some r) \<longleftrightarrow> bc \<le> B ^ k"
  using assms(2-)
proof (induction k arbitrary: bc bms lvl)
  case (Suc k)
  have iff: "sdivup bc B \<le> B ^ k \<longleftrightarrow> bc \<le> B ^ Suc k"
    using sdivup_le_iff [of bc B "B ^ k"] Suc.prems assms(1) by (simp add: mult.commute)
  show ?case
  proof (cases "sdivup bc B > 1")
    case True
    then have eq: "HB_levels B L bc bms lvl
        = HB_levels B L (sdivup bc B) (bms @ [bms ! lvl + sdivup bc B]) (lvl + 1)"
      using assms(1) Suc.prems by (simp add: HB_levels.simps [of B L bc] Let_def)
    show ?thesis
    proof (cases "k = 0")
      case True
      then show ?thesis
        using \<open>sdivup bc B > 1\<close> iff Suc.prems(3) unfolding eq
        by (simp add: HB_levels.simps Let_def)
    next
      case False
      have "sdivup bc B < 2 ^ 64"
        using sdivup_le_self [OF Suc.prems(1), of B] Suc.prems(2) by simp
      then show ?thesis
        unfolding eq iff [symmetric] using False Suc.prems(3) by (intro Suc.IH) auto
    qed
  next
    case False
    then have "sdivup bc B \<le> B ^ k"
      using assms(1) by (simp add: order_trans [of _ 1] one_le_power)
    with False iff show ?thesis
      using assms(1) Suc.prems by (simp add: HB_levels.simps [of B L bc] Let_def)
  qed
qed simp

lemma Bitmap_init_0: "i < 64 * Bitmap_N B \<Longrightarrow> \<not> Bitmap_test (Bitmap_init B 0) i"
  by (simp add: Bitmap_test_def Bitmap_init_def word_index_less)

lemma Bitmap_N_dvd: "64 dvd B \<Longrightarrow> 0 < B \<Longrightarrow> Bitmap_N B = B div 64"
  by (auto simp: Bitmap_N_def elim!: dvdE)

lemma HB_init_inv:
  assumes "HB_init B W n = Some h" "64 dvd B" "B < 2 ^ 64" "0 < n" "n < 2 ^ 64"
  shows "HB_inv B n h" "\<And>j. j div B < nblk B n 0 \<Longrightarrow> \<not> HB_bit B h 0 j"
proof -
  obtain bms t where lv: "HB_levels B (HB_L B W) n [0] 0 = Some (bms, t)"
    and h: "h = \<lparr>blocks = replicate (HB_size B n) (Bitmap_init B 0), bitmaps = bms, toplevel = t\<rparr>"
    using assms(1) by (auto simp: HB_init_def split: option.splits prod.splits)
  note S = HB_levels_spec [OF lv assms(4,5), of n, simplified]
  have N: "Bitmap_N B = B div 64"
    using S assms(2) by (intro Bitmap_N_dvd) auto
  have sh: "HB_shape B n h"
    using S assms(2-) N by (auto simp: HB_shape_def h)
  have zero: "\<not> HB_bit B h i j" if "i \<le> toplevel h" "j div B < nblk B n i" for i j
    using HB_slot_less [OF sh that] HB_shapeD(2,3) [OF sh] N
    by (simp add: HB_bit_def HB_block_def h Bitmap_init_0)
  have "Bitmap_empty (HB_block h i k)" if "i \<le> toplevel h" "k < nblk B n i" for i k
    using HB_block_empty [OF sh that] zero that by auto
  then have "HB_linked B n h 0 0"
    unfolding HB_linked_def
    using zero parent_index [OF assms(4,5)] by (auto simp del: nblk.simps)
  with sh show "HB_inv B n h" by (simp add: HB_inv_def)
  show "\<And>j. j div B < nblk B n 0 \<Longrightarrow> \<not> HB_bit B h 0 j"
    using zero by simp
qed

section \<open>Properties\<close>

declare nblk.simps [simp del]

text \<open>The abstract contents of a hierarchical bitmap, and runs of its two updates.\<close>

definition HB_members :: "nat \<Rightarrow> nat \<Rightarrow> hbitmap \<Rightarrow> nat set" where
  "HB_members B n h = {i. i < B * nblk B n 0 \<and> HB_test B h i}"

lemma HB_members_hbm: "HB_members B n h = hbm.members B n h"
  by (simp add: HB_members_def hbm.members_def)

datatype hbop = SetBit nat | ClearBit nat

fun hbop_idx :: "hbop \<Rightarrow> nat" where
  "hbop_idx (SetBit i) = i"
| "hbop_idx (ClearBit i) = i"

fun HB_do :: "nat \<Rightarrow> hbitmap \<Rightarrow> hbop \<Rightarrow> hbitmap" where
  "HB_do B h (SetBit i) = HB_set B h i"
| "HB_do B h (ClearBit i) = HB_clear B h i"

fun set_do :: "nat set \<Rightarrow> hbop \<Rightarrow> nat set" where
  "set_do S (SetBit i) = insert i S"
| "set_do S (ClearBit i) = S - {i}"

lemma HB_run:
  assumes "HB_inv B n h" "\<forall>p \<in> set ops. hbop_idx p < B * nblk B n 0"
  shows "HB_inv B n (foldl (HB_do B) h ops) \<and>
    HB_members B n (foldl (HB_do B) h ops) = foldl set_do (HB_members B n h) ops"
  using assms
proof (induction ops arbitrary: h)
  case (Cons p ops)
  then have "HB_inv B n (HB_do B h p) \<and> HB_members B n (HB_do B h p) = set_do (HB_members B n h) p"
    by (cases p) (simp_all add: HB_members_hbm hbm.invar_put hbm.invar_del hbm.members_put hbm.members_del)
  with Cons show ?case by simp
qed simp

lemma HB_findset_members:
  assumes "HB_inv B n h"
  shows "HB_findset B h = (if HB_members B n h = {} then 2 ^ 64 - 1 else Min (HB_members B n h))"
  using hbm.members_empty [OF assms] hbm.find_Min [OF assms] HB_findset_empty [OF assms]
  by (auto simp: HB_members_hbm)

text \<open>
  C12: after initialisation and any sequence of \<open>set\<close> and \<open>clear\<close> calls the hierarchical
  bitmap represents exactly the set of indices the calls describe: \<open>test\<close> answers
  membership, \<open>findset\<close> returns the least member and the all-ones word when there is
  none, and \<open>empty\<close> tells whether there is one.
\<close>

theorem HB_run_refines_set:
  assumes "HB_init B W n = Some h0" "64 dvd B" "B < 2 ^ 64" "0 < n" "n < 2 ^ 64"
    and "\<forall>p \<in> set ops. hbop_idx p < n"
  defines "h \<equiv> foldl (HB_do B) h0 ops" and "S \<equiv> foldl set_do {} ops"
  shows "(\<forall>i < n. HB_test B h i \<longleftrightarrow> i \<in> S) \<and> (HB_empty h \<longleftrightarrow> S = {}) \<and>
    HB_findset B h = (if S = {} then 2 ^ 64 - 1 else Min S)"
proof -
  note I = HB_init_inv [OF assms(1-5)]
  have B: "0 < B" using I(1) HB_shapeD(2) by (auto simp: HB_inv_def)
  have n: "n \<le> B * nblk B n 0"
    using sdivup_le_iff [OF assms(4,5) B, of "sdivup n B"] by (simp add: mult.commute nblk.simps)
  have "HB_members B n h0 = {}"
    using I(2) by (auto simp: HB_members_def HB_test_bit less_mult_imp_div_less mult.commute)
  moreover have "\<forall>p \<in> set ops. hbop_idx p < B * nblk B n 0"
    using assms(6) n by force
  ultimately have h: "HB_inv B n h" "HB_members B n h = S"
    using HB_run [OF I(1), of ops] by (simp_all add: h_def S_def)
  then show ?thesis
    using HB_findset_members [OF h(1)] hbm.members_empty [OF h(1)] n
    by (auto simp: HB_members_hbm) (auto simp: hbm.members_def)
qed

theorem HB_run_refines_set_witness:
  "\<exists>h. HB_init 64 18 100 = Some h \<and>
    HB_findset 64 (foldl (HB_do 64) h [SetBit 70, SetBit 99, ClearBit 70]) = 99"
proof -
  have "floorlog2 (64 :: mword) = 6" by code_simp
  then have "HB_L 64 18 = 3" by (simp add: HB_L_def sdivup_def)
  then obtain h where h: "HB_init 64 18 100 = Some h"
    using HB_levels_Some_iff [of 64 100 0 2 3 "[0]"] by (auto simp: HB_init_def split: option.splits)
  with HB_run_refines_set [OF h, of "[SetBit 70, SetBit 99, ClearBit 70]"] show ?thesis
    by (simp add: insert_Diff_if)
qed

text \<open>
  C38: initialisation stays inside the level-pointer array exactly when the bit count
  is at most \<open>B\<close> to the power of the array length minus one; the class documents \<open>2\<^sup>W\<close> as
  the maximum width.
\<close>

theorem HB_init_bound:
  assumes "64 \<le> B" "0 < n" "n < 2 ^ 64" "1 < HB_L B W"
  shows "(\<exists>h. HB_init B W n = Some h) \<longleftrightarrow> n \<le> B ^ (HB_L B W - 1)"
  using HB_levels_Some_iff [OF assms(1-3), of 0 "HB_L B W - 1" "HB_L B W" "[0]"] assms(4)
  by (auto simp: HB_init_def split: option.splits)

theorem HB_init_bound_witness:
  "HB_init 512 31 (2 ^ 27 + 1) = None \<and> (2 ^ 27 + 1 :: nat) \<le> 2 ^ 31"
proof -
  have "floorlog2 (512 :: mword) = 9" by code_simp
  then have "HB_L 512 31 = 4" by (simp add: HB_L_def sdivup_def)
  with HB_init_bound [of 512 "2 ^ 27 + 1" 31] show ?thesis by simp
qed

end
