(* ===== verification/Buffers.thy ===== *)
theory Buffers
  imports Prelude
begin

text \<open>
  The bounded buffers of \<open>generic/Buffers.h\<close>.  \<open>RingBuffer\<close> over \<open>FixedArray\<close> or
  \<open>RuntimeArray\<close> and \<open>QueueBuffer\<close> over \<open>std::queue\<close> are both what \<open>MessageQueue\<close> calls a
  buffer; the locale \<open>fifo_buffer\<close> is that contract and both are interpretations.
\<close>

section \<open>\<open>RuntimeArray\<close>, \<open>RingBuffer\<close>, \<open>QueueBuffer\<close>\<close>

text \<open>
  An array is the list of its elements.  \<open>RuntimeArray\<close> refuses size 0; its storage
  comes uninitialised from the allocator, so the initial contents are an argument.
\<close>

definition RuntimeArray_init :: "'a list \<Rightarrow> 'a list option" where
  "RuntimeArray_init storage = do { kassert (length storage \<noteq> 0); Some storage }"

record 'a ring =
  rb_next :: nat
  rb_count :: nat
  rb_array :: "'a list"

definition RingBuffer_init :: "'a list \<Rightarrow> 'a ring" where
  "RingBuffer_init arr = \<lparr>rb_next = 0, rb_count = 0, rb_array = arr\<rparr>"

definition rb_size :: "'a ring \<Rightarrow> nat" where
  "rb_size b = rb_count b"

definition rb_max_size :: "'a ring \<Rightarrow> nat" where
  "rb_max_size b = length (rb_array b)"

definition rb_empty :: "'a ring \<Rightarrow> bool" where
  "rb_empty b \<longleftrightarrow> rb_size b = 0"

definition rb_full :: "'a ring \<Rightarrow> bool" where
  "rb_full b \<longleftrightarrow> rb_size b = rb_max_size b"

definition rb_front :: "'a ring \<Rightarrow> 'a option" where
  "rb_front b = do { kassert (\<not> rb_empty b); Some (rb_array b ! rb_next b) }"

definition rb_back :: "'a ring \<Rightarrow> 'a option" where
  "rb_back b = do {
     kassert (\<not> rb_empty b);
     Some (rb_array b ! ((rb_next b + rb_count b - 1) mod rb_max_size b)) }"

definition rb_push :: "'a ring \<Rightarrow> 'a \<Rightarrow> 'a ring option" where
  "rb_push b x = do {
     kassert (\<not> rb_full b);
     Some (b\<lparr>rb_array := (rb_array b)[(rb_next b + rb_count b) mod rb_max_size b := x],
             rb_count := rb_count b + 1\<rparr>) }"

definition rb_pop :: "'a ring \<Rightarrow> 'a ring option" where
  "rb_pop b = do {
     kassert (\<not> rb_empty b);
     Some (b\<lparr>rb_next := (rb_next b + 1) mod rb_max_size b, rb_count := rb_count b - 1\<rparr>) }"

text \<open>
  \<open>QueueBuffer\<close> inherits \<open>push\<close>, \<open>pop\<close>, \<open>front\<close> and \<open>size\<close> from \<open>std::queue\<close>; the last two
  have no defined result on an empty queue.
\<close>

record 'a qbuf =
  qb_queue :: "'a list"
  qb_max :: nat

definition QueueBuffer_init :: "nat \<Rightarrow> 'a qbuf option" where
  "QueueBuffer_init N = do { kassert (N \<noteq> 0); Some \<lparr>qb_queue = [], qb_max = N\<rparr> }"

definition qb_size :: "'a qbuf \<Rightarrow> nat" where
  "qb_size b = length (qb_queue b)"

definition qb_empty :: "'a qbuf \<Rightarrow> bool" where
  "qb_empty b \<longleftrightarrow> qb_queue b = []"

definition qb_full :: "'a qbuf \<Rightarrow> bool" where
  "qb_full b \<longleftrightarrow> qb_size b = qb_max b"

definition qb_push :: "'a qbuf \<Rightarrow> 'a \<Rightarrow> 'a qbuf option" where
  "qb_push b x = Some (b\<lparr>qb_queue := qb_queue b @ [x]\<rparr>)"

definition qb_front :: "'a qbuf \<Rightarrow> 'a option" where
  "qb_front b = (case qb_queue b of [] \<Rightarrow> None | x # xs \<Rightarrow> Some x)"

definition qb_pop :: "'a qbuf \<Rightarrow> 'a qbuf option" where
  "qb_pop b = (case qb_queue b of [] \<Rightarrow> None | x # xs \<Rightarrow> Some (b\<lparr>qb_queue := xs\<rparr>))"

section \<open>The buffer contract\<close>

locale fifo_buffer =
  fixes bsize :: "'b \<Rightarrow> nat" and bmax :: "'b \<Rightarrow> nat"
    and bempty :: "'b \<Rightarrow> bool" and bfull :: "'b \<Rightarrow> bool"
    and bfront :: "'b \<Rightarrow> 'a option" and bpush :: "'b \<Rightarrow> 'a \<Rightarrow> 'b option" and bpop :: "'b \<Rightarrow> 'b option"
    and contents :: "'b \<Rightarrow> 'a list" and invar :: "'b \<Rightarrow> bool"
  assumes size: "invar b \<Longrightarrow> bsize b = length (contents b)"
    and bound: "invar b \<Longrightarrow> length (contents b) \<le> bmax b"
    and empty: "invar b \<Longrightarrow> bempty b \<longleftrightarrow> contents b = []"
    and full: "invar b \<Longrightarrow> bfull b \<longleftrightarrow> length (contents b) = bmax b"
    and front: "invar b \<Longrightarrow> contents b \<noteq> [] \<Longrightarrow> bfront b = Some (hd (contents b))"
    and push: "invar b \<Longrightarrow> \<not> bfull b \<Longrightarrow>
      \<exists>b'. bpush b x = Some b' \<and> invar b' \<and> contents b' = contents b @ [x] \<and> bmax b' = bmax b"
    and pop: "invar b \<Longrightarrow> contents b \<noteq> [] \<Longrightarrow>
      \<exists>b'. bpop b = Some b' \<and> invar b' \<and> contents b' = tl (contents b) \<and> bmax b' = bmax b"
begin

lemma push_cases:
  assumes "invar b" "length (contents b) < bmax b"
  obtains b' where "bpush b x = Some b'" "invar b'" "contents b' = contents b @ [x]" "bmax b' = bmax b"
  using push [OF assms(1)] full [OF assms(1)] assms(2) by (metis less_irrefl)

lemma pop_cases:
  assumes "invar b" "contents b = x # xs"
  obtains b' where "bfront b = Some x" "bpop b = Some b'" "invar b'" "contents b' = xs" "bmax b' = bmax b"
  using pop [OF assms(1)] front [OF assms(1)] assms(2) by (metis list.distinct(1) list.sel(1,3))

text \<open>Pushing a list of elements, and draining a number of them.\<close>

primrec push_all :: "'b \<Rightarrow> 'a list \<Rightarrow> 'b option" where
  "push_all b [] = Some b"
| "push_all b (x # xs) = Option.bind (bpush b x) (\<lambda>b'. push_all b' xs)"

primrec drain :: "nat \<Rightarrow> 'b \<Rightarrow> ('a list \<times> 'b) option" where
  "drain 0 b = Some ([], b)"
| "drain (Suc n) b = Option.bind (bfront b) (\<lambda>x. Option.bind (bpop b) (\<lambda>b'.
     Option.bind (drain n b') (\<lambda>(xs, b''). Some (x # xs, b''))))"

lemma push_all_spec:
  assumes "invar b" "length (contents b) + length xs \<le> bmax b"
  shows "\<exists>b'. push_all b xs = Some b' \<and> invar b' \<and> contents b' = contents b @ xs \<and> bmax b' = bmax b"
  using assms
proof (induction xs arbitrary: b)
  case (Cons x xs)
  then have "length (contents b) < bmax b" by simp
  from push_cases [OF Cons.prems(1) this, of x] obtain b1
    where "bpush b x = Some b1" "invar b1" "contents b1 = contents b @ [x]" "bmax b1 = bmax b" by blast
  with Cons.IH [of b1] Cons.prems show ?case by auto
qed simp

lemma drain_spec:
  assumes "invar b" "n \<le> length (contents b)"
  shows "\<exists>b'. drain n b = Some (take n (contents b), b') \<and> invar b' \<and> contents b' = drop n (contents b)"
  using assms
proof (induction n arbitrary: b)
  case (Suc n)
  then obtain x xs where c: "contents b = x # xs" by (cases "contents b") auto
  from pop_cases [OF Suc.prems(1) c] obtain b1
    where b1: "bfront b = Some x" "bpop b = Some b1" "invar b1" "contents b1 = xs" by blast
  with Suc.IH [of b1] Suc.prems c show ?case by auto
qed simp

lemma fifo_order:
  assumes "invar b" "contents b = []" "length xs \<le> bmax b"
  shows "\<exists>b' b''. push_all b xs = Some b' \<and> drain (length xs) b' = Some (xs, b'') \<and> contents b'' = []"
proof -
  from push_all_spec [OF assms(1), of xs] assms obtain b' where
    b': "push_all b xs = Some b'" "invar b'" "contents b' = xs" by auto
  with drain_spec [of b' "length xs"] show ?thesis by auto
qed

end

section \<open>Both classes are buffers\<close>

definition rb_contents :: "'a ring \<Rightarrow> 'a list" where
  "rb_contents b = map (\<lambda>i. rb_array b ! ((rb_next b + i) mod rb_max_size b)) [0..<rb_count b]"

definition rb_invar :: "'a ring \<Rightarrow> bool" where
  "rb_invar b \<longleftrightarrow> rb_next b < rb_max_size b \<and> rb_count b \<le> rb_max_size b"

lemma mod_add_inj:
  assumes "i < m" "j < m" "(k + i) mod m = (k + j) mod (m::nat)" shows "i = j"
proof (cases i j rule: linorder_cases)
  case less
  with assms have "m dvd j - i" using mod_eq_dvd_iff_nat [of "k + i" "k + j" m] by auto
  with less assms(2) show ?thesis using nat_dvd_not_less [of "j - i" m] by auto
next
  case greater
  with assms have "m dvd i - j" using mod_eq_dvd_iff_nat [of "k + j" "k + i" m] by auto
  with greater assms(1) show ?thesis using nat_dvd_not_less [of "i - j" m] by auto
qed

lemma rb_push_contents:
  assumes "rb_invar b" "\<not> rb_full b"
  shows "\<exists>b'. rb_push b x = Some b' \<and> rb_invar b' \<and> rb_contents b' = rb_contents b @ [x]
    \<and> rb_max_size b' = rb_max_size b"
proof -
  let ?m = "rb_max_size b" and ?p = "(rb_next b + rb_count b) mod rb_max_size b"
  have c: "rb_count b < ?m" and m: "0 < ?m"
    using assms by (auto simp: rb_invar_def rb_full_def rb_size_def)
  have "?p \<noteq> (rb_next b + i) mod ?m" if "i < rb_count b" for i
    using mod_add_inj [of i ?m "rb_count b" "rb_next b"] that c by auto
  moreover have "?p < length (rb_array b)"
    using m by (simp add: rb_max_size_def)
  ultimately show ?thesis
    using assms c by (auto simp: rb_push_def rb_invar_def rb_contents_def rb_max_size_def)
qed

lemma rb_pop_contents:
  assumes "rb_invar b" "rb_contents b \<noteq> []"
  shows "\<exists>b'. rb_pop b = Some b' \<and> rb_invar b' \<and> rb_contents b' = tl (rb_contents b)
    \<and> rb_max_size b' = rb_max_size b"
proof -
  obtain n where n: "rb_count b = Suc n"
    using assms(2) by (cases "rb_count b") (auto simp: rb_contents_def)
  have "tl (rb_contents b) = map (\<lambda>i. rb_array b ! ((rb_next b + Suc i) mod rb_max_size b)) [0..<n]"
    by (simp add: rb_contents_def n upt_conv_Cons map_Suc_upt [symmetric] del: upt_Suc)
  moreover have "(Suc (rb_next b) mod rb_max_size b + i) mod rb_max_size b
      = (rb_next b + Suc i) mod rb_max_size b" for i
    by (simp add: mod_add_left_eq)
  moreover have "Suc (rb_next b) mod rb_max_size b < rb_max_size b"
    using assms(1) by (intro mod_less_divisor) (simp add: rb_invar_def)
  ultimately show ?thesis
    using assms(1) n
    by (auto simp: rb_pop_def rb_empty_def rb_size_def rb_invar_def rb_contents_def rb_max_size_def)
qed

interpretation ring_fifo: fifo_buffer rb_size rb_max_size rb_empty rb_full rb_front rb_push rb_pop
  rb_contents rb_invar
proof (unfold_locales, goal_cases)
  case (5 b)
  then show ?case
    by (auto simp: rb_front_def rb_contents_def rb_empty_def rb_size_def rb_invar_def hd_map)
next
  case (6 b x)
  then show ?case by (rule rb_push_contents)
next
  case (7 b)
  then show ?case by (rule rb_pop_contents)
qed (auto simp: rb_size_def rb_contents_def rb_invar_def rb_empty_def rb_full_def)

interpretation queue_fifo: fifo_buffer qb_size qb_max qb_empty qb_full qb_front qb_push qb_pop
  qb_queue "\<lambda>b. length (qb_queue b) \<le> qb_max b"
  by unfold_locales
    (auto simp: qb_size_def qb_empty_def qb_full_def qb_front_def qb_push_def qb_pop_def
      neq_Nil_conv)

section \<open>Properties\<close>

text \<open>
  C35: on every ring buffer whose indices are in range, a push that is not refused appends
  at the back, a pop removes at the front, and \<open>front\<close> and \<open>back\<close> return the first and
  the last stored element; none of the assertions fires except \<open>push\<close> on a full and the
  others on an empty buffer.
\<close>

theorem ring_refines_queue:
  assumes "rb_invar b"
  shows "(if length (rb_contents b) = rb_max_size b then rb_push b x = None
     else \<exists>b'. rb_push b x = Some b' \<and> rb_invar b' \<and> rb_contents b' = rb_contents b @ [x])
    \<and> (if rb_contents b = [] then rb_pop b = None \<and> rb_front b = None \<and> rb_back b = None
       else (\<exists>b'. rb_pop b = Some b' \<and> rb_invar b' \<and> rb_contents b' = tl (rb_contents b))
         \<and> rb_front b = Some (hd (rb_contents b)) \<and> rb_back b = Some (last (rb_contents b)))"
proof -
  have last: "rb_back b = Some (last (rb_contents b))" if "rb_contents b \<noteq> []"
    using that by (cases "rb_count b")
      (auto simp: rb_back_def rb_contents_def rb_empty_def rb_size_def)
  show ?thesis
    using ring_fifo.push [OF assms] ring_fifo.pop [OF assms] ring_fifo.front [OF assms]
      ring_fifo.full [OF assms] ring_fifo.empty [OF assms] last
    by (auto simp: rb_push_def rb_pop_def rb_front_def rb_back_def)
qed

theorem ring_refines_queue_witness:
  "rb_invar \<lparr>rb_next = 2, rb_count = 2, rb_array = [5, 6, 7 :: nat]\<rparr> \<and>
   rb_back \<lparr>rb_next = 2, rb_count = 2, rb_array = [5, 6, 7 :: nat]\<rparr> = Some 5"
  using ring_refines_queue [of "\<lparr>rb_next = 2, rb_count = 2, rb_array = [5, 6, 7 :: nat]\<rparr>" 9]
  by (simp add: rb_invar_def rb_max_size_def rb_contents_def numeral_2_eq_2)

text \<open>
  elements pushed into a freshly constructed ring buffer, as many as it has room for,
  come out again in the order they went in, and leave it empty.
\<close>

theorem ring_fifo_order:
  assumes "length xs \<le> length arr" "arr \<noteq> []"
  shows "\<exists>b b'. ring_fifo.push_all (RingBuffer_init arr) xs = Some b \<and>
    ring_fifo.drain (length xs) b = Some (xs, b') \<and> rb_empty b'"
proof -
  have inv: "rb_invar (RingBuffer_init arr)" "rb_contents (RingBuffer_init arr) = []"
    "rb_max_size (RingBuffer_init arr) = length arr"
    using assms(2) by (auto simp: rb_invar_def RingBuffer_init_def rb_contents_def rb_max_size_def)
  obtain b where b: "ring_fifo.push_all (RingBuffer_init arr) xs = Some b" "rb_invar b"
      "rb_contents b = xs"
    using ring_fifo.push_all_spec [OF inv(1), of xs] inv assms(1) by auto
  with ring_fifo.drain_spec [OF b(2), of "length xs"] show ?thesis
    using ring_fifo.empty by auto
qed

theorem ring_fifo_order_witness:
  "\<exists>b b'. ring_fifo.push_all (RingBuffer_init [0, 0 :: nat]) [1, 2] = Some b \<and>
    ring_fifo.drain 2 b = Some ([1, 2], b') \<and> rb_empty b'"
  using ring_fifo_order [of "[1, 2 :: nat]" "[0, 0]"] by (simp add: numeral_2_eq_2)

end
