(* ===== verification/RegionSets.thy ===== *)
theory RegionSets
  imports BitManip
begin

text \<open>
  \<open>generic/RegionSet.h\<close>: a \<open>std::set\<close> of half-open regions under the order
  \<open>r < s\<close> iff \<open>r\<close> ends before \<open>s\<close> starts.  The set is the list of its elements in
  iteration order; iterators are positions in it.  The memory map of the machine is
  built with \<open>insert\<close>, \<open>remove\<close> and \<open>retrieve\<close>.
\<close>

section \<open>\<open>Region\<close> and the \<open>std::set\<close> operations used\<close>

record 'a region =
  r_start :: 'a
  r_end :: 'a

definition Region_less :: "'a::linorder region \<Rightarrow> 'a region \<Rightarrow> bool" where
  "Region_less r r1 \<longleftrightarrow> r_end r < r_start r1"

definition Region_valid :: "'a::linorder region \<Rightarrow> bool" where
  "Region_valid r \<longleftrightarrow> r_start r < r_end r"

definition Region_covers :: "'a::linorder region \<Rightarrow> 'a region \<Rightarrow> bool" where
  "Region_covers t r \<longleftrightarrow> r_start t \<le> r_start r \<and> r_end t \<ge> r_end r"

text \<open>Elements before \<open>lower_bound(r)\<close>, and from it on.\<close>

definition below :: "'a::linorder region \<Rightarrow> 'a region list \<Rightarrow> 'a region list" where
  "below r xs = takeWhile (\<lambda>e. Region_less e r) xs"

definition lower_bound :: "'a::linorder region \<Rightarrow> 'a region list \<Rightarrow> 'a region list" where
  "lower_bound r xs = dropWhile (\<lambda>e. Region_less e r) xs"

text \<open>\<open>insert\<close> and \<open>emplace_hint\<close> of \<open>std::set\<close>: nothing happens if an equivalent element exists.\<close>

fun set_insert :: "'a::linorder region \<Rightarrow> 'a region list \<Rightarrow> 'a region list" where
  "set_insert r [] = [r]"
| "set_insert r (e # es) =
    (if Region_less e r then e # set_insert r es
     else if Region_less r e then r # e # es
     else e # es)"

section \<open>\<open>RegionSet\<close>\<close>

definition RS_insert :: "'a::linorder region list \<Rightarrow> 'a region \<Rightarrow> 'a region list \<times> 'a region" where
  "RS_insert xs r =
    (case lower_bound r xs of
       [] \<Rightarrow> (set_insert r xs, r)
     | e # es \<Rightarrow>
         let r1 = (if r_start e < r_start r then r\<lparr>r_start := r_start e\<rparr> else r)
         in case dropWhile (\<lambda>e. r_end e \<le> r_end r1) (e # es) of
              [] \<Rightarrow> (set_insert r1 (below r xs), r1)
            | f # fs \<Rightarrow>
                if r_start f \<le> r_end r1
                then let r2 = r1\<lparr>r_end := r_end f\<rparr> in (set_insert r2 (below r xs @ fs), r2)
                else (set_insert r1 (below r xs @ f # fs), r1))"

definition RS_remove :: "'a::linorder region list \<Rightarrow> 'a region \<Rightarrow> 'a region list \<times> bool" where
  "RS_remove xs r =
    (case lower_bound r xs of
       [] \<Rightarrow> (xs, False)
     | t # es \<Rightarrow>
         if r_start t > r_start r \<or> r_end t < r_end r then (xs, False)
         else
           let ys = below r xs @ es;
               ys1 = (if r_end t > r_end r
                      then set_insert \<lparr>r_start = r_end r, r_end = r_end t\<rparr> ys else ys);
               ys2 = (if r_start t < r_start r
                      then set_insert \<lparr>r_start = r_start t, r_end = r_start r\<rparr> ys1 else ys1)
           in (ys2, True))"

fun RS_retrieve_loop :: "mword region list \<Rightarrow> mword region list \<Rightarrow> mword \<Rightarrow> mword region list \<times> mword" where
  "RS_retrieve_loop xs [] s = (xs, limit)"
| "RS_retrieve_loop xs (it # its) s =
    (let astart = align_up (r_start it) s
     in if r_end it \<ge> astart + s
        then (fst (RS_remove xs \<lparr>r_start = astart, r_end = astart + s\<rparr>), astart)
        else RS_retrieve_loop xs its s)"

definition RS_retrieve :: "mword region list \<Rightarrow> mword \<Rightarrow> mword region list \<times> mword" where
  "RS_retrieve xs s = RS_retrieve_loop xs xs s"

definition RS_in :: "'a::linorder region list \<Rightarrow> 'a region \<Rightarrow> bool" where
  "RS_in xs r =
    (case lower_bound r xs of
       [] \<Rightarrow> False
     | t # es \<Rightarrow> r_start t \<le> r_start r \<and> r_end t \<ge> r_end r)"

text \<open>\<open>--upper_bound(r)\<close> is undefined when \<open>upper_bound\<close> returns \<open>begin()\<close>.\<close>

definition RS_out :: "'a::linorder region list \<Rightarrow> 'a region \<Rightarrow> bool option" where
  "RS_out xs r =
    (case rev (takeWhile (\<lambda>e. \<not> Region_less r e) xs) of
       [] \<Rightarrow> None
     | it # _ \<Rightarrow> Some (xs = [] \<or> r_start it \<ge> r_end r \<or> r_end it \<le> r_start r))"

section \<open>Invariant and abstraction\<close>

text \<open>
  The regions of a well-formed set are non-empty, ascending and separated by gaps;
  \<open>cover\<close> is the set of points they contain.
\<close>

definition RS_ok :: "'a::linorder region list \<Rightarrow> bool" where
  "RS_ok xs \<longleftrightarrow> sorted_wrt Region_less xs \<and> (\<forall>e \<in> set xs. Region_valid e)"

definition points :: "'a::linorder region \<Rightarrow> 'a set" where
  "points r = {r_start r..<r_end r}"

definition cover :: "'a::linorder region list \<Rightarrow> 'a set" where
  "cover xs = (\<Union>e \<in> set xs. points e)"

lemmas region_defs = Region_less_def Region_valid_def points_def

lemma cover_simps [simp]:
  "cover [] = {}" "cover (e # es) = points e \<union> cover es" "cover (xs @ ys) = cover xs \<union> cover ys"
  by (auto simp: cover_def)

lemma RS_ok_append: "RS_ok (xs @ ys) \<longleftrightarrow>
    RS_ok xs \<and> RS_ok ys \<and> (\<forall>x \<in> set xs. \<forall>y \<in> set ys. Region_less x y)"
  by (auto simp: RS_ok_def sorted_wrt_append)

lemma RS_ok_Cons: "RS_ok (x # xs) \<longleftrightarrow> Region_valid x \<and> RS_ok xs \<and> (\<forall>y \<in> set xs. Region_less x y)"
  by (auto simp: RS_ok_def)

lemma RS_ok_Nil [simp]: "RS_ok []"
  by (simp add: RS_ok_def)

lemma below_lower_bound: "below r xs @ lower_bound r xs = xs"
  by (simp add: below_def lower_bound_def)

lemma below_less: "e \<in> set (below r xs) \<Longrightarrow> r_end e < r_start r"
  by (auto simp: below_def Region_less_def dest: set_takeWhileD)

lemma lower_bound_hd: "lower_bound r xs = e # es \<Longrightarrow> r_start r \<le> r_end e"
  using hd_dropWhile [of "\<lambda>e. Region_less e r" xs]
  by (auto simp: lower_bound_def Region_less_def)

lemma set_insert_between:
  assumes "\<And>x. x \<in> set xs \<Longrightarrow> Region_less x r" "\<And>y. y \<in> set ys \<Longrightarrow> Region_less r y"
    "RS_ok ys" "Region_valid r"
  shows "set_insert r (xs @ ys) = xs @ r # ys"
  using assms(1)
proof (induction xs)
  case Nil
  show ?case
  proof (cases ys)
    case (Cons y zs)
    with assms(2) [of y] assms(3,4) have "\<not> Region_less y r" "Region_less r y"
      by (auto simp: RS_ok_Cons region_defs)
    with Cons show ?thesis by simp
  qed simp
qed simp

lemma RS_ok_insert:
  assumes "\<And>x. x \<in> set xs \<Longrightarrow> Region_less x r" "\<And>y. y \<in> set ys \<Longrightarrow> Region_less r y"
    "RS_ok xs" "RS_ok ys" "Region_valid r"
  shows "RS_ok (set_insert r (xs @ ys))" "cover (set_insert r (xs @ ys)) = points r \<union> cover xs \<union> cover ys"
    "r \<in> set (set_insert r (xs @ ys))"
proof -
  have "Region_less x y" if "x \<in> set xs" "y \<in> set ys" for x y
    using assms(1) [OF that(1)] assms(2) [OF that(2)] assms(5) by (auto simp: region_defs)
  then show "RS_ok (set_insert r (xs @ ys))"
    using assms by (auto simp: set_insert_between RS_ok_append RS_ok_Cons)
  show "cover (set_insert r (xs @ ys)) = points r \<union> cover xs \<union> cover ys" "r \<in> set (set_insert r (xs @ ys))"
    using set_insert_between [of xs r ys] assms by auto
qed

lemma RS_split:
  assumes "RS_ok xs" "lower_bound r xs = e # es" "below r xs = pre"
  shows "xs = pre @ e # es" "RS_ok pre" "RS_ok (e # es)"
    "\<And>x. x \<in> set pre \<Longrightarrow> r_end x < r_start r \<and> r_end x < r_start e"
    "r_start r \<le> r_end e"
proof -
  show eq: "xs = pre @ e # es"
    using below_lower_bound [of r xs] assms(2,3) by simp
  with assms(1) have ok: "RS_ok (pre @ e # es)" by simp
  then show "RS_ok pre" "RS_ok (e # es)" by (simp_all only: RS_ok_append)
  show "r_end x < r_start r \<and> r_end x < r_start e" if "x \<in> set pre" for x
    using ok that below_less [of x r xs] assms(3) by (auto simp: RS_ok_append Region_less_def)
  show "r_start r \<le> r_end e" by (rule lower_bound_hd [OF assms(2)])
qed

section \<open>Insertion\<close>

text \<open>
  Every branch of \<open>insert\<close> replaces a contiguous piece \<open>gone\<close> of the list by one region
  that covers exactly the piece and the inserted region.
\<close>

lemma RS_merge:
  assumes "RS_ok (pre @ gone @ post)" "Region_valid t"
    "\<And>x. x \<in> set pre \<Longrightarrow> Region_less x t" "\<And>y. y \<in> set post \<Longrightarrow> Region_less t y"
    "points t = points r \<union> cover gone"
  shows "RS_ok (set_insert t (pre @ post))"
    "cover (set_insert t (pre @ post)) = cover (pre @ gone @ post) \<union> points r"
    "t \<in> set (set_insert t (pre @ post))"
  using RS_ok_insert [of pre t post] assms by (auto simp: RS_ok_append)

definition widen :: "'a::linorder region \<Rightarrow> 'a region \<Rightarrow> 'a region" where
  "widen r e = (if r_start e < r_start r then r\<lparr>r_start := r_start e\<rparr> else r)"

lemma widen_simps [simp]:
  "r_end (widen r e) = r_end r" "r_start (widen r e) \<le> r_start r" "r_start (widen r e) \<le> r_start e"
  "Region_valid r \<Longrightarrow> Region_valid (widen r e)"
  by (auto simp: widen_def Region_valid_def)

lemma swallowed_cover:
  assumes "RS_ok (e # es)" "e # es = gone @ keep" "\<forall>x \<in> set gone. r_end x \<le> r_end r"
  shows "cover gone \<subseteq> points (widen r e)"
proof -
  have "r_start e \<le> r_start x" if "x \<in> set (e # es)" for x
    using assms(1) that by (auto simp: RS_ok_Cons region_defs)
  then have "r_start (widen r e) \<le> r_start x" if "x \<in> set gone" for x
    using that assms(2) by (metis Un_iff order_trans set_append widen_simps(3))
  then show ?thesis
    using assms(3) by (fastforce simp: cover_def points_def)
qed

lemma widen_points: "r_start r \<le> r_end e \<Longrightarrow> points (widen r e) \<subseteq> points r \<union> points e"
  "points r \<subseteq> points (widen r e)"
  by (auto simp: widen_def points_def)

lemma extend_points:
  assumes "r_start w \<le> r_start g" "r_start g \<le> r_end w" "r_end w \<le> r_end g"
  shows "points (w\<lparr>r_end := r_end g\<rparr>) = points w \<union> points g"
  using assms by (auto simp: points_def)

lemma RS_insert_cases:
  assumes "RS_ok xs" "Region_valid r" "lower_bound r xs = e # es" "below r xs = pre"
  obtains gone keep where "xs = pre @ gone @ keep" "e # es = gone @ keep"
    "cover gone \<subseteq> points (widen r e)" "\<And>f fs. keep = f # fs \<Longrightarrow> r_end r < r_end f"
    "RS_insert xs r = (case keep of [] \<Rightarrow> (set_insert (widen r e) pre, widen r e)
      | f # fs \<Rightarrow> if r_start f \<le> r_end r
          then (set_insert (widen r e\<lparr>r_end := r_end f\<rparr>) (pre @ fs), widen r e\<lparr>r_end := r_end f\<rparr>)
          else (set_insert (widen r e) (pre @ f # fs), widen r e))"
proof
  note S = RS_split [OF assms(1,3,4)]
  let ?g = "takeWhile (\<lambda>e. r_end e \<le> r_end r) (e # es)"
  let ?k = "dropWhile (\<lambda>e. r_end e \<le> r_end r) (e # es)"
  show split: "e # es = ?g @ ?k" by (simp only: takeWhile_dropWhile_id)
  then show "xs = pre @ ?g @ ?k" using S(1) by simp
  show "cover ?g \<subseteq> points (widen r e)"
    by (rule swallowed_cover [OF S(3) split]) (auto dest: set_takeWhileD)
  show "r_end r < r_end f" if "?k = f # fs" for f fs
    using hd_dropWhile [of "\<lambda>e. r_end e \<le> r_end r" "e # es"] that
    by (metis linorder_not_le list.distinct(1) list.sel(1))
  show "RS_insert xs r = (case ?k of [] \<Rightarrow> (set_insert (widen r e) pre, widen r e)
      | f # fs \<Rightarrow> if r_start f \<le> r_end r
          then (set_insert (widen r e\<lparr>r_end := r_end f\<rparr>) (pre @ fs), widen r e\<lparr>r_end := r_end f\<rparr>)
          else (set_insert (widen r e) (pre @ f # fs), widen r e))"
    by (simp only: RS_insert_def assms(3,4) list.case widen_def [symmetric] Let_def widen_simps(1))
qed

definition RS_inserted :: "'a::linorder region list \<Rightarrow> 'a region \<Rightarrow> 'a region list \<times> 'a region \<Rightarrow> bool" where
  "RS_inserted xs r res \<longleftrightarrow> RS_ok (fst res) \<and> cover (fst res) = cover xs \<union> points r
    \<and> snd res \<in> set (fst res) \<and> Region_covers (snd res) r"

lemma RS_inserted_merge:
  assumes "RS_ok (pre @ gone @ post)" "Region_valid t"
    "\<And>x. x \<in> set pre \<Longrightarrow> r_end x < r_start t" "\<And>y. y \<in> set post \<Longrightarrow> r_end t < r_start y"
    "points t = points r \<union> cover gone" "Region_covers t r"
  shows "RS_inserted (pre @ gone @ post) r (set_insert t (pre @ post), t)"
  using RS_merge [of pre gone post t r] assms by (simp add: RS_inserted_def Region_less_def)

lemma RS_insert_no_right:
  assumes "RS_ok (pre @ gone @ keep)" "Region_valid r" "e # es = gone @ keep" "r_start r \<le> r_end e"
    "\<And>x. x \<in> set pre \<Longrightarrow> r_end x < r_start r \<and> r_end x < r_start e"
    "cover gone \<subseteq> points (widen r e)" "keep = [] \<or> r_end r < r_start (hd keep)"
  shows "RS_inserted (pre @ gone @ keep) r (set_insert (widen r e) (pre @ keep), widen r e)"
proof (rule RS_inserted_merge [OF assms(1)])
  have ok: "RS_ok (gone @ keep)" using assms(1) by (simp add: RS_ok_append)
  show "points (widen r e) = points r \<union> cover gone"
  proof (cases gone)
    case Nil
    then have "widen r e = r"
      using assms(2,3,4,7) by (auto simp: widen_def region_defs)
    with Nil show ?thesis by simp
  next
    case (Cons g gs)
    then have "points e \<subseteq> cover gone" using assms(3) by simp
    with widen_points(1) [OF assms(4)] widen_points(2) [of r e] assms(6) show ?thesis by auto
  qed
  show "r_end (widen r e) < r_start y" if "y \<in> set keep" for y
    using assms(7) that ok by (cases keep) (auto simp: RS_ok_append RS_ok_Cons region_defs)
  show "r_end x < r_start (widen r e)" if "x \<in> set pre" for x
    using assms(5) [OF that] by (simp add: widen_def)
qed (simp_all add: assms(2) Region_covers_def)

lemma RS_insert_right:
  assumes "RS_ok (pre @ gone @ g # gs)" "Region_valid r" "e # es = gone @ g # gs" "r_start r \<le> r_end e"
    "\<And>x. x \<in> set pre \<Longrightarrow> r_end x < r_start r \<and> r_end x < r_start e"
    "cover gone \<subseteq> points (widen r e)" "r_end r < r_end g" "r_start g \<le> r_end r"
  shows "RS_inserted (pre @ gone @ g # gs) r
    (set_insert (widen r e\<lparr>r_end := r_end g\<rparr>) (pre @ gs), widen r e\<lparr>r_end := r_end g\<rparr>)"
proof -
  let ?t = "widen r e\<lparr>r_end := r_end g\<rparr>"
  have ok: "RS_ok (gone @ g # gs)" using assms(1) by (simp add: RS_ok_append)
  have ge: "r_start e \<le> r_start g"
    using ok assms(3) by (cases gone) (auto simp: RS_ok_append RS_ok_Cons region_defs)
  have "points ?t = points (widen r e) \<union> points g"
    using assms(7,8) order_trans [OF widen_simps(3) ge] by (intro extend_points) auto
  moreover have "points e \<subseteq> cover (gone @ [g])"
    using assms(3) by (cases gone) auto
  ultimately have "points ?t = points r \<union> cover (gone @ [g])"
    using assms(6) widen_points(1) [OF assms(4)] widen_points(2) [of r e] by auto
  moreover have "Region_valid ?t"
    using le_less_trans [OF widen_simps(2) [of r e]] assms(2,7) by (auto simp: Region_valid_def)
  moreover have "r_end x < r_start ?t" if "x \<in> set pre" for x
    using assms(5) [OF that] by (simp add: widen_def)
  moreover have "r_end ?t < r_start y" if "y \<in> set gs" for y
    using that ok by (auto simp: RS_ok_append RS_ok_Cons region_defs)
  moreover have "Region_covers ?t r" using assms(7) by (simp add: Region_covers_def)
  ultimately show ?thesis
    using RS_inserted_merge [of pre "gone @ [g]" gs ?t r] assms(1) by simp
qed

lemma RS_insert_result:
  assumes "RS_ok xs" "Region_valid r"
  shows "RS_inserted xs r (RS_insert xs r)"
proof (cases "lower_bound r xs")
  case Nil
  then have "below r xs = xs" using below_lower_bound [of r xs] by simp
  then have "\<And>x. x \<in> set xs \<Longrightarrow> r_end x < r_start r" using below_less [of _ r xs] by simp
  with RS_inserted_merge [of xs "[]" "[]" r r] assms show ?thesis
    by (simp add: RS_insert_def Nil Region_covers_def)
next
  case (Cons e es)
  define pre where "pre = below r xs"
  note S = RS_split [OF assms(1) Cons pre_def [symmetric]]
  obtain gone keep where xs: "xs = pre @ gone @ keep" and split: "e # es = gone @ keep"
    and sub: "cover gone \<subseteq> points (widen r e)" and f: "\<And>f fs. keep = f # fs \<Longrightarrow> r_end r < r_end f"
    and ins: "RS_insert xs r = (case keep of [] \<Rightarrow> (set_insert (widen r e) pre, widen r e)
      | f # fs \<Rightarrow> if r_start f \<le> r_end r
          then (set_insert (widen r e\<lparr>r_end := r_end f\<rparr>) (pre @ fs), widen r e\<lparr>r_end := r_end f\<rparr>)
          else (set_insert (widen r e) (pre @ f # fs), widen r e))"
    using RS_insert_cases [OF assms Cons pre_def [symmetric]] by blast
  show ?thesis
  proof (cases "keep = [] \<or> r_end r < r_start (hd keep)")
    case True
    then have "RS_insert xs r = (set_insert (widen r e) (pre @ keep), widen r e)"
      unfolding ins by (cases keep) auto
    then show ?thesis
      using RS_insert_no_right [OF assms(1) [unfolded xs] assms(2) split S(5,4) sub True] xs by simp
  next
    case False
    then obtain g gs where keep: "keep = g # gs" and g: "r_start g \<le> r_end r"
      by (cases keep) auto
    have "RS_insert xs r = (set_insert (widen r e\<lparr>r_end := r_end g\<rparr>) (pre @ gs), widen r e\<lparr>r_end := r_end g\<rparr>)"
      unfolding ins keep using g by simp
    then show ?thesis
      using RS_insert_right [OF assms(1) [unfolded xs keep] assms(2) split [unfolded keep] S(5,4) sub
          f [OF keep] g] xs keep by simp
  qed
qed

section \<open>Lookup and removal\<close>

text \<open>A non-empty region lies in the covered points iff the region at \<open>lower_bound\<close> covers it.\<close>

lemma covered_iff:
  assumes "RS_ok xs" "Region_valid r"
  shows "points r \<subseteq> cover xs \<longleftrightarrow>
    (case lower_bound r xs of [] \<Rightarrow> False | t # es \<Rightarrow> Region_covers t r)"
proof (cases "lower_bound r xs")
  case Nil
  then have "below r xs = xs" using below_lower_bound [of r xs] by simp
  then have "r_end e < r_start r" if "e \<in> set xs" for e
    using below_less [of e r xs] that by simp
  then have "r_start r \<notin> cover xs" by (force simp: cover_def points_def)
  moreover have "r_start r \<in> points r" using assms(2) by (simp add: region_defs)
  ultimately show ?thesis using Nil by auto
next
  case (Cons t es)
  define pre where "pre = below r xs"
  note S = RS_split [OF assms(1) Cons pre_def [symmetric]]
  have start: "r_start r \<in> points r" using assms(2) by (simp add: region_defs)
  have after: "r_end t < r_start y" if "y \<in> set es" for y
    using S(3) that by (auto simp: RS_ok_Cons Region_less_def)
  have cov: "cover xs = cover pre \<union> (points t \<union> cover es)" by (simp add: S(1))
  have no_pre: "p \<notin> cover pre" if "r_start r \<le> p" for p
    using S(4) that by (fastforce simp: cover_def points_def)
  have no_es: "p \<notin> cover es" if "p \<le> r_end t" for p
    using after that by (fastforce simp: cover_def points_def)
  show ?thesis
  proof
    assume sub: "points r \<subseteq> cover xs"
    have "r_start r \<in> points t"
      using sub start no_pre [of "r_start r"] no_es [OF S(5)] by (auto simp: cov)
    moreover have "r_end r \<le> r_end t"
    proof (rule ccontr)
      assume "\<not> r_end r \<le> r_end t"
      then have "r_end t \<in> points r" using S(5) by (simp add: points_def)
      with sub no_pre [OF S(5)] no_es [of "r_end t"] show False by (auto simp: cov points_def)
    qed
    ultimately show "case lower_bound r xs of [] \<Rightarrow> False | t # es \<Rightarrow> Region_covers t r"
      by (simp add: Cons Region_covers_def points_def)
  qed (auto simp: Cons Region_covers_def cov points_def)
qed

lemma RS_in_covers: "RS_in xs r = (case lower_bound r xs of [] \<Rightarrow> False | t # es \<Rightarrow> Region_covers t r)"
  by (simp add: RS_in_def Region_covers_def split: list.splits)

lemma RS_remove_outside:
  assumes "RS_ok xs" "Region_valid r" "\<not> points r \<subseteq> cover xs"
  shows "RS_remove xs r = (xs, False)"
  using covered_iff [OF assms(1,2)] assms(3)
  by (auto simp: RS_remove_def Region_covers_def not_le split: list.splits)

text \<open>The pieces of the covering region that stay.\<close>

definition back_piece :: "'a::linorder region \<Rightarrow> 'a region \<Rightarrow> 'a region list" where
  "back_piece t r = (if r_end r < r_end t then [\<lparr>r_start = r_end r, r_end = r_end t\<rparr>] else [])"

definition front_piece :: "'a::linorder region \<Rightarrow> 'a region \<Rightarrow> 'a region list" where
  "front_piece t r = (if r_start t < r_start r then [\<lparr>r_start = r_start t, r_end = r_start r\<rparr>] else [])"

lemma RS_remove_pieces:
  assumes "RS_ok (pre @ t # es)" "Region_valid r" "Region_covers t r"
    "lower_bound r (pre @ t # es) = t # es" "below r (pre @ t # es) = pre"
  shows "RS_remove (pre @ t # es) r = (pre @ front_piece t r @ back_piece t r @ es, True)"
proof -
  have pre: "RS_ok pre" and es: "RS_ok es" and t: "Region_valid t"
    and pre_t: "\<And>x. x \<in> set pre \<Longrightarrow> Region_less x t" and t_es: "\<And>y. y \<in> set es \<Longrightarrow> Region_less t y"
    using assms(1) by (auto simp: RS_ok_append RS_ok_Cons)
  have behind: "(if r_end r < r_end t then set_insert \<lparr>r_start = r_end r, r_end = r_end t\<rparr> (pre @ es)
      else pre @ es) = pre @ back_piece t r @ es"
  proof (cases "r_end r < r_end t")
    case True
    have "set_insert \<lparr>r_start = r_end r, r_end = r_end t\<rparr> (pre @ es)
        = pre @ \<lparr>r_start = r_end r, r_end = r_end t\<rparr> # es"
      using pre_t t_es es True assms(2,3)
      by (intro set_insert_between) (fastforce simp: region_defs Region_covers_def)+
    with True show ?thesis by (simp add: back_piece_def)
  qed (simp add: back_piece_def)
  have ok: "RS_ok (back_piece t r @ es)"
    using es t_es t assms(2,3) by (auto simp: back_piece_def RS_ok_Cons region_defs Region_covers_def)
  have gt: "r_start r < r_start y" if "y \<in> set (back_piece t r @ es)" for y
    using that t_es [of y] t assms(2,3)
    by (fastforce simp: back_piece_def region_defs Region_covers_def split: if_splits)
  have infront: "(if r_start t < r_start r
      then set_insert \<lparr>r_start = r_start t, r_end = r_start r\<rparr> (pre @ back_piece t r @ es)
      else pre @ back_piece t r @ es) = pre @ front_piece t r @ back_piece t r @ es"
  proof (cases "r_start t < r_start r")
    case True
    have "set_insert \<lparr>r_start = r_start t, r_end = r_start r\<rparr> (pre @ back_piece t r @ es)
        = pre @ \<lparr>r_start = r_start t, r_end = r_start r\<rparr> # back_piece t r @ es"
      using pre_t gt ok True by (intro set_insert_between) (auto simp: region_defs)
    with True show ?thesis by (simp add: front_piece_def)
  qed (simp add: front_piece_def)
  have "\<not> (r_start r < r_start t \<or> r_end t < r_end r)"
    using assms(3) by (auto simp: Region_covers_def)
  then show ?thesis
    unfolding RS_remove_def assms(4,5) by (simp only: list.case Let_def if_False behind infront)
qed

lemma pieces_ok:
  assumes "Region_valid t" "Region_valid r" "Region_covers t r"
  shows "RS_ok (front_piece t r @ back_piece t r)"
    "x \<in> set (front_piece t r @ back_piece t r) \<Longrightarrow> r_start t \<le> r_start x \<and> r_end x \<le> r_end t"
    "cover (front_piece t r @ back_piece t r) = points t - points r"
  using assms
  by (auto simp: front_piece_def back_piece_def RS_ok_Cons region_defs Region_covers_def split: if_splits)

lemma RS_remove_inside:
  assumes "RS_ok xs" "Region_valid r" "points r \<subseteq> cover xs"
  shows "snd (RS_remove xs r)" "RS_ok (fst (RS_remove xs r))"
    "cover (fst (RS_remove xs r)) = cover xs - points r"
proof -
  obtain t es where lb: "lower_bound r xs = t # es" and cv: "Region_covers t r"
    using covered_iff [OF assms(1,2)] assms(3) by (auto split: list.splits)
  define pre where "pre = below r xs"
  note S = RS_split [OF assms(1) lb pre_def [symmetric]]
  have eq: "RS_remove xs r = (pre @ front_piece t r @ back_piece t r @ es, True)"
    using RS_remove_pieces [OF _ assms(2) cv, of pre es] assms(1) lb pre_def
    unfolding S(1) [symmetric] by simp
  then show "snd (RS_remove xs r)" by simp
  have ok: "Region_valid t" "RS_ok es" "\<And>y. y \<in> set es \<Longrightarrow> r_end t < r_start y"
    using S(3) by (auto simp: RS_ok_Cons Region_less_def)
  define mid where "mid = front_piece t r @ back_piece t r"
  note P = pieces_ok [OF ok(1) assms(2) cv, folded mid_def]
  have fst: "fst (RS_remove xs r) = pre @ mid @ es" by (simp add: eq mid_def)
  have "Region_less x y" if "x \<in> set pre" "y \<in> set mid" for x y
    using S(4) [OF that(1)] P(2) [OF that(2)] by (auto simp: Region_less_def)
  moreover have "Region_less x y" if "x \<in> set mid" "y \<in> set es" for x y
    using P(2) [OF that(1)] ok(3) [OF that(2)] by (auto simp: Region_less_def)
  moreover have "RS_ok (pre @ t # es)" using assms(1) S(1) by simp
  ultimately show "RS_ok (fst (RS_remove xs r))"
    using P(1) by (auto simp: fst RS_ok_append RS_ok_Cons)
  have "points x \<inter> points r = {}" if "x \<in> set pre \<or> x \<in> set es" for x
    using that S(4) [of x] ok(3) [of x] cv by (auto simp: points_def Region_covers_def)
  then have "cover pre \<inter> points r = {}" "cover es \<inter> points r = {}"
    by (auto simp: cover_def)
  moreover have "cover xs = cover pre \<union> points t \<union> cover es" by (simp add: S(1) Un_assoc)
  moreover have "cover (fst (RS_remove xs r)) = cover pre \<union> cover mid \<union> cover es"
    by (simp add: fst Un_assoc)
  ultimately show "cover (fst (RS_remove xs r)) = cover xs - points r"
    using P(3) by auto
qed

section \<open>Retrieving an aligned block\<close>

definition block :: "mword \<Rightarrow> mword \<Rightarrow> mword region" where
  "block a s = \<lparr>r_start = a, r_end = a + s\<rparr>"

text \<open>An aligned block at \<open>b\<close> that does not wrap lies in the region \<open>e\<close>.\<close>

definition block_in :: "mword \<Rightarrow> nat \<Rightarrow> mword region \<Rightarrow> bool" where
  "block_in b k e \<longleftrightarrow> aligned b (2 ^ k) \<and> r_start e \<le> b \<and> b \<le> b + 2 ^ k \<and> b + 2 ^ k \<le> r_end e"

lemma block_no_wrap: "k < 63 \<Longrightarrow> b \<le> b + 2 ^ k \<Longrightarrow> unat (b + 2 ^ k) = unat b + 2 ^ k"
  for b :: mword
  using no_plus_overflow_unat_size [of b "2 ^ k"] unat_add_lem [of b "2 ^ k"]
  by (simp add: unat_pow2 word_size)

lemma block_fits:
  assumes "unat (r_end e) + 2 * 2 ^ k \<le> 2 ^ 64" "Region_valid e" "k < 63"
  defines "a \<equiv> align_up (r_start e) (2 ^ k)"
  shows "Region_valid (block a (2 ^ k))" "aligned a (2 ^ k)" "r_start e \<le> a" "a \<noteq> limit"
    "unat (a + 2 ^ k) = unat a + 2 ^ k"
    "\<And>b. aligned b (2 ^ k) \<Longrightarrow> r_start e \<le> b \<Longrightarrow> a \<le> b"
proof -
  have lt: "unat (r_start e) < unat (r_end e)"
    using assms(2) by (simp add: Region_valid_def word_less_nat_alt)
  then have no: "unat (r_start e) + 2 ^ k \<le> 2 ^ LENGTH(64)" using assms(1) by simp
  have "unat a \<le> unat (r_start e) + (2 ^ k - 1)"
    unfolding a_def unat_align_up [OF no] by (simp only: div_times_less_eq_dividend)
  with lt assms(1) have a: "unat a + 2 ^ k < 2 ^ 64" by linarith
  moreover have "unat (2 ^ k :: mword) = 2 ^ k" using assms(3) by (simp add: unat_pow2)
  ultimately have *: "unat (a + 2 ^ k) = unat a + 2 ^ k"
    using unat_add_lem [of a "2 ^ k"] by simp
  from * show "Region_valid (block a (2 ^ k))"
    by (simp add: block_def Region_valid_def word_less_nat_alt)
  show "aligned a (2 ^ k)" by (simp add: a_def aligned_iff_dvd unat_align_up [OF no])
  show "r_start e \<le> a" unfolding a_def by (rule align_up_ge [OF no])
  show "\<And>b. aligned b (2 ^ k) \<Longrightarrow> r_start e \<le> b \<Longrightarrow> a \<le> b"
    unfolding a_def by (rule align_up_least [OF no])
  show "unat (a + 2 ^ k) = unat a + 2 ^ k" by fact
  show "a \<noteq> limit" using a by (auto simp: limit_def unsigned_minus_1_eq_mask mask_eq_exp_minus_1)
qed

lemma RS_retrieve_loop_spec:
  assumes "RS_ok xs" "k < 63" "\<And>e. e \<in> set xs \<Longrightarrow> unat (r_end e) + 2 * 2 ^ k \<le> 2 ^ 64"
    "set ys \<subseteq> set xs" "RS_retrieve_loop xs ys (2 ^ k) = (xs', a)"
  shows "if a = limit
     then xs' = xs \<and> (\<forall>e \<in> set ys. \<forall>b. \<not> block_in b k e)
     else aligned a (2 ^ k) \<and> points (block a (2 ^ k)) \<subseteq> cover xs \<and> RS_ok xs'
       \<and> cover xs' = cover xs - points (block a (2 ^ k))"
  using assms(4,5)
proof (induction ys)
  case (Cons e ys)
  then have e: "e \<in> set xs" "Region_valid e" "unat (r_end e) + 2 * 2 ^ k \<le> 2 ^ 64"
    using assms(1,3) by (auto simp: RS_ok_def)
  note B = block_fits [OF e(3,2) assms(2)]
  show ?case
  proof (cases "r_end e \<ge> align_up (r_start e) (2 ^ k) + 2 ^ k")
    case True
    then have res: "a = align_up (r_start e) (2 ^ k)" "xs' = fst (RS_remove xs (block a (2 ^ k)))"
      using Cons.prems(2) by (auto simp: Let_def block_def)
    have "points (block a (2 ^ k)) \<subseteq> points e"
      using True B(3) res(1) by (auto simp: block_def points_def)
    then have "points (block a (2 ^ k)) \<subseteq> cover xs"
      using e(1) by (auto simp: cover_def)
    with RS_remove_inside [OF assms(1) B(1)] B(2,4) res show ?thesis by simp
  next
    case False
    have "\<not> block_in b k e" for b
    proof
      assume b: "block_in b k e"
      then have "unat (b + 2 ^ k) = unat b + 2 ^ k"
        using block_no_wrap [of k b] assms(2) by (simp add: block_in_def)
      moreover have "unat (align_up (r_start e) (2 ^ k)) \<le> unat b"
        using B(6) [of b] b by (simp add: block_in_def word_le_nat_alt)
      ultimately show False
        using b B(5) False by (simp add: block_in_def word_le_nat_alt)
    qed
    with False Cons show ?thesis by (auto simp: Let_def split: if_splits)
  qed
qed auto

section \<open>Properties\<close>

text \<open>
  C32: inserting a non-empty region keeps the set well formed (non-empty, ascending regions
  with gaps between them), adds exactly the region's points to the covered points, and
  returns the stored region that now covers it.
\<close>

theorem RS_insert_spec:
  assumes "RS_ok xs" "Region_valid r"
  shows "RS_ok (fst (RS_insert xs r)) \<and>
    cover (fst (RS_insert xs r)) = cover xs \<union> points r \<and>
    snd (RS_insert xs r) \<in> set (fst (RS_insert xs r)) \<and> Region_covers (snd (RS_insert xs r)) r"
  using RS_insert_result [OF assms] by (simp add: RS_inserted_def)

theorem RS_insert_spec_witness:
  "RS_ok (fst (RS_insert [\<lparr>r_start = 0, r_end = 5\<rparr>, \<lparr>r_start = 7, r_end = 9\<rparr>] \<lparr>r_start = 5, r_end = 7 :: nat\<rparr>))
   \<and> fst (RS_insert [\<lparr>r_start = 0, r_end = 5\<rparr>, \<lparr>r_start = 7, r_end = 9\<rparr>] \<lparr>r_start = 5, r_end = 7 :: nat\<rparr>)
     = [\<lparr>r_start = 0, r_end = 9\<rparr>]"
proof -
  have "RS_ok [\<lparr>r_start = 0, r_end = 5\<rparr>, \<lparr>r_start = 7, r_end = 9 :: nat\<rparr>]"
    "Region_valid \<lparr>r_start = 5, r_end = 7 :: nat\<rparr>"
    by (simp_all add: RS_ok_Cons region_defs)
  from RS_insert_spec [OF this] show ?thesis
    by (simp add: RS_insert_def lower_bound_def below_def Region_less_def Let_def)
qed

text \<open>
  C33: removing a non-empty region succeeds exactly when all its points are covered; it
  then leaves a well-formed set that covers the other points and only those, and
  otherwise leaves the set as it was.
\<close>

theorem RS_remove_spec:
  assumes "RS_ok xs" "Region_valid r"
  shows "if points r \<subseteq> cover xs
    then snd (RS_remove xs r) \<and> RS_ok (fst (RS_remove xs r)) \<and>
      cover (fst (RS_remove xs r)) = cover xs - points r
    else RS_remove xs r = (xs, False)"
  using RS_remove_inside [OF assms] RS_remove_outside [OF assms] by simp

theorem RS_remove_spec_witness:
  "RS_remove [\<lparr>r_start = 0, r_end = 9\<rparr>] \<lparr>r_start = 5, r_end = 7 :: nat\<rparr>
     = ([\<lparr>r_start = 0, r_end = 5\<rparr>, \<lparr>r_start = 7, r_end = 9\<rparr>], True)
   \<and> RS_ok (fst (RS_remove [\<lparr>r_start = 0, r_end = 9\<rparr>] \<lparr>r_start = 5, r_end = 7 :: nat\<rparr>))"
proof -
  have "RS_ok [\<lparr>r_start = 0, r_end = 9 :: nat\<rparr>]" "Region_valid \<lparr>r_start = 5, r_end = 7 :: nat\<rparr>"
    by (simp_all add: RS_ok_Cons region_defs)
  from RS_remove_spec [OF this] show ?thesis
    by (simp add: RS_remove_def lower_bound_def below_def Region_less_def Let_def cover_def points_def)
qed



text \<open>
  \<open>in\<close> tells whether all points of a non-empty region are covered.
\<close>

theorem RS_in_spec:
  assumes "RS_ok xs" "Region_valid r"
  shows "RS_in xs r \<longleftrightarrow> points r \<subseteq> cover xs"
  using covered_iff [OF assms] by (simp add: RS_in_covers)

theorem RS_in_spec_witness:
  "RS_in [\<lparr>r_start = 0, r_end = 9\<rparr>] \<lparr>r_start = 5, r_end = 7 :: nat\<rparr>"
  using RS_in_spec [of "[\<lparr>r_start = 0, r_end = 9\<rparr>]" "\<lparr>r_start = 5, r_end = 7 :: nat\<rparr>"]
  by (simp add: RS_ok_Cons region_defs)

text \<open>
  \<open>out\<close> looks at one neighbour only: it answers true for a region that overlaps the set
  when the last region that does not lie behind it merely touches its end.
\<close>

theorem RS_out_misses_overlap:
  "RS_out [\<lparr>r_start = 0, r_end = 5\<rparr>, \<lparr>r_start = 7, r_end = 9\<rparr>] \<lparr>r_start = 3, r_end = 7 :: nat\<rparr> = Some True
   \<and> points \<lparr>r_start = 3, r_end = 7 :: nat\<rparr> \<inter> cover [\<lparr>r_start = 0, r_end = 5\<rparr>, \<lparr>r_start = 7, r_end = 9\<rparr>] \<noteq> {}
   \<and> RS_ok [\<lparr>r_start = 0, r_end = 5\<rparr>, \<lparr>r_start = 7, r_end = 9 :: nat\<rparr>]"
proof -
  have "3 \<in> points \<lparr>r_start = 3, r_end = 7 :: nat\<rparr>" "3 \<in> cover [\<lparr>r_start = 0, r_end = 5 :: nat\<rparr>, \<lparr>r_start = 7, r_end = 9\<rparr>]"
    by (simp_all add: points_def)
  then show ?thesis by (auto simp: RS_out_def Region_less_def RS_ok_Cons Region_valid_def)
qed

end
