(* ===== verification/EmbeddedContainers.thy ===== *)
theory EmbeddedContainers
  imports Prelude
begin

text \<open>
  The intrusive containers of \<open>generic/EmbeddedContainers.h\<close> over an explicit store of
  link fields: \<open>prv h e\<close> and \<open>nxt h e\<close> are the two pointers of the link embedded in the
  object at address \<open>e\<close>, \<open>None\<close> is \<open>nullptr\<close>.  The doubly linked \<open>EmbeddedList\<close> is what
  ready queues, blocking queues and the TLB invalidation list are made of.
\<close>

section \<open>The link store\<close>

record 'a links =
  prv :: "'a \<Rightarrow> 'a option"
  nxt :: "'a \<Rightarrow> 'a option"

definition set_prv :: "'a \<Rightarrow> 'a option \<Rightarrow> 'a links \<Rightarrow> 'a links" where
  "set_prv e p h = h\<lparr>prv := (prv h)(e := p)\<rparr>"

definition set_nxt :: "'a \<Rightarrow> 'a option \<Rightarrow> 'a links \<Rightarrow> 'a links" where
  "set_nxt e p h = h\<lparr>nxt := (nxt h)(e := p)\<rparr>"

section \<open>\<open>EmbeddedStack\<close> and \<open>EmbeddedQueue\<close>\<close>

text \<open>The stack state is its \<open>head\<close>; the queue's is \<open>head\<close> and \<open>tail\<close>.\<close>

definition es_push :: "'a links \<Rightarrow> 'a option \<Rightarrow> 'a \<Rightarrow> ('a links \<times> 'a option) option" where
  "es_push h head elem = do {
     kassert (nxt h elem = None);
     Some (set_nxt elem head h, Some elem) }"

definition es_push_range :: "'a links \<Rightarrow> 'a option \<Rightarrow> 'a \<Rightarrow> 'a \<Rightarrow> ('a links \<times> 'a option) option" where
  "es_push_range h head first last' = do {
     kassert (nxt h last' = None);
     Some (set_nxt last' head h, Some first) }"

text \<open>The loop of both \<open>pop\<close> methods: advance at most \<open>count\<close> times.\<close>

fun advance :: "'a links \<Rightarrow> nat \<Rightarrow> 'a \<Rightarrow> 'a" where
  "advance h 0 last' = last'"
| "advance h (Suc n) last' = (case nxt h last' of None \<Rightarrow> last' | Some y \<Rightarrow> advance h n y)"

definition es_pop :: "'a links \<Rightarrow> 'a option \<Rightarrow> nat \<Rightarrow> ('a links \<times> 'a option \<times> 'a) option" where
  "es_pop h head count = do {
     kassert (head \<noteq> None);
     first \<leftarrow> head;
     let last' = advance h count first;
     Some (set_nxt last' None h, nxt h last', last') }"

record 'a equeue =
  eq_head :: "'a option"
  eq_tail :: "'a option"

definition eq_empty :: "'a equeue \<Rightarrow> bool option" where
  "eq_empty q = do {
     kassert ((eq_head q = None) = (eq_tail q = None));
     Some (eq_head q = None) }"

definition eq_push_range :: "'a links \<Rightarrow> 'a equeue \<Rightarrow> 'a \<Rightarrow> 'a \<Rightarrow> ('a links \<times> 'a equeue) option" where
  "eq_push_range h q first last' =
    (case eq_head q of
       None \<Rightarrow> Some (h, \<lparr>eq_head = Some first, eq_tail = Some last'\<rparr>)
     | Some _ \<Rightarrow> do {
         kassert (eq_tail q \<noteq> None);
         t \<leftarrow> eq_tail q;
         Some (set_nxt t (Some first) h, q\<lparr>eq_tail := Some last'\<rparr>) })"

definition eq_push :: "'a links \<Rightarrow> 'a equeue \<Rightarrow> 'a \<Rightarrow> ('a links \<times> 'a equeue) option" where
  "eq_push h q elem =
    (case eq_head q of
       None \<Rightarrow> Some (h, \<lparr>eq_head = Some elem, eq_tail = Some elem\<rparr>)
     | Some _ \<Rightarrow> do {
         kassert (eq_tail q \<noteq> None);
         t \<leftarrow> eq_tail q;
         Some (set_nxt t (Some elem) h, q\<lparr>eq_tail := Some elem\<rparr>) })"

definition eq_pop :: "'a links \<Rightarrow> 'a equeue \<Rightarrow> nat \<Rightarrow> ('a equeue \<times> 'a) option" where
  "eq_pop h q count = do {
     e \<leftarrow> eq_empty q;
     kassert (\<not> e);
     first \<leftarrow> eq_head q;
     let last' = advance h count first;
     Some (\<lparr>eq_head = nxt h last', eq_tail = (if eq_tail q = Some last' then None else eq_tail q)\<rparr>,
           last') }"

definition eq_transfer :: "'a links \<Rightarrow> 'a equeue \<Rightarrow> 'a equeue \<Rightarrow> nat
    \<Rightarrow> ('a links \<times> 'a equeue \<times> 'a equeue) option" where
  "eq_transfer h q from' count = do {
     (from'', last') \<leftarrow> eq_pop h from' count;
     first \<leftarrow> eq_head from';
     (h', q') \<leftarrow> eq_push_range h q first last';
     Some (h', q', from'') }"

section \<open>\<open>EmbeddedList\<close>\<close>

text \<open>A list is the address of its anchor; the anchor's link is in the store like any other.\<close>

definition el_init :: "'a links \<Rightarrow> 'a \<Rightarrow> 'a links" where
  "el_init h anchor = set_prv anchor (Some anchor) (set_nxt anchor (Some anchor) h)"

definition onList :: "'a links \<Rightarrow> 'a \<Rightarrow> bool option" where
  "onList h e = do {
     kassert ((prv h e = None) = (nxt h e = None));
     Some (nxt h e \<noteq> None) }"

definition el_empty :: "'a links \<Rightarrow> 'a \<Rightarrow> bool" where
  "el_empty h anchor \<longleftrightarrow> nxt h anchor = Some anchor"

definition insert_before :: "'a links \<Rightarrow> 'a \<Rightarrow> 'a \<Rightarrow> 'a links option" where
  "insert_before h next' elem = do {
     a \<leftarrow> onList h elem; kassert (\<not> a);
     b \<leftarrow> onList h next'; kassert b;
     p \<leftarrow> prv h next';
     let h1 = set_nxt p (Some elem) h;
     let h2 = set_prv elem (prv h1 next') h1;
     let h3 = set_prv next' (Some elem) h2;
     Some (set_nxt elem (Some next') h3) }"

definition insert_after :: "'a links \<Rightarrow> 'a \<Rightarrow> 'a \<Rightarrow> 'a links option" where
  "insert_after h prev elem = do {
     a \<leftarrow> onList h elem; kassert (\<not> a);
     b \<leftarrow> onList h prev; kassert b;
     n \<leftarrow> nxt h prev;
     let h1 = set_prv n (Some elem) h;
     let h2 = set_nxt elem (nxt h1 prev) h1;
     let h3 = set_nxt prev (Some elem) h2;
     Some (set_prv elem (Some prev) h3) }"

definition insert_range_after :: "'a links \<Rightarrow> 'a \<Rightarrow> 'a \<Rightarrow> 'a \<Rightarrow> 'a links option" where
  "insert_range_after h prev first last' = do {
     kassert (prv h first = None);
     kassert (nxt h last' = None);
     b \<leftarrow> onList h prev; kassert b;
     n \<leftarrow> nxt h prev;
     let h1 = set_prv n (Some last') h;
     let h2 = set_nxt last' (nxt h1 prev) h1;
     let h3 = set_nxt prev (Some first) h2;
     Some (set_prv first (Some prev) h3) }"

definition el_remove :: "'a links \<Rightarrow> 'a \<Rightarrow> ('a links \<times> 'a) option" where
  "el_remove h elem = do {
     a \<leftarrow> onList h elem; kassert a;
     p \<leftarrow> prv h elem;
     let h1 = set_nxt p (nxt h elem) h;
     n \<leftarrow> nxt h1 elem;
     let h2 = set_prv n (prv h1 elem) h1;
     Some (set_nxt elem None (set_prv elem None h2), elem) }"

text \<open>
  The counting loop of the range \<open>remove\<close>: \<open>i\<close> runs up to \<open>count\<close>, which is lowered
  to \<open>i\<close> when the fence is reached; the result is \<open>last\<close> and the final \<open>count\<close>.
\<close>

function remove_loop :: "'a links \<Rightarrow> 'a \<Rightarrow> 'a \<Rightarrow> nat \<Rightarrow> nat \<Rightarrow> ('a \<times> nat) option" where
  "remove_loop h fence last' i count =
    (if i < count
     then if nxt h last' = Some fence then Some (last', i)
          else (case nxt h last' of None \<Rightarrow> None
                | Some y \<Rightarrow> remove_loop h fence y (i + 1) count)
     else Some (last', count))"
  by pat_completeness auto
termination
  by (relation "measure (\<lambda>(h, f, l, i, c). c - i)") auto

declare remove_loop.simps [simp del]

definition el_remove_range :: "'a links \<Rightarrow> 'a \<Rightarrow> 'a \<Rightarrow> nat \<Rightarrow> ('a links \<times> 'a \<times> nat) option" where
  "el_remove_range h fence first count = do {
     a \<leftarrow> onList h first; kassert a;
     (last', count') \<leftarrow> remove_loop h fence first 0 count;
     p \<leftarrow> prv h first;
     let h1 = set_nxt p (nxt h last') h;
     n \<leftarrow> nxt h1 last';
     let h2 = set_prv n (prv h1 first) h1;
     Some (set_nxt last' None (set_prv first None h2), last', count') }"

definition push_front :: "'a links \<Rightarrow> 'a \<Rightarrow> 'a \<Rightarrow> 'a links option" where
  "push_front h anchor elem = do { f \<leftarrow> nxt h anchor; insert_before h f elem }"

definition push_back :: "'a links \<Rightarrow> 'a \<Rightarrow> 'a \<Rightarrow> 'a links option" where
  "push_back h anchor elem = do { b \<leftarrow> prv h anchor; insert_after h b elem }"

definition splice_back :: "'a links \<Rightarrow> 'a \<Rightarrow> 'a \<Rightarrow> 'a \<Rightarrow> 'a links option" where
  "splice_back h anchor first last' = do { b \<leftarrow> prv h anchor; insert_range_after h b first last' }"

definition pop_front :: "'a links \<Rightarrow> 'a \<Rightarrow> ('a links \<times> 'a) option" where
  "pop_front h anchor = do { kassert (\<not> el_empty h anchor); f \<leftarrow> nxt h anchor; el_remove h f }"

definition pop_back :: "'a links \<Rightarrow> 'a \<Rightarrow> ('a links \<times> 'a) option" where
  "pop_back h anchor = do { kassert (\<not> el_empty h anchor); b \<leftarrow> prv h anchor; el_remove h b }"

definition split_front :: "'a links \<Rightarrow> 'a \<Rightarrow> nat \<Rightarrow> ('a links \<times> 'a \<times> nat) option" where
  "split_front h anchor count = do {
     kassert (\<not> el_empty h anchor);
     f \<leftarrow> nxt h anchor;
     el_remove_range h anchor f count }"

definition el_transfer :: "'a links \<Rightarrow> 'a \<Rightarrow> 'a \<Rightarrow> nat \<Rightarrow> ('a links \<times> nat) option" where
  "el_transfer h anchor el count = do {
     first \<leftarrow> nxt h el;
     (h1, last', count') \<leftarrow> split_front h el count;
     h2 \<leftarrow> splice_back h1 anchor first last';
     Some (h2, count') }"

section \<open>Circular lists\<close>

text \<open>
  \<open>chain h ws\<close>: neighbours in \<open>ws\<close> point to each other.  \<open>circ h ws\<close>: the addresses
  \<open>ws\<close> form a ring.  \<open>dll h a xs\<close>: the list with anchor \<open>a\<close> holds the elements \<open>xs\<close>.
\<close>

fun chain :: "'a links \<Rightarrow> 'a list \<Rightarrow> bool" where
  "chain h [] = True"
| "chain h [x] = True"
| "chain h (x # y # ws) = (nxt h x = Some y \<and> prv h y = Some x \<and> chain h (y # ws))"

definition circ :: "'a links \<Rightarrow> 'a list \<Rightarrow> bool" where
  "circ h ws \<longleftrightarrow> ws \<noteq> [] \<and> chain h (ws @ [hd ws])"

definition dll :: "'a links \<Rightarrow> 'a \<Rightarrow> 'a list \<Rightarrow> bool" where
  "dll h a xs \<longleftrightarrow> distinct (a # xs) \<and> circ h (a # xs)"

definition off_list :: "'a links \<Rightarrow> 'a \<Rightarrow> bool" where
  "off_list h e \<longleftrightarrow> prv h e = None \<and> nxt h e = None"

lemma link_simps [simp]:
  "prv (set_prv e p h) x = (if x = e then p else prv h x)"
  "nxt (set_prv e p h) x = nxt h x"
  "nxt (set_nxt e p h) x = (if x = e then p else nxt h x)"
  "prv (set_nxt e p h) x = prv h x"
  by (simp_all add: set_prv_def set_nxt_def)

lemma chain_split: "chain h (xs @ m # ys) \<longleftrightarrow> chain h (xs @ [m]) \<and> chain h (m # ys)"
proof (induction xs)
  case (Cons x xs)
  then show ?case by (cases xs) auto
qed simp

lemma chain_cong:
  assumes "chain h ws" "\<And>x. x \<in> set (butlast ws) \<Longrightarrow> nxt h' x = nxt h x"
    "\<And>x. x \<in> set (tl ws) \<Longrightarrow> prv h' x = prv h x"
  shows "chain h' ws"
  using assms
proof (induction h ws rule: chain.induct)
  case (3 h x y ws)
  then show ?case by (cases ws) auto
qed auto

lemma chain_two: "chain h (xs @ [x, y]) \<longleftrightarrow> chain h (xs @ [x]) \<and> nxt h x = Some y \<and> prv h y = Some x"
  using chain_split [of h xs x "[y]"] by simp

lemma circ_iff: "circ h (x # ws) \<longleftrightarrow>
    chain h (x # ws) \<and> nxt h (last (x # ws)) = Some x \<and> prv h x = Some (last (x # ws))"
proof (cases ws rule: rev_cases)
  case (snoc us y)
  then show ?thesis
    using chain_two [of h "x # us" y x] by (auto simp: circ_def)
qed (auto simp: circ_def)

lemma circ_rotate: "circ h (us @ vs) \<Longrightarrow> circ h (vs @ us)"
proof (cases us)
  case (Cons u us')
  assume c: "circ h (us @ vs)"
  show ?thesis
  proof (cases vs)
    case Nil
    with c show ?thesis by simp
  next
    fix v vs' assume vs: "vs = v # vs'"
    from c Cons vs have "chain h ((u # us') @ v # (vs' @ [u]))" by (simp add: circ_def)
    then have "chain h ((u # us') @ [v])" "chain h ((v # vs') @ [u])"
      using chain_split [of h "u # us'" v "vs' @ [u]"] by simp_all
    then have "chain h ((v # vs') @ u # (us' @ [v]))"
      using chain_split [of h "v # vs'" u "us' @ [v]"] by simp
    with Cons vs show ?thesis by (simp add: circ_def)
  qed
qed simp

lemma circ_ends: "circ h ws \<Longrightarrow> nxt h (last ws) = Some (hd ws) \<and> prv h (hd ws) = Some (last ws)"
  by (cases ws) (simp_all add: circ_iff, simp add: circ_def)

lemma circ_chain: "circ h ws \<Longrightarrow> chain h ws"
  by (cases ws) (simp_all add: circ_iff)

lemma circI: "ws \<noteq> [] \<Longrightarrow> chain h ws \<Longrightarrow> nxt h (last ws) = Some (hd ws) \<Longrightarrow>
    prv h (hd ws) = Some (last ws) \<Longrightarrow> circ h ws"
  by (cases ws) (simp_all add: circ_iff)

lemma circ_member: "circ h ws \<Longrightarrow> x \<in> set ws \<Longrightarrow> nxt h x \<noteq> None \<and> prv h x \<noteq> None"
proof -
  assume c: "circ h ws" and "x \<in> set ws"
  then obtain us vs where "ws = us @ x # vs" by (meson split_list)
  with c circ_rotate [of h us "x # vs"] have "circ h ((x # vs) @ us)" by simp
  from circ_ends [OF this] circ_chain [OF this] show ?thesis
    by (cases "vs @ us") auto
qed

lemma onList_member: "circ h ws \<Longrightarrow> x \<in> set ws \<Longrightarrow> onList h x = Some True"
  using circ_member [of h ws x] by (auto simp: onList_def)

lemma onList_off: "off_list h e \<Longrightarrow> onList h e = Some False"
  by (simp add: onList_def off_list_def)

text \<open>Removing a run of a ring, and closing a ring around a run.\<close>

lemma in_butlast_distinct: "distinct ws \<Longrightarrow> x \<in> set (butlast ws) \<Longrightarrow> x \<noteq> last ws"
  by (cases ws rule: rev_cases) auto

lemma in_tl_distinct: "distinct ws \<Longrightarrow> x \<in> set (tl ws) \<Longrightarrow> x \<noteq> hd ws"
  by (cases ws) auto

lemma disjoint_ends: "xs \<noteq> [] \<Longrightarrow> set xs \<inter> set ys = {} \<Longrightarrow> last xs \<notin> set ys \<and> hd xs \<notin> set ys"
  using hd_in_set [of xs] last_in_set [of xs] by (simp add: disjoint_iff)

lemma circ_cut:
  assumes "circ h (fs @ us)" "fs \<noteq> []" "us \<noteq> []" "distinct (fs @ us)"
  defines "h' \<equiv> set_nxt (last fs) None (set_prv (hd fs) None
     (set_prv (hd us) (Some (last us)) (set_nxt (last us) (Some (hd us)) h)))"
  shows "circ h' us" "chain h' fs" "prv h (hd fs) = Some (last us)" "nxt h (last fs) = Some (hd us)"
proof -
  obtain u us' where us: "us = u # us'" using assms(3) by (cases us) auto
  obtain f fs' where fs: "fs = f # fs'" using assms(2) by (cases fs) auto
  have "chain h (fs @ u # us')" using circ_chain [OF assms(1)] us by simp
  then have ch: "chain h (fs @ [u])" "chain h us"
    using us chain_split [of h fs u us'] by auto
  obtain gs g where gs: "fs = gs @ [g]" using assms(2) by (cases fs rule: rev_cases) auto
  have g: "nxt h g = Some u" "prv h u = Some g" "chain h fs"
    using ch(1) gs chain_two [of h gs g u] by auto
  show "prv h (hd fs) = Some (last us)"
    using circ_ends [OF assms(1)] assms(2,3) by simp
  show "nxt h (last fs) = Some (hd us)"
    using g(1) gs us by simp
  have neq: "last fs \<notin> set us" "hd fs \<notin> set us" "last us \<notin> set fs" "hd us \<notin> set fs"
    using disjoint_ends [of us fs] disjoint_ends [of fs us] assms(2-4) by auto
  have ne: "last us \<noteq> last fs" "hd us \<noteq> hd fs" "last fs \<noteq> last us" "hd fs \<noteq> hd us"
    using neq(3,4) hd_in_set [OF assms(2)] last_in_set [OF assms(2)] by auto
  have "chain h' us"
    by (rule chain_cong [OF ch(2)])
      (use neq assms(3,4) in_butlast_distinct [of us] in_tl_distinct [of us] in
        \<open>auto simp: h'_def dest: in_set_butlastD list.set_sel(2)\<close>)
  then show "circ h' us"
    using ne assms(3) by (intro circI) (auto simp: h'_def)
  show "chain h' fs"
    by (rule chain_cong [OF g(3)])
      (use neq assms(2,4) in_butlast_distinct [of fs] in_tl_distinct [of fs] in
        \<open>auto simp: h'_def dest: in_set_butlastD list.set_sel(2)\<close>)
qed

lemma circ_join:
  assumes "circ h us" "chain h fs" "fs \<noteq> []" "distinct (us @ fs)"
    and h': "\<And>x. nxt h' x = (if x = last us then Some (hd fs) else if x = last fs then Some (hd us) else nxt h x)"
      "\<And>x. prv h' x = (if x = hd fs then Some (last us) else if x = hd us then Some (last fs) else prv h x)"
  shows "circ h' (us @ fs)"
proof -
  have us: "us \<noteq> []" using assms(1) by (simp add: circ_def)
  have neq: "last fs \<notin> set us" "hd fs \<notin> set us" "last us \<notin> set fs" "hd us \<notin> set fs"
    using disjoint_ends [of us fs] disjoint_ends [of fs us] assms(3,4) us by auto
  have ne: "last us \<noteq> last fs" "hd us \<noteq> hd fs" "last fs \<noteq> last us" "hd fs \<noteq> hd us"
    using neq(3,4) hd_in_set [OF assms(3)] last_in_set [OF assms(3)] by auto
  have "chain h' us"
    by (rule chain_cong [OF circ_chain [OF assms(1)]])
      (use neq assms(4) us in_butlast_distinct [of us] in_tl_distinct [of us] in
        \<open>auto simp: h' dest: in_set_butlastD list.set_sel(2)\<close>)
  moreover have "chain h' fs"
    by (rule chain_cong [OF assms(2)])
      (use neq assms(3,4) in_butlast_distinct [of fs] in_tl_distinct [of fs] in
        \<open>auto simp: h' dest: in_set_butlastD list.set_sel(2)\<close>)
  moreover obtain ws w where ws: "us = ws @ [w]" using us by (cases us rule: rev_cases) auto
  moreover obtain f fs' where fs: "fs = f # fs'" using assms(3) by (cases fs) auto
  ultimately have "chain h' (us @ fs)"
    using chain_two [of h' ws w f] chain_split [of h' us f fs'] h' neq by auto
  then show ?thesis
    using us assms(3) ne by (intro circI) (auto simp: h')
qed

section \<open>The list operations on rings\<close>

lemma ring_insert_range:
  assumes "circ h us" "chain h fs" "fs \<noteq> []" "distinct (us @ fs)"
    "prv h (hd fs) = None" "nxt h (last fs) = None"
  shows "\<exists>h'. insert_range_after h (last us) (hd fs) (last fs) = Some h' \<and> circ h' (us @ fs)"
proof -
  have us: "us \<noteq> []" using assms(1) by (simp add: circ_def)
  have on: "onList h (last us) = Some True" using onList_member [OF assms(1)] us by simp
  define h' where "h' = set_prv (hd fs) (Some (last us)) (set_nxt (last us) (Some (hd fs))
    (set_nxt (last fs) (Some (hd us)) (set_prv (hd us) (Some (last fs)) h)))"
  have "insert_range_after h (last us) (hd fs) (last fs) = Some h'"
    using on circ_ends [OF assms(1)] assms(5,6) by (simp add: insert_range_after_def h'_def Let_def)
  moreover have "circ h' (us @ fs)"
    by (rule circ_join [OF assms(1-4)]) (simp_all add: h'_def)
  ultimately show ?thesis by blast
qed

lemma ring_insert_after:
  assumes "circ h us" "distinct us" "e \<notin> set us" "off_list h e"
  shows "\<exists>h'. insert_after h (last us) e = Some h' \<and> circ h' (us @ [e])"
proof -
  have us: "us \<noteq> []" using assms(1) by (simp add: circ_def)
  have on: "onList h (last us) = Some True" using onList_member [OF assms(1)] us by simp
  define h' where "h' = set_prv e (Some (last us)) (set_nxt (last us) (Some e)
    (set_nxt e (Some (hd us)) (set_prv (hd us) (Some e) h)))"
  have "insert_after h (last us) e = Some h'"
    using on onList_off [OF assms(4)] circ_ends [OF assms(1)] assms(4)
    by (simp add: insert_after_def h'_def Let_def)
  moreover have "circ h' (us @ [e])"
    by (rule circ_join [OF assms(1)]) (use assms in \<open>simp_all add: h'_def\<close>)
  ultimately show ?thesis by blast
qed

lemma ring_insert_before:
  assumes "circ h us" "distinct us" "e \<notin> set us" "off_list h e"
  shows "\<exists>h'. insert_before h (hd us) e = Some h' \<and> circ h' (us @ [e])"
proof -
  have us: "us \<noteq> []" using assms(1) by (simp add: circ_def)
  have ne: "e \<noteq> hd us" "e \<noteq> last us" using assms(3) us by auto
  have on: "onList h (hd us) = Some True" using onList_member [OF assms(1)] us by simp
  define h' where "h' = set_nxt e (Some (hd us)) (set_prv (hd us) (Some e)
    (set_prv e (Some (last us)) (set_nxt (last us) (Some e) h)))"
  have "insert_before h (hd us) e = Some h'"
    using on onList_off [OF assms(4)] circ_ends [OF assms(1)] assms(4)
    by (simp add: insert_before_def h'_def Let_def)
  moreover have "circ h' (us @ [e])"
    by (rule circ_join [OF assms(1)]) (use assms ne in \<open>simp_all add: h'_def\<close>)
  ultimately show ?thesis by blast
qed

lemma ring_remove_range:
  assumes "circ h (fs @ us)" "fs \<noteq> []" "us \<noteq> []" "distinct (fs @ us)"
    "remove_loop h fence (hd fs) 0 count = Some (last fs, count')"
  shows "\<exists>h'. el_remove_range h fence (hd fs) count = Some (h', last fs, count') \<and> circ h' us \<and> chain h' fs
    \<and> prv h' (hd fs) = None \<and> nxt h' (last fs) = None"
proof -
  note C = circ_cut [OF assms(1-4)]
  have on: "onList h (hd fs) = Some True" using onList_member [OF assms(1)] assms(2) by simp
  have "last fs \<noteq> last us" using assms(2-4) disjoint_ends [of fs us] last_in_set [OF assms(3)] by auto
  then show ?thesis
    using on C assms(5) by (simp add: el_remove_range_def Let_def)
qed

lemma ring_remove:
  assumes "circ h (e # us)" "us \<noteq> []" "distinct (e # us)"
  shows "\<exists>h'. el_remove h e = Some (h', e) \<and> circ h' us \<and> off_list h' e"
proof -
  have "circ h ([e] @ us)" "distinct ([e] @ us)" using assms(1,3) by simp_all
  note C = circ_cut [OF this(1) _ assms(2) this(2)]
  have on: "onList h e = Some True" using onList_member [OF assms(1)] by simp
  have "e \<noteq> last us" using assms(2,3) last_in_set [OF assms(2)] by auto
  then show ?thesis
    using on C by (simp add: el_remove_def Let_def off_list_def)
qed

section \<open>The list operations on lists\<close>

lemma dll_ends:
  assumes "dll h a xs"
  shows "nxt h a = Some (hd (xs @ [a]))" "prv h a = Some (last (a # xs))"
    "circ h (xs @ [a])" "el_empty h a \<longleftrightarrow> xs = []"
proof -
  have c: "circ h ([a] @ xs)" using assms by (simp add: dll_def)
  from circ_rotate [OF c] show r: "circ h (xs @ [a])" by simp
  show "nxt h a = Some (hd (xs @ [a]))" using circ_ends [OF r] by simp
  show "prv h a = Some (last (a # xs))" using circ_ends [OF c] by simp
  show "el_empty h a \<longleftrightarrow> xs = []"
    using circ_ends [OF r] assms by (cases xs) (auto simp: el_empty_def dll_def)
qed

lemma dll_push_back:
  assumes "dll h a xs" "e \<notin> set (a # xs)" "off_list h e"
  shows "\<exists>h'. push_back h a e = Some h' \<and> dll h' a (xs @ [e])"
  using ring_insert_after [of h "a # xs" e] assms dll_ends(2) [OF assms(1)]
  by (auto simp: push_back_def dll_def)

lemma dll_push_front:
  assumes "dll h a xs" "e \<notin> set (a # xs)" "off_list h e"
  shows "\<exists>h'. push_front h a e = Some h' \<and> dll h' a (e # xs)"
  using ring_insert_before [of h "xs @ [a]" e] assms dll_ends(1,3) [OF assms(1)]
    circ_rotate [of _ xs "[a, e]"]
  by (auto simp: push_front_def dll_def)

lemma dll_remove:
  assumes "dll h a (ys @ e # zs)"
  shows "\<exists>h'. el_remove h e = Some (h', e) \<and> dll h' a (ys @ zs) \<and> off_list h' e"
proof -
  have "circ h ((a # ys) @ (e # zs))" using assms by (simp add: dll_def)
  from circ_rotate [OF this] have "circ h (e # (zs @ a # ys))" by simp
  moreover have "distinct (e # (zs @ a # ys))" using assms by (auto simp: dll_def)
  ultimately obtain h' where "el_remove h e = Some (h', e)" "circ h' (zs @ a # ys)" "off_list h' e"
    using ring_remove [of h e "zs @ a # ys"] by auto
  moreover have "circ h' ((a # ys) @ zs)" using circ_rotate [OF calculation(2)] .
  ultimately show ?thesis using assms by (auto simp: dll_def)
qed

lemma dll_pop_front:
  assumes "dll h a (x # xs)"
  shows "\<exists>h'. pop_front h a = Some (h', x) \<and> dll h' a xs \<and> off_list h' x"
  using dll_remove [of h a "[]" x xs] dll_ends(1,4) [OF assms] assms by (auto simp: pop_front_def)

lemma dll_pop_back:
  assumes "dll h a (xs @ [x])"
  shows "\<exists>h'. pop_back h a = Some (h', x) \<and> dll h' a xs \<and> off_list h' x"
  using dll_remove [of h a xs x "[]"] dll_ends(2,4) [OF assms] assms by (auto simp: pop_back_def)

lemma chain_nth: "chain h ws \<Longrightarrow> Suc i < length ws \<Longrightarrow> nxt h (ws ! i) = Some (ws ! Suc i)"
proof (induction h ws arbitrary: i rule: chain.induct)
  case (3 h x y ws)
  then show ?case by (cases i) auto
qed auto

lemma dll_next:
  assumes "dll h a xs" "i < length xs"
  shows "nxt h (xs ! i) = Some (if Suc i = length xs then a else xs ! Suc i)"
    "(if Suc i = length xs then a else xs ! Suc i) = a \<longleftrightarrow> Suc i = length xs"
proof -
  have "chain h (a # xs @ [a])" using assms(1) by (simp add: dll_def circ_def)
  from chain_nth [OF this, of "Suc i"] assms(2)
  show "nxt h (xs ! i) = Some (if Suc i = length xs then a else xs ! Suc i)"
    by (auto simp: nth_append)
  show "(if Suc i = length xs then a else xs ! Suc i) = a \<longleftrightarrow> Suc i = length xs"
    using assms by (auto simp: dll_def)
qed

lemma remove_loop_spec:
  assumes "dll h a xs" "i < length xs" "i \<le> count"
  shows "remove_loop h a (xs ! i) i count
    = Some (xs ! min count (length xs - 1), min count (length xs - 1))"
  using assms(2,3)
proof (induction "count - i" arbitrary: i)
  case 0
  then show ?case by (simp add: remove_loop.simps min_def)
next
  case (Suc m)
  note N = dll_next [OF assms(1) Suc.prems(1)]
  have lt: "i < count" using Suc.hyps(2) by linarith
  show ?case
  proof (cases "Suc i = length xs")
    case True
    then have "remove_loop h a (xs ! i) i count = Some (xs ! i, i)"
      using lt N(1) by (simp add: remove_loop.simps [of h a "xs ! i"])
    moreover have "min count (length xs - 1) = i" using True Suc.prems(2) by simp
    ultimately show ?thesis by simp
  next
    case False
    have "remove_loop h a (xs ! i) i count = remove_loop h a (xs ! Suc i) (Suc i) count"
      using lt N False by (simp add: remove_loop.simps [of h a "xs ! i"])
    with Suc.hyps False Suc.prems show ?thesis by simp
  qed
qed

lemma dll_split_front:
  assumes "dll h a xs" "xs \<noteq> []"
  shows "\<exists>h'. split_front h a count = Some (h', last (take (Suc count) xs), min count (length xs - 1))
    \<and> dll h' a (drop (Suc count) xs) \<and> chain h' (take (Suc count) xs)
    \<and> prv h' (hd xs) = None \<and> nxt h' (last (take (Suc count) xs)) = None"
proof -
  let ?fs = "take (Suc count) xs" and ?us = "drop (Suc count) xs @ [a]"
  have c: "circ h (?fs @ ?us)" using dll_ends(3) [OF assms(1)] by (simp add: append_assoc [symmetric])
  have d: "distinct (?fs @ ?us)" using assms(1) by (auto simp: append_assoc [symmetric] dll_def simp del: append_assoc)
  have fs: "?fs \<noteq> []" "hd ?fs = hd xs" using assms(2) by (cases xs; simp)+
  have "last ?fs = xs ! min count (length xs - 1)"
  proof -
    have "min (length xs) (Suc count) - Suc 0 = min count (length xs - Suc 0)"
      using assms(2) by (cases xs) auto
    then show ?thesis using assms(2) by (simp add: last_conv_nth)
  qed
  with remove_loop_spec [OF assms(1), of 0 count] assms(2)
  have "remove_loop h a (hd ?fs) 0 count = Some (last ?fs, min count (length xs - 1))"
    unfolding fs(2) by (simp add: hd_conv_nth)
  from ring_remove_range [OF c fs(1) _ d this] obtain h' where
    h': "el_remove_range h a (hd xs) count = Some (h', last ?fs, min count (length xs - 1))"
      "circ h' ?us" "chain h' ?fs" "prv h' (hd xs) = None" "nxt h' (last ?fs) = None"
    unfolding fs(2) by auto
  have "split_front h a count = Some (h', last ?fs, min count (length xs - 1))"
    using h'(1) dll_ends(1,4) [OF assms(1)] assms(2) by (simp add: split_front_def)
  moreover have "dll h' a (drop (Suc count) xs)"
    using circ_rotate [OF h'(2)] assms(1) by (auto simp: dll_def dest: in_set_dropD)
  ultimately show ?thesis using h' by blast
qed

section \<open>Properties\<close>

text \<open>
  C31: the embedded list refines a finite sequence: pushing at either end, popping at
  either end and removing an arbitrary element do on the store of link fields what
  they do on sequences, removed elements are left with null links, and popping an
  empty list is the only failure.
\<close>

theorem embedded_list_refines:
  assumes "dll h a xs"
  shows "(e \<notin> set (a # xs) \<and> off_list h e \<longrightarrow>
      (\<exists>h'. push_back h a e = Some h' \<and> dll h' a (xs @ [e])) \<and>
      (\<exists>h'. push_front h a e = Some h' \<and> dll h' a (e # xs)))
    \<and> (if xs = [] then pop_front h a = None \<and> pop_back h a = None
       else (\<exists>h'. pop_front h a = Some (h', hd xs) \<and> dll h' a (tl xs) \<and> off_list h' (hd xs)) \<and>
         (\<exists>h'. pop_back h a = Some (h', last xs) \<and> dll h' a (butlast xs) \<and> off_list h' (last xs)))
    \<and> (x \<in> set xs \<longrightarrow> (\<exists>h'. el_remove h x = Some (h', x) \<and> dll h' a (remove1 x xs) \<and> off_list h' x))"
proof (intro conjI impI)
  assume e: "e \<notin> set (a # xs) \<and> off_list h e"
  then show "\<exists>h'. push_back h a e = Some h' \<and> dll h' a (xs @ [e])"
    "\<exists>h'. push_front h a e = Some h' \<and> dll h' a (e # xs)"
    using dll_push_back [OF assms] dll_push_front [OF assms] by auto
next
  show "if xs = [] then pop_front h a = None \<and> pop_back h a = None
       else (\<exists>h'. pop_front h a = Some (h', hd xs) \<and> dll h' a (tl xs) \<and> off_list h' (hd xs)) \<and>
         (\<exists>h'. pop_back h a = Some (h', last xs) \<and> dll h' a (butlast xs) \<and> off_list h' (last xs))"
  proof (cases "xs = []")
    case True
    then show ?thesis using dll_ends(4) [OF assms] by (simp add: pop_front_def pop_back_def)
  next
    case False
    then show ?thesis
      using dll_pop_front [of h a "hd xs" "tl xs"] dll_pop_back [of h a "butlast xs" "last xs"] assms
      by simp
  qed
next
  assume "x \<in> set xs"
  then obtain ys zs where "xs = ys @ x # zs" "x \<notin> set ys" by (meson split_list_first)
  with dll_remove [of h a ys x zs] assms
  show "\<exists>h'. el_remove h x = Some (h', x) \<and> dll h' a (remove1 x xs) \<and> off_list h' x"
    by (simp add: remove1_append)
qed

theorem embedded_list_refines_witness:
  "\<exists>h'. push_back (el_init \<lparr>prv = \<lambda>_. None, nxt = \<lambda>_. None\<rparr> 0) 0 (7 :: nat) = Some h' \<and> dll h' 0 [7]"
proof -
  have "dll (el_init \<lparr>prv = \<lambda>_. None, nxt = \<lambda>_. None\<rparr> 0) (0 :: nat) []"
    by (simp add: dll_def circ_def el_init_def)
  moreover have "off_list (el_init \<lparr>prv = \<lambda>_. None, nxt = \<lambda>_. None\<rparr> 0) (7 :: nat)"
    by (simp add: off_list_def el_init_def)
  ultimately show ?thesis
    using embedded_list_refines [of _ "0 :: nat" "[]" 7] by fastforce
qed

text \<open>
  \<open>split_front(count)\<close> takes one element more than \<open>count\<close> off the front of the list (as
  far as there are that many) and lowers \<open>count\<close> to at most the length minus one, so
  a caller that asks for one element gets two.
\<close>

theorem split_front_takes_one_more:
  assumes "dll h a xs" "xs \<noteq> []"
  shows "\<exists>h'. split_front h a count = Some (h', last (take (Suc count) xs), min count (length xs - 1))
    \<and> dll h' a (drop (Suc count) xs) \<and> chain h' (take (Suc count) xs)"
  using dll_split_front [OF assms, of count] by blast

theorem split_front_takes_one_more_witness:
  "\<exists>h'. split_front \<lparr>prv = [0 \<mapsto> 9, 7 \<mapsto> 0, 8 \<mapsto> 7, 9 \<mapsto> 8], nxt = [0 \<mapsto> 7, 7 \<mapsto> 8, 8 \<mapsto> 9, 9 \<mapsto> (0 :: nat)]\<rparr> 0 1
     = Some (h', 8, 1) \<and> dll h' 0 [9]"
proof -
  have "dll \<lparr>prv = [0 \<mapsto> 9, 7 \<mapsto> 0, 8 \<mapsto> 7, 9 \<mapsto> 8], nxt = [0 \<mapsto> 7, 7 \<mapsto> 8, 8 \<mapsto> 9, 9 \<mapsto> (0 :: nat)]\<rparr> 0 [7, 8, 9]"
    by (simp add: dll_def circ_def)
  from split_front_takes_one_more [OF this, of 1] show ?thesis by (auto simp: numeral_2_eq_2)
qed

text \<open>
  \<open>EmbeddedQueue::pop\<close> leaves the next pointer of the element it returns, and \<open>push\<close>
  does not reset it: popping one element and pushing it back makes the tail of the
  queue point to its new head, so the queue never ends.
\<close>

theorem equeue_repush_cycle:
  assumes "nxt h x = Some y" "nxt h y = None" "x \<noteq> y"
    "eq_pop h \<lparr>eq_head = Some x, eq_tail = Some y\<rparr> 0 = Some (q, e)" "eq_push h q e = Some (h', q')"
  shows "e = x \<and> eq_head q' = Some y \<and> eq_tail q' = Some x \<and> nxt h' y = Some x \<and> nxt h' x = Some y"
  using assms by (auto simp: eq_pop_def eq_empty_def eq_push_def Let_def split: if_splits)

theorem equeue_repush_cycle_witness:
  "\<exists>q' h'. eq_push \<lparr>prv = Map.empty, nxt = [1 \<mapsto> (2 :: nat)]\<rparr> \<lparr>eq_head = Some 2, eq_tail = Some 2\<rparr> 1 = Some (h', q')
     \<and> nxt h' 2 = Some 1 \<and> nxt h' 1 = Some 2"
proof -
  let ?h = "\<lparr>prv = Map.empty, nxt = [1 \<mapsto> (2 :: nat)]\<rparr>"
  have "eq_pop ?h \<lparr>eq_head = Some 1, eq_tail = Some 2\<rparr> 0 = Some (\<lparr>eq_head = Some 2, eq_tail = Some 2\<rparr>, 1)"
    by (simp add: eq_pop_def eq_empty_def Let_def)
  moreover obtain h' q' where "eq_push ?h \<lparr>eq_head = Some 2, eq_tail = Some 2\<rparr> 1 = Some (h', q')"
    by (simp add: eq_push_def)
  ultimately show ?thesis
    using equeue_repush_cycle [of ?h 1 2] by fastforce
qed

end
