(* ===== verification/ManagedArrays.thy ===== *)
theory ManagedArrays
  imports Prelude
begin

text \<open>
  \<open>generic/ManagedArray.h\<close>: a growing array that threads its unused fields into a free
  stack.  A field is either an element, the link of a free field (the class overlays both
  on the same storage), or storage nothing was written to.  The allocator belongs to the
  environment: \<open>alloc_ok n\<close> says whether it returns memory for \<open>n\<close> fields.
\<close>

section \<open>The class\<close>

datatype 'a slot = Elem 'a | FreeLink "nat option" | Raw

record 'a marray =
  data :: "'a slot list"
  freestack :: "nat option"
  index :: nat
  capacity :: nat
  freecount :: nat
  checkbits :: "bool list"

definition MA_init :: "nat \<Rightarrow> 'a marray" where
  "MA_init n = \<lparr>data = replicate n Raw, freestack = None, index = 0, capacity = n,
     freecount = 0, checkbits = replicate n False\<rparr>"

definition internalSet :: "'a marray \<Rightarrow> nat \<Rightarrow> 'a \<Rightarrow> 'a marray option" where
  "internalSet m idx elem =
    (if idx < length (checkbits m) \<and> idx < length (data m)
     then Some (m\<lparr>checkbits := (checkbits m)[idx := True], data := (data m)[idx := Elem elem]\<rparr>)
     else None)"

definition internalRemove :: "'a marray \<Rightarrow> nat \<Rightarrow> 'a marray" where
  "internalRemove m idx =
    m\<lparr>data := (data m)[idx := FreeLink (freestack m)], freestack := Some idx,
      freecount := freecount m + 1\<rparr>"

definition MA_valid :: "'a marray \<Rightarrow> nat \<Rightarrow> bool" where
  "MA_valid m idx \<longleftrightarrow> idx < index m \<and> checkbits m ! idx"

definition MA_clear :: "'a marray \<Rightarrow> nat \<Rightarrow> bool" where
  "MA_clear m idx \<longleftrightarrow> idx < index m \<and> \<not> checkbits m ! idx"

definition MA_size :: "'a marray \<Rightarrow> nat" where
  "MA_size m = index m - freecount m"

definition MA_empty :: "'a marray \<Rightarrow> bool" where
  "MA_empty m \<longleftrightarrow> MA_size m = 0"

text \<open>\<open>vector<bool>::resize(n, false)\<close>.\<close>

definition resize :: "nat \<Rightarrow> bool list \<Rightarrow> bool list" where
  "resize n bs = take n bs @ replicate (n - length bs) False"

function reserveIndex :: "(nat \<Rightarrow> bool) \<Rightarrow> 'a marray \<Rightarrow> ('a marray \<times> nat) option" where
  "reserveIndex alloc_ok m =
    (case freestack m of
       Some idx \<Rightarrow>
         (case data m ! idx of
            FreeLink nx \<Rightarrow> do {
              kassert (\<not> checkbits m ! idx);
              Some (m\<lparr>freestack := nx, freecount := freecount m - 1\<rparr>, idx) }
          | _ \<Rightarrow> None)
     | None \<Rightarrow>
         if capacity m > index m
         then do {
           kassert (\<not> checkbits m ! index m);
           Some (m\<lparr>index := index m + 1\<rparr>, index m) }
         else
           let newCapacity = (if capacity m \<noteq> 0 then capacity m * 2 else 1);
               m1 = m\<lparr>checkbits := resize newCapacity (checkbits m)\<rparr>
           in if \<not> alloc_ok newCapacity then Some (m1, 2 ^ 64 - 1)
              else reserveIndex alloc_ok
                (m1\<lparr>data := take (capacity m) (data m) @ replicate (newCapacity - capacity m) Raw,
                    capacity := newCapacity\<rparr>))"
  by pat_completeness auto
termination
  by (relation "measure (\<lambda>(_, m). index m + 1 - capacity m)") auto

declare reserveIndex.simps [simp del]

definition MA_set :: "'a marray \<Rightarrow> nat \<Rightarrow> 'a \<Rightarrow> 'a marray option" where
  "MA_set m idx elem = do { kassert (MA_clear m idx); internalSet m idx elem }"

definition MA_put :: "(nat \<Rightarrow> bool) \<Rightarrow> 'a marray \<Rightarrow> 'a \<Rightarrow> ('a marray \<times> nat) option" where
  "MA_put alloc_ok m elem = do {
     (m1, idx) \<leftarrow> reserveIndex alloc_ok m;
     m2 \<leftarrow> internalSet m1 idx elem;
     Some (m2, idx) }"

text \<open>Reading a field as an element has no defined result for the other two kinds.\<close>

definition read_elem :: "'a marray \<Rightarrow> nat \<Rightarrow> 'a option" where
  "read_elem m idx = (case data m ! idx of Elem x \<Rightarrow> Some x | _ \<Rightarrow> None)"

definition MA_get :: "'a marray \<Rightarrow> nat \<Rightarrow> 'a option" where
  "MA_get m idx = do { kassert (MA_valid m idx); read_elem m idx }"

definition invalidate :: "'a marray \<Rightarrow> nat \<Rightarrow> 'a marray option" where
  "invalidate m idx = do {
     kassert (MA_valid m idx);
     Some (m\<lparr>checkbits := (checkbits m)[idx := False]\<rparr>) }"

definition MA_release :: "'a marray \<Rightarrow> nat \<Rightarrow> 'a marray option" where
  "MA_release m idx = do { kassert (MA_clear m idx); Some (internalRemove m idx) }"

definition MA_remove :: "'a marray \<Rightarrow> nat \<Rightarrow> 'a marray option" where
  "MA_remove m idx = do { m1 \<leftarrow> invalidate m idx; Some (internalRemove m1 idx) }"

text \<open>The second \<open>get\<close> takes the element out: \<open>Some None\<close> is the result \<open>false\<close>.\<close>

definition MA_take :: "'a marray \<Rightarrow> nat \<Rightarrow> ('a marray \<times> 'a) option option" where
  "MA_take m idx =
    (if \<not> MA_valid m idx then Some None
     else do { x \<leftarrow> read_elem m idx; Some (Some (internalRemove m idx, x)) })"

section \<open>Invariant\<close>

text \<open>\<open>fchain d p fs\<close>: following the links from \<open>p\<close> visits the fields \<open>fs\<close>.\<close>

fun fchain :: "'a slot list \<Rightarrow> nat option \<Rightarrow> nat list \<Rightarrow> bool" where
  "fchain d p [] = (p = None)"
| "fchain d p (f # fs) =
    (p = Some f \<and> f < length d \<and> (case d ! f of FreeLink q \<Rightarrow> fchain d q fs | _ \<Rightarrow> False))"

definition MA_ok :: "'a marray \<Rightarrow> nat list \<Rightarrow> bool" where
  "MA_ok m fs \<longleftrightarrow>
    length (data m) = capacity m \<and> capacity m \<le> length (checkbits m) \<and> index m \<le> capacity m \<and>
    fchain (data m) (freestack m) fs \<and> distinct fs \<and> length fs = freecount m \<and>
    (\<forall>f \<in> set fs. f < index m \<and> \<not> checkbits m ! f) \<and>
    (\<forall>i < length (checkbits m). checkbits m ! i \<longrightarrow> i < index m \<and> (\<exists>x. data m ! i = Elem x))"

text \<open>The elements held, as a finite map from indices.\<close>

definition MA_map :: "'a marray \<Rightarrow> nat \<Rightarrow> 'a option" where
  "MA_map m i = (if MA_valid m i then read_elem m i else None)"

lemma fchain_update:
  "fchain d p fs \<Longrightarrow> i \<notin> set fs \<Longrightarrow> fchain (d[i := s]) p fs"
proof (induction fs arbitrary: p)
  case (Cons f fs)
  then show ?case by (auto split: slot.splits)
qed simp

lemma fchain_append: "fchain d p fs \<Longrightarrow> fchain (d @ e) p fs"
proof (induction fs arbitrary: p)
  case (Cons f fs)
  then show ?case by (auto simp: nth_append split: slot.splits)
qed simp

lemma resize_nth: "i < n \<Longrightarrow> resize n bs ! i = (i < length bs \<and> bs ! i)"
  by (auto simp: resize_def nth_append min_def)

lemma length_resize [simp]: "length (resize n bs) = n"
  by (simp add: resize_def)

lemma MA_okD:
  assumes "MA_ok m fs"
  shows "freestack m = Some f \<Longrightarrow> \<exists>q gs. fs = f # gs \<and> data m ! f = FreeLink q \<and> fchain (data m) q gs"
    "freestack m = None \<Longrightarrow> fs = []"
  using assms by (cases fs; auto simp: MA_ok_def split: slot.splits)+

lemma MA_map_cong:
  "index m' = index m \<Longrightarrow> checkbits m' = checkbits m \<Longrightarrow> data m' = data m \<Longrightarrow> MA_map m' = MA_map m"
  by (rule ext) (simp add: MA_map_def MA_valid_def read_elem_def)

text \<open>The three ways \<open>reserveIndex\<close> can go on a well-formed array.\<close>

definition grown :: "'a marray \<Rightarrow> nat \<Rightarrow> 'a marray" where
  "grown m n = m\<lparr>checkbits := resize n (checkbits m),
     data := take (capacity m) (data m) @ replicate (n - capacity m) Raw, capacity := n\<rparr>"

lemma grown_ok:
  assumes "MA_ok m []" "index m = capacity m" "capacity m < n"
  shows "MA_ok (grown m n) []" "MA_map (grown m n) = MA_map m" "capacity (grown m n) > index (grown m n)"
    "freestack (grown m n) = None" "index (grown m n) = index m"
proof -
  have len: "length (data m) = capacity m" "freestack m = None" "freecount m = 0" "capacity m \<le> length (checkbits m)"
    and bits: "\<And>i. i < length (checkbits m) \<Longrightarrow> checkbits m ! i \<Longrightarrow> i < index m \<and> (\<exists>x. data m ! i = Elem x)"
    using assms(1) by (auto simp: MA_ok_def)
  show "MA_ok (grown m n) []"
    using len bits assms(2,3) by (fastforce simp: MA_ok_def grown_def resize_nth nth_append)
  have "checkbits (grown m n) ! i = checkbits m ! i" "data (grown m n) ! i = data m ! i" if "i < index m" for i
    using that assms(2,3) len by (simp_all add: grown_def resize_nth nth_append)
  then show "MA_map (grown m n) = MA_map m"
    by (intro ext) (auto simp: MA_map_def MA_valid_def read_elem_def grown_def)
qed (use assms in \<open>simp_all add: grown_def MA_ok_def\<close>)

definition reserved :: "'a marray \<Rightarrow> 'a marray \<Rightarrow> nat \<Rightarrow> nat list \<Rightarrow> nat list \<Rightarrow> bool" where
  "reserved m m' idx fs fs' \<longleftrightarrow>
    MA_ok m' fs' \<and> MA_map m' = MA_map m \<and> MA_clear m' idx \<and> idx \<notin> set fs' \<and>
    (idx \<in> set fs \<or> idx = index m) \<and> set fs' \<subseteq> set fs"

lemma reserve_free:
  assumes "MA_ok m fs" "freestack m = Some f"
  shows "\<exists>m' fs'. reserveIndex alloc_ok m = Some (m', f) \<and> reserved m m' f fs fs'"
proof -
  obtain q gs where fs: "fs = f # gs" "data m ! f = FreeLink q" "fchain (data m) q gs"
    using MA_okD(1) [OF assms] by auto
  let ?m = "m\<lparr>freestack := q, freecount := freecount m - 1\<rparr>"
  have "reserveIndex alloc_ok m = Some (?m, f)"
    using assms fs(1,2) by (simp add: reserveIndex.simps MA_ok_def)
  moreover have "reserved m ?m f fs gs"
    using assms fs by (auto simp: reserved_def MA_ok_def MA_clear_def intro!: MA_map_cong)
  ultimately show ?thesis by blast
qed

lemma reserve_next:
  assumes "MA_ok m []" "freestack m = None" "index m < capacity m"
  shows "\<exists>m'. reserveIndex alloc_ok m = Some (m', index m) \<and> reserved m m' (index m) [] []"
proof -
  let ?m = "m\<lparr>index := index m + 1\<rparr>"
  have off: "\<not> checkbits m ! index m"
    using assms(1,3) unfolding MA_ok_def by (metis less_irrefl less_le_trans)
  have "reserveIndex alloc_ok m = Some (?m, index m)"
    using assms(2,3) off by (simp add: reserveIndex.simps)
  moreover have "MA_map ?m = MA_map m"
    using off by (intro ext) (auto simp: MA_map_def MA_valid_def read_elem_def less_Suc_eq)
  then have "reserved m ?m (index m) [] []"
    using assms off by (fastforce simp: reserved_def MA_ok_def MA_clear_def)
  ultimately show ?thesis by blast
qed

lemma reserve_spec:
  assumes "MA_ok m fs" "\<forall>n. alloc_ok n"
  shows "\<exists>m' idx fs'. reserveIndex alloc_ok m = Some (m', idx) \<and> reserved m m' idx fs fs'"
proof (cases "freestack m")
  case (Some f)
  with reserve_free [OF assms(1)] show ?thesis by blast
next
  case None
  then have fs: "fs = []" by (rule MA_okD(2) [OF assms(1)])
  show ?thesis
  proof (cases "index m < capacity m")
    case True
    with reserve_next [of m] assms(1) None fs show ?thesis by blast
  next
    case False
    define n where "n = (if capacity m \<noteq> 0 then capacity m * 2 else 1)"
    have n: "capacity m < n" "index m = capacity m"
      using False assms(1) by (auto simp: n_def MA_ok_def)
    have eq: "reserveIndex alloc_ok m = reserveIndex alloc_ok (grown m n)"
      using None False assms(2) by (simp add: reserveIndex.simps [of _ m] Let_def n_def grown_def)
    note G = grown_ok [OF assms(1) [unfolded fs] n(2,1)]
    from reserve_next [OF G(1,4,3)] G(2,5) fs show ?thesis
      unfolding eq by (auto simp: reserved_def)
  qed
qed

lemma internalSet_ok:
  assumes "MA_ok m fs" "MA_clear m idx" "idx \<notin> set fs"
  shows "\<exists>m'. internalSet m idx x = Some m' \<and> MA_ok m' fs \<and> MA_map m' = (MA_map m)(idx \<mapsto> x)"
proof -
  let ?m = "m\<lparr>checkbits := (checkbits m)[idx := True], data := (data m)[idx := Elem x]\<rparr>"
  have "idx < length (checkbits m)" "idx < length (data m)"
    using assms by (auto simp: MA_ok_def MA_clear_def)
  moreover from this have "MA_ok ?m fs"
    using assms by (auto simp: MA_ok_def MA_clear_def nth_list_update intro!: fchain_update)
  moreover have "MA_map ?m = (MA_map m)(idx \<mapsto> x)"
    using assms(2) calculation(1,2)
    by (intro ext) (auto simp: MA_map_def MA_valid_def MA_clear_def read_elem_def nth_list_update)
  ultimately show ?thesis by (simp add: internalSet_def)
qed

lemma put_spec:
  assumes "MA_ok m fs" "\<forall>n. alloc_ok n"
  shows "\<exists>m' idx fs'. MA_put alloc_ok m x = Some (m', idx) \<and> MA_ok m' fs' \<and>
    MA_map m idx = None \<and> MA_map m' = (MA_map m)(idx \<mapsto> x)"
proof -
  obtain m1 idx fs' where r: "reserveIndex alloc_ok m = Some (m1, idx)" "reserved m m1 idx fs fs'"
    using reserve_spec [OF assms] by blast
  then have "MA_map m idx = None"
    by (auto simp: reserved_def MA_map_def MA_clear_def MA_valid_def fun_eq_iff split: if_splits)
  with r internalSet_ok [of m1 fs' idx x] show ?thesis
    by (fastforce simp: reserved_def MA_put_def)
qed

lemma remove_spec:
  assumes "MA_ok m fs" "MA_valid m idx"
  shows "\<exists>m'. MA_remove m idx = Some m' \<and> MA_ok m' (idx # fs) \<and> MA_map m' = (MA_map m)(idx := None)"
proof -
  have idx: "idx < length (checkbits m)" "idx < length (data m)" "idx \<notin> set fs"
    using assms by (auto simp: MA_ok_def MA_valid_def)
  let ?m = "internalRemove (m\<lparr>checkbits := (checkbits m)[idx := False]\<rparr>) idx"
  have "MA_ok ?m (idx # fs)"
    using assms idx
    by (auto simp: MA_ok_def MA_valid_def internalRemove_def nth_list_update intro!: fchain_update)
  moreover have "MA_map ?m = (MA_map m)(idx := None)"
    using idx by (intro ext) (auto simp: MA_map_def MA_valid_def internalRemove_def read_elem_def nth_list_update)
  ultimately show ?thesis using assms(2) by (simp add: MA_remove_def invalidate_def)
qed

section \<open>The interface of an indexed store\<close>

locale slot_store =
  fixes sput :: "'s \<Rightarrow> 'a \<Rightarrow> ('s \<times> nat) option"
    and sget :: "'s \<Rightarrow> nat \<Rightarrow> 'a option"
    and sremove :: "'s \<Rightarrow> nat \<Rightarrow> 's option"
    and content :: "'s \<Rightarrow> nat \<Rightarrow> 'a option"
    and invar :: "'s \<Rightarrow> bool"
  assumes put_ok: "invar s \<Longrightarrow> \<exists>s' i. sput s x = Some (s', i) \<and> invar s' \<and> content s i = None
      \<and> content s' = (content s)(i \<mapsto> x)"
    and get_ok: "invar s \<Longrightarrow> sget s i = content s i"
    and remove_ok: "invar s \<Longrightarrow> content s i \<noteq> None \<Longrightarrow>
      \<exists>s'. sremove s i = Some s' \<and> invar s' \<and> content s' = (content s)(i := None)"
    and remove_none: "invar s \<Longrightarrow> content s i = None \<Longrightarrow> sremove s i = None"
begin

lemma put_get: "invar s \<Longrightarrow> sput s x = Some (s', i) \<Longrightarrow> sget s' i = Some x"
  using put_ok [of s x] get_ok [of s' i] by auto

lemma put_get_other: "invar s \<Longrightarrow> sput s x = Some (s', i) \<Longrightarrow> j \<noteq> i \<Longrightarrow> sget s' j = sget s j"
  using put_ok [of s x] get_ok [of s' j] get_ok [of s j] by auto

lemma put_fresh: "invar s \<Longrightarrow> sput s x = Some (s', i) \<Longrightarrow> sget s i = None"
  using put_ok [of s x] get_ok [of s i] by auto

lemma put_remove:
  assumes "invar s" "sput s x = Some (s', i)"
  shows "\<exists>s''. sremove s' i = Some s'' \<and> invar s'' \<and> content s'' = content s"
proof -
  from assms put_ok [of s x] have "invar s'" "content s i = None" "content s' = (content s)(i \<mapsto> x)" by auto
  with remove_ok [of s' i] show ?thesis by fastforce
qed

end

lemma MA_valid_elem: "MA_ok m fs \<Longrightarrow> MA_valid m i \<Longrightarrow> \<exists>x. data m ! i = Elem x"
  unfolding MA_ok_def MA_valid_def by (meson less_le_trans order_trans)

lemma MA_map_valid: "MA_ok m fs \<Longrightarrow> MA_map m i = None \<longleftrightarrow> \<not> MA_valid m i"
  using MA_valid_elem [of m fs i] by (auto simp: MA_map_def read_elem_def)

lemma MA_get_map: "MA_get m i = MA_map m i"
  by (simp add: MA_get_def MA_map_def)

text \<open>An allocator that always returns memory makes the managed array an indexed store.\<close>

interpretation marr: slot_store "MA_put (\<lambda>_. True)" MA_get MA_remove MA_map "\<lambda>m. \<exists>fs. MA_ok m fs"
proof (unfold_locales, goal_cases)
  case (1 s x)
  then show ?case using put_spec [of s _ "\<lambda>_. True" x] by blast
next
  case (3 s i)
  then obtain fs where ok: "MA_ok s fs" by blast
  with MA_map_valid [OF ok, of i] 3(2) have "MA_valid s i" by blast
  with remove_spec [OF ok] show ?case by blast
next
  case (4 s i)
  then obtain fs where ok: "MA_ok s fs" by blast
  with MA_map_valid [OF ok, of i] 4(2) have "\<not> MA_valid s i" by blast
  then show ?case by (simp add: MA_remove_def invalidate_def)
qed (simp add: MA_get_map)

section \<open>Properties\<close>

text \<open>
  C36: on a well-formed managed array with memory available, \<open>put\<close> stores the element at an
  index that held nothing, \<open>get\<close> of that index returns it, every other element stays
  where it was, and \<open>remove\<close> of the index gives back the old contents; the array is
  well formed after each step.
\<close>

theorem managed_array_put_get:
  fixes m :: "'a marray"
  assumes "MA_ok m fs"
  shows "\<exists>m' idx m''. MA_put (\<lambda>_. True) m x = Some (m', idx) \<and> MA_get m idx = None \<and>
    MA_get m' = (MA_get m)(idx \<mapsto> x) \<and> (\<exists>fs'. MA_ok m' fs') \<and>
    MA_remove m' idx = Some m'' \<and> MA_get m'' = MA_get m \<and> (\<exists>fs''. MA_ok m'' fs'')"
proof -
  have inv: "\<exists>fs. MA_ok m fs" using assms by blast
  obtain m' idx where p: "MA_put (\<lambda>_. True) m x = Some (m', idx)" "\<exists>fs'. MA_ok m' fs'"
      "MA_map m idx = None" "MA_map m' = (MA_map m)(idx \<mapsto> x)"
    using marr.put_ok [OF inv, of x] by blast
  have g: "MA_get n = MA_map n" for n :: "'a marray" by (intro ext) (rule MA_get_map)
  show ?thesis
    using p marr.put_remove [OF inv p(1)] unfolding g by auto
qed

theorem managed_array_put_get_witness:
  "\<exists>m' idx. MA_put (\<lambda>_. True) (MA_init 1) (5 :: nat) = Some (m', idx) \<and> MA_get m' idx = Some 5"
proof -
  have "MA_ok (MA_init 1 :: nat marray) []" by (simp add: MA_ok_def MA_init_def)
  from managed_array_put_get [OF this, of 5] show ?thesis by auto
qed

text \<open>
  an index returned by \<open>reserveIndex\<close> comes from the free stack or is the next unused one;
  it is inside the array, not marked, not on the free stack any more, and reserving
  it moves no element; growing the array is part of that.
\<close>

theorem reserveIndex_fresh:
  assumes "MA_ok m fs" "\<forall>n. alloc_ok n"
  shows "\<exists>m' idx fs'. reserveIndex alloc_ok m = Some (m', idx) \<and> MA_ok m' fs' \<and>
    idx < index m' \<and> MA_clear m' idx \<and> idx \<notin> set fs' \<and> (idx \<in> set fs \<or> idx = index m) \<and>
    MA_map m' = MA_map m"
  using reserve_spec [OF assms] by (fastforce simp: reserved_def MA_clear_def)

theorem reserveIndex_fresh_witness:
  "\<exists>m' fs'. reserveIndex (\<lambda>_. True) (MA_init 0 :: nat marray) = Some (m', 0) \<and> MA_ok m' fs'"
proof -
  have "MA_ok (MA_init 0 :: nat marray) []" by (simp add: MA_ok_def MA_init_def)
  from reserveIndex_fresh [OF this, of "\<lambda>_. True"] show ?thesis by (auto simp: MA_init_def)
qed

text \<open>
  the \<open>get\<close> that takes an element out puts its index on the free stack without clearing
  the check bit, so the next \<open>reserveIndex\<close> fails its assertion.
\<close>

theorem take_then_reserve_asserts:
  assumes "MA_ok m fs" "MA_valid m idx"
  shows "\<exists>m' x. MA_take m idx = Some (Some (m', x)) \<and> reserveIndex alloc_ok m' = None"
proof -
  obtain x where x: "data m ! idx = Elem x" using MA_valid_elem [OF assms] by blast
  have idx: "idx < length (data m)" "checkbits m ! idx"
    using assms by (auto simp: MA_ok_def MA_valid_def)
  have "MA_take m idx = Some (Some (internalRemove m idx, x))"
    using assms(2) x by (simp add: MA_take_def read_elem_def)
  moreover have "reserveIndex alloc_ok (internalRemove m idx) = None"
    using idx by (simp add: reserveIndex.simps internalRemove_def)
  ultimately show ?thesis by blast
qed

theorem take_then_reserve_asserts_witness:
  "\<exists>m' x. MA_take \<lparr>data = [Elem (5 :: nat)], freestack = None, index = 1, capacity = 1, freecount = 0,
      checkbits = [True]\<rparr> 0 = Some (Some (m', x)) \<and> reserveIndex (\<lambda>_. True) m' = None"
  using take_then_reserve_asserts [of "\<lparr>data = [Elem (5 :: nat)], freestack = None, index = 1, capacity = 1,
      freecount = 0, checkbits = [True]\<rparr>" "[]" 0 "\<lambda>_. True"]
  by (simp add: MA_ok_def MA_valid_def)

end
