(* ===== verification/Locks.thy ===== *)
theory Locks
  imports BitManip
begin

text \<open>
  The locks of \<open>machine/SpinLock.h\<close> and the lock count of \<open>machine/Processor.h\<close>.  The first
  part has the operations as functions on the state of one processor and one lock; the
  second part lets any number of processors execute them in atomic steps (one step per
  atomic access to the lock word), for spin locks nested in any way and for the ticket lock.
\<close>

section \<open>\<open>LocalProcessor\<close>\<close>

text \<open>\<open>intr\<close> is the processor's interrupt flag (\<open>CPU::interruptsEnabled\<close>).\<close>

record cpu =
  lockCount :: mword
  intr :: bool

definition cpu_init :: cpu where
  "cpu_init = \<lparr>lockCount = 1, intr = False\<rparr>"

definition lp_checkLock :: "cpu \<Rightarrow> mword option" where
  "lp_checkLock c = do { kassert (intr c = (lockCount c = 0)); Some (lockCount c) }"

definition lp_lockFake :: "cpu \<Rightarrow> cpu option" where
  "lp_lockFake c = do { kassert (\<not> intr c); Some (c\<lparr>lockCount := lockCount c + 1\<rparr>) }"

definition lp_unlockFake :: "cpu \<Rightarrow> cpu option" where
  "lp_unlockFake c = do { kassert (\<not> intr c); Some (c\<lparr>lockCount := lockCount c - 1\<rparr>) }"

definition lp_lock :: "bool \<Rightarrow> cpu \<Rightarrow> cpu option" where
  "lp_lock check c = do {
     (if check then do { n \<leftarrow> lp_checkLock c; kassert (n = 0) } else Some ());
     let c1 = (if lockCount c = 0 then c\<lparr>intr := False\<rparr> else c);
     Some (c1\<lparr>lockCount := lockCount c1 + 1\<rparr>) }"

definition lp_unlock :: "bool \<Rightarrow> cpu \<Rightarrow> cpu option" where
  "lp_unlock check c = do {
     (if check then do { n \<leftarrow> lp_checkLock c; kassert (n = 1) } else Some ());
     let c1 = c\<lparr>lockCount := lockCount c - 1\<rparr>;
     Some (if lockCount c1 = 0 then c1\<lparr>intr := True\<rparr> else c1) }"

section \<open>\<open>BinaryLock\<close> and \<open>TicketLock\<close>\<close>

text \<open>\<open>test_and_set\<close> returns the old value and leaves the flag set.\<close>

definition bl_tryAcquire :: "cpu \<Rightarrow> bool \<Rightarrow> (bool \<times> bool) option" where
  "bl_tryAcquire c locked = do { kassert (\<not> intr c); Some (True, \<not> locked) }"

definition bl_release :: "cpu \<Rightarrow> bool \<Rightarrow> bool option" where
  "bl_release c locked = do { kassert (\<not> intr c); kassert locked; Some False }"

record ticketlock =
  serving :: mword
  ticket :: mword

definition tl_init :: ticketlock where
  "tl_init = \<lparr>serving = 0, ticket = 0\<rparr>"

definition tl_check :: "ticketlock \<Rightarrow> bool" where
  "tl_check l \<longleftrightarrow> sint (ticket l - serving l) > 0"

text \<open>The compare-and-exchange of \<open>tryAcquire\<close> for a value of \<open>serving\<close> read before.\<close>

definition tl_try_cas :: "mword \<Rightarrow> ticketlock \<Rightarrow> ticketlock \<times> bool" where
  "tl_try_cas tryticket l =
    (if ticket l = tryticket then (l\<lparr>ticket := tryticket + 1\<rparr>, True) else (l, False))"

definition tl_fetch_add :: "ticketlock \<Rightarrow> ticketlock \<times> mword" where
  "tl_fetch_add l = (l\<lparr>ticket := ticket l + 1\<rparr>, ticket l)"

definition tl_release :: "cpu \<Rightarrow> ticketlock \<Rightarrow> ticketlock option" where
  "tl_release c l = do {
     kassert (\<not> intr c);
     kassert (tl_check l);
     Some (l\<lparr>serving := serving l + 1\<rparr>) }"

section \<open>\<open>SpinLock\<close>\<close>

text \<open>
  \<open>tryAcquire\<close> and \<open>release\<close> for a lock word that nobody else touches meanwhile; the
  spinning \<open>acquire\<close> is in the step relation below.
\<close>

definition sl_tryAcquire :: "cpu \<Rightarrow> bool \<Rightarrow> (cpu \<times> bool \<times> bool) option" where
  "sl_tryAcquire c locked = do {
     c1 \<leftarrow> lp_lock False c;
     (locked', ok) \<leftarrow> bl_tryAcquire c1 locked;
     if ok then Some (c1, locked', True)
     else do { c2 \<leftarrow> lp_unlock False c1; Some (c2, locked', False) } }"

definition sl_release :: "cpu \<Rightarrow> bool \<Rightarrow> (cpu \<times> bool) option" where
  "sl_release c locked = do {
     locked' \<leftarrow> bl_release c locked;
     c' \<leftarrow> lp_unlock False c;
     Some (c', locked') }"

section \<open>Spin locks on many processors\<close>

text \<open>
  \<open>held p\<close> are the locks processor \<open>p\<close> holds, \<open>pend p\<close> what it is in the middle of:
  after \<open>LocalProcessor::lock\<close> of an acquisition (\<open>Spin\<close>), or after the store of a release
  (\<open>Rel\<close>).  A failed test-and-set of the spin loop changes nothing and is no step.
\<close>

datatype 'l pend = Idle | Spin 'l | Rel

record ('p, 'l) spin_sys =
  cpus :: "'p \<Rightarrow> cpu"
  lockw :: "'l \<Rightarrow> bool"
  held :: "'p \<Rightarrow> 'l list"
  pend :: "'p \<Rightarrow> 'l pend"

inductive spin_step :: "('p, 'l) spin_sys \<Rightarrow> ('p, 'l) spin_sys \<Rightarrow> bool" where
  acquire_lock: "pend s p = Idle \<Longrightarrow> l \<notin> set (held s p) \<Longrightarrow> lp_lock False (cpus s p) = Some c \<Longrightarrow>
    spin_step s (s\<lparr>cpus := (cpus s)(p := c), pend := (pend s)(p := Spin l)\<rparr>)"
| acquire_tas: "pend s p = Spin l \<Longrightarrow> bl_tryAcquire (cpus s p) (lockw s l) = Some (w, True) \<Longrightarrow>
    spin_step s (s\<lparr>lockw := (lockw s)(l := w), held := (held s)(p := l # held s p),
      pend := (pend s)(p := Idle)\<rparr>)"
| try_fail: "pend s p = Spin l \<Longrightarrow> bl_tryAcquire (cpus s p) (lockw s l) = Some (w, False) \<Longrightarrow>
    lp_unlock False (cpus s p) = Some c \<Longrightarrow>
    spin_step s (s\<lparr>lockw := (lockw s)(l := w), cpus := (cpus s)(p := c), pend := (pend s)(p := Idle)\<rparr>)"
| release_store: "pend s p = Idle \<Longrightarrow> l \<in> set (held s p) \<Longrightarrow> bl_release (cpus s p) (lockw s l) = Some w \<Longrightarrow>
    spin_step s (s\<lparr>lockw := (lockw s)(l := w), held := (held s)(p := remove1 l (held s p)),
      pend := (pend s)(p := Rel)\<rparr>)"
| release_unlock: "pend s p = Rel \<Longrightarrow> lp_unlock False (cpus s p) = Some c \<Longrightarrow>
    spin_step s (s\<lparr>cpus := (cpus s)(p := c), pend := (pend s)(p := Idle)\<rparr>)"

inductive_cases spin_stepE: "spin_step s s'"

definition spin_init :: "('p, 'l) spin_sys \<Rightarrow> bool" where
  "spin_init s \<longleftrightarrow> (\<forall>p. cpus s p = \<lparr>lockCount = 0, intr = True\<rparr> \<and> held s p = [] \<and> pend s p = Idle)
    \<and> (\<forall>l. \<not> lockw s l)"

text \<open>
  The invariant: the lock count counts the locks held and the operation in progress,
  interrupts are on exactly when it is zero, and a lock word is set iff exactly one
  processor holds the lock.
\<close>

definition depth :: "('p, 'l) spin_sys \<Rightarrow> 'p \<Rightarrow> nat" where
  "depth s p = length (held s p) + (if pend s p = Idle then 0 else 1)"

definition spin_inv :: "('p, 'l) spin_sys \<Rightarrow> bool" where
  "spin_inv s \<longleftrightarrow>
    (\<forall>p. lockCount (cpus s p) = of_nat (depth s p) \<and> (intr (cpus s p) \<longleftrightarrow> depth s p = 0)
       \<and> distinct (held s p) \<and> (\<forall>l. pend s p = Spin l \<longrightarrow> l \<notin> set (held s p)))
    \<and> (\<forall>l. lockw s l \<longleftrightarrow> (\<exists>p. l \<in> set (held s p)))
    \<and> (\<forall>p q l. l \<in> set (held s p) \<and> l \<in> set (held s q) \<longrightarrow> p = q)"

lemma lp_lock_spec: "lp_lock False c = Some (c\<lparr>intr := (lockCount c \<noteq> 0 \<and> intr c), lockCount := lockCount c + 1\<rparr>)"
  by (simp add: lp_lock_def Let_def)

lemma lp_unlock_spec: "lp_unlock False c = Some (c\<lparr>lockCount := lockCount c - 1, intr := (lockCount c = 1 \<or> intr c)\<rparr>)"
  by (auto simp: lp_unlock_def Let_def)

lemma spin_init_inv: "spin_init s \<Longrightarrow> spin_inv s"
  by (auto simp: spin_init_def spin_inv_def depth_def)

lemma of_nat_mword_0: "n < 2 ^ 64 \<Longrightarrow> (of_nat n :: mword) = 0 \<longleftrightarrow> n = 0"
  by (simp add: word_of_nat_eq_0_iff nat_dvd_not_less) (metis dvd_imp_le not_less gr0I dvd_0_right)

lemma depth_bound:
  fixes s :: "('p, 'l::finite) spin_sys"
  assumes "distinct (held s p)" "CARD('l) + 1 < 2 ^ 64"
  shows "depth s p < 2 ^ 64"
proof -
  have "length (held s p) \<le> CARD('l)"
    using distinct_card [OF assms(1)] card_mono [of UNIV "set (held s p)"] by simp
  then show ?thesis using assms(2) by (simp add: depth_def)
qed

lemma spin_invD:
  assumes "spin_inv s"
  shows "lockCount (cpus s p) = of_nat (depth s p)" "intr (cpus s p) \<longleftrightarrow> depth s p = 0"
    "distinct (held s p)" "pend s p = Spin l \<Longrightarrow> l \<notin> set (held s p)"
    "lockw s l \<longleftrightarrow> (\<exists>p. l \<in> set (held s p))"
    "l \<in> set (held s p) \<Longrightarrow> l \<in> set (held s q) \<Longrightarrow> p = q"
  using assms unfolding spin_inv_def by blast+

text \<open>Only the processor that moves has to be checked again.\<close>

lemma spin_inv_update:
  assumes "spin_inv s" "\<And>q. q \<noteq> p \<Longrightarrow> cpus s' q = cpus s q \<and> held s' q = held s q \<and> pend s' q = pend s q"
    "lockCount (cpus s' p) = of_nat (depth s' p)" "intr (cpus s' p) \<longleftrightarrow> depth s' p = 0"
    "distinct (held s' p)" "\<And>l. pend s' p = Spin l \<Longrightarrow> l \<notin> set (held s' p)"
    "\<And>l. lockw s' l \<longleftrightarrow> (\<exists>q. l \<in> set (held s' q))"
    "\<And>l q. q \<noteq> p \<Longrightarrow> l \<in> set (held s' p) \<Longrightarrow> l \<notin> set (held s q)"
  shows "spin_inv s'"
proof -
  have other: "lockCount (cpus s' q) = of_nat (depth s' q) \<and> (intr (cpus s' q) \<longleftrightarrow> depth s' q = 0)
      \<and> distinct (held s' q) \<and> (\<forall>l. pend s' q = Spin l \<longrightarrow> l \<notin> set (held s' q))" for q
  proof (cases "q = p")
    case False
    with assms(2) [OF False] show ?thesis
      using spin_invD(1-4) [OF assms(1), of q] by (simp add: depth_def)
  qed (use assms(3-6) in auto)
  have "q = r" if "l \<in> set (held s' q)" "l \<in> set (held s' r)" for q r l
    using that assms(2,8) [of q] assms(2,8) [of r] spin_invD(6) [OF assms(1), of l q r]
    by (cases "q = p"; cases "r = p") auto
  with other assms(7) show ?thesis unfolding spin_inv_def by blast
qed

lemma spin_step_inv:
  fixes s :: "('p, 'l::finite) spin_sys"
  assumes "spin_step s s'" "spin_inv s" "CARD('l) + 1 < 2 ^ 64"
  shows "spin_inv s'"
  using assms(1)
proof cases
  case (acquire_lock p l c)
  note I = spin_invD(1-4) [OF assms(2), of p]
  have d: "depth s p = length (held s p)" using acquire_lock by (simp add: depth_def)
  have z: "(of_nat (depth s p) :: mword) = 0 \<longleftrightarrow> depth s p = 0"
    by (rule of_nat_mword_0 [OF depth_bound [OF I(3) assms(3)]])
  show ?thesis
    by (rule spin_inv_update [OF assms(2), of p])
      (use acquire_lock I z d spin_invD(5,6) [OF assms(2)] in \<open>auto simp: lp_lock_spec depth_def\<close>)
next
  case (acquire_tas p l w)
  note I = spin_invD(1-4) [OF assms(2), of p]
  have free: "\<not> lockw s l" "w" using acquire_tas by (auto simp: bl_tryAcquire_def)
  then have nobody: "l \<notin> set (held s q)" for q using spin_invD(5) [OF assms(2), of l] by blast
  have "(\<exists>q. k \<in> set (held s' q)) \<longleftrightarrow> k = l \<or> (\<exists>q. k \<in> set (held s q))" for k
    using acquire_tas(1) by (auto split: if_splits)
  then have words: "lockw s' k \<longleftrightarrow> (\<exists>q. k \<in> set (held s' q))" for k
    using acquire_tas(1) free(2) spin_invD(5) [OF assms(2), of k] by auto
  show ?thesis
    by (rule spin_inv_update [OF assms(2), of p])
      (use acquire_tas I nobody words spin_invD(6) [OF assms(2)] in \<open>auto simp: depth_def\<close>)
next
  case (try_fail p l w c)
  note I = spin_invD(1-4) [OF assms(2), of p]
  have taken: "lockw s l" "w" using try_fail by (auto simp: bl_tryAcquire_def)
  have d: "depth s p = Suc (length (held s p))" using try_fail by (simp add: depth_def)
  have z: "(of_nat (length (held s p)) :: mword) = 0 \<longleftrightarrow> length (held s p) = 0"
    using depth_bound [OF I(3) assms(3)] d by (intro of_nat_mword_0) simp
  show ?thesis
    by (rule spin_inv_update [OF assms(2), of p])
      (use try_fail I taken z d spin_invD(5,6) [OF assms(2)] in \<open>auto simp: lp_unlock_spec depth_def\<close>)
next
  case (release_store p l w)
  note I = spin_invD(1-4) [OF assms(2), of p]
  have w: "\<not> w" using release_store by (auto simp: bl_release_def)
  have len: "length (held s p) = Suc (length (remove1 l (held s p)))"
    using release_store length_pos_if_in_set [of l "held s p"] by (simp add: length_remove1)
  have only: "q = p" if "l \<in> set (held s q)" for q
    using spin_invD(6) [OF assms(2) that release_store(3)] .
  have "set (held s' q) = set (held s q) - {l}" for q
    using release_store(1) I(3) only [of q] by (cases "q = p") auto
  then have words: "lockw s' k \<longleftrightarrow> (\<exists>q. k \<in> set (held s' q))" for k
    using release_store(1) w spin_invD(5) [OF assms(2), of k] by auto
  show ?thesis
    by (rule spin_inv_update [OF assms(2), of p])
      (use release_store I w len words spin_invD(6) [OF assms(2)] in \<open>auto simp: depth_def\<close>)
next
  case (release_unlock p c)
  note I = spin_invD(1-4) [OF assms(2), of p]
  have d: "depth s p = Suc (length (held s p))" using release_unlock by (simp add: depth_def)
  have z: "(of_nat (length (held s p)) :: mword) = 0 \<longleftrightarrow> length (held s p) = 0"
    using depth_bound [OF I(3) assms(3)] d by (intro of_nat_mword_0) simp
  show ?thesis
    by (rule spin_inv_update [OF assms(2), of p])
      (use release_unlock I z d spin_invD(5,6) [OF assms(2)] in \<open>auto simp: lp_unlock_spec depth_def\<close>)
qed

section \<open>The ticket lock on many processors\<close>

text \<open>
  \<open>issued\<close> and \<open>served\<close> count tickets handed out and releases without wrapping; the lock
  words are the counts modulo \<open>2\<^sup>6\<^sup>4\<close>.  \<open>Wait n\<close> spins with ticket number \<open>n\<close>, \<open>Trying n\<close>
  has read \<open>serving\<close> when the count was \<open>n\<close>, \<open>Crit n\<close> is inside the lock.
  A processor in \<open>tryAcquire\<close> is not overtaken by \<open>2\<^sup>6\<^sup>4\<close> tickets between its two accesses.
\<close>

datatype tpc = TIdle | Wait nat | Trying nat | Crit nat

record 'p tl_sys =
  tlock :: ticketlock
  issued :: nat
  served :: nat
  tpcs :: "'p \<Rightarrow> tpc"

inductive tl_step :: "'p tl_sys \<Rightarrow> 'p tl_sys \<Rightarrow> bool" where
  fetch: "tpcs s p = TIdle \<Longrightarrow> tl_fetch_add (tlock s) = (l, my) \<Longrightarrow>
    tl_step s (s\<lparr>tlock := l, issued := Suc (issued s), tpcs := (tpcs s)(p := Wait (issued s))\<rparr>)"
| enter: "tpcs s p = Wait n \<Longrightarrow> (of_nat n :: mword) = serving (tlock s) \<Longrightarrow>
    tl_step s (s\<lparr>tpcs := (tpcs s)(p := Crit n)\<rparr>)"
| try_read: "tpcs s p = TIdle \<Longrightarrow> tl_step s (s\<lparr>tpcs := (tpcs s)(p := Trying (served s))\<rparr>)"
| try_win: "tpcs s p = Trying n \<Longrightarrow> issued s < n + 2 ^ 64 \<Longrightarrow> tl_try_cas (of_nat n) (tlock s) = (l, True) \<Longrightarrow>
    tl_step s (s\<lparr>tlock := l, issued := Suc (issued s), tpcs := (tpcs s)(p := Crit (issued s))\<rparr>)"
| try_lose: "tpcs s p = Trying n \<Longrightarrow> tl_try_cas (of_nat n) (tlock s) = (l, False) \<Longrightarrow>
    tl_step s (s\<lparr>tlock := l, tpcs := (tpcs s)(p := TIdle)\<rparr>)"
| leave: "tpcs s p = Crit n \<Longrightarrow> \<not> intr c \<Longrightarrow> tl_release c (tlock s) = Some l \<Longrightarrow>
    tl_step s (s\<lparr>tlock := l, served := Suc (served s), tpcs := (tpcs s)(p := TIdle)\<rparr>)"

definition tl_start :: "'p tl_sys \<Rightarrow> bool" where
  "tl_start s \<longleftrightarrow> tlock s = tl_init \<and> issued s = 0 \<and> served s = 0 \<and> (\<forall>p. tpcs s p = TIdle)"

text \<open>The ticket a processor owns.\<close>

fun owns :: "tpc \<Rightarrow> nat option" where
  "owns (Wait n) = Some n"
| "owns (Crit n) = Some n"
| "owns _ = None"

definition own :: "'p tl_sys \<Rightarrow> 'p \<Rightarrow> nat option" where
  "own s p = owns (tpcs s p)"

definition tl_inv :: "'p tl_sys \<Rightarrow> bool" where
  "tl_inv s \<longleftrightarrow>
    serving (tlock s) = of_nat (served s) \<and> ticket (tlock s) = of_nat (issued s) \<and> served s \<le> issued s
    \<and> ran (own s) = {served s..<issued s} \<and> inj_on (own s) (dom (own s))
    \<and> (\<forall>p n. tpcs s p = Crit n \<longrightarrow> n = served s)
    \<and> (\<forall>p n. tpcs s p = Trying n \<longrightarrow> n \<le> served s)"

lemma of_nat_mword_inj:
  assumes "(of_nat m :: mword) = of_nat n" "m \<le> n" "n < m + 2 ^ 64" shows "m = n"
proof -
  have "m mod 2 ^ 64 = n mod 2 ^ 64"
    using arg_cong [OF assms(1), of unat] by (simp add: unat_of_nat)
  then have "2 ^ 64 dvd n - m" using mod_eq_dvd_iff_nat [OF assms(2), of "2 ^ 64"] by simp
  with assms(2,3) show ?thesis using nat_dvd_not_less [of "n - m" "2 ^ 64"] less_diff_conv2 [OF assms(2), of "2 ^ 64"]
    by (cases "m = n") auto
qed

lemma tl_start_inv: "tl_start s \<Longrightarrow> tl_inv s"
  by (auto simp: tl_start_def tl_inv_def tl_init_def own_def ran_def dom_def)

lemma ran_delete:
  assumes "inj_on m (dom m)" "m p = Some v" shows "ran (m(p := None)) = ran m - {v}"
proof (intro set_eqI iffI)
  fix x assume "x \<in> ran (m(p := None))"
  then obtain q where "q \<noteq> p" "m q = Some x" by (auto simp: ran_def split: if_splits)
  moreover from this assms have "x \<noteq> v" by (auto simp: inj_on_def dom_def)
  ultimately show "x \<in> ran m - {v}" by (auto intro: ranI)
next
  fix x assume "x \<in> ran m - {v}"
  then obtain q where "m q = Some x" "x \<noteq> v" by (auto simp: ran_def)
  with assms(2) have "(m(p := None)) q = Some x" by auto
  then show "x \<in> ran (m(p := None))" by (rule ranI)
qed

lemma inj_on_insert:
  assumes "inj_on m (dom m)" "v \<notin> ran m" shows "inj_on (m(p \<mapsto> v)) (dom (m(p \<mapsto> v)))"
  using assms by (auto simp: ran_def inj_on_def dom_def)

lemma tl_inflight:
  fixes s :: "'p::finite tl_sys"
  assumes "tl_inv s" shows "issued s - served s \<le> CARD('p)"
proof -
  have "ran (own s) = (the \<circ> own s) ` dom (own s)" by (force simp: ran_def dom_def image_def)
  then have "card {served s..<issued s} \<le> card (dom (own s))"
    using assms card_image_le [of "dom (own s)" "the \<circ> own s"] by (simp add: tl_inv_def)
  also have "\<dots> \<le> CARD('p)" by (intro card_mono) auto
  finally show ?thesis by simp
qed

lemma tl_own: "tl_inv s \<Longrightarrow> own s p = Some n \<Longrightarrow> served s \<le> n \<and> n < issued s"
  by (auto simp: tl_inv_def ran_def)

lemma tl_own_unique: "tl_inv s \<Longrightarrow> own s p = Some n \<Longrightarrow> own s q = Some n \<Longrightarrow> p = q"
  by (auto simp: tl_inv_def inj_on_def dom_def)

lemma tl_enter_served:
  fixes s :: "'p::finite tl_sys"
  assumes "tl_inv s" "CARD('p) < 2 ^ 63" "tpcs s p = Wait n"
  shows "(of_nat n :: mword) = serving (tlock s) \<longleftrightarrow> n = served s"
proof
  assume eq: "(of_nat n :: mword) = serving (tlock s)"
  have n: "served s \<le> n" "n < issued s" using tl_own [OF assms(1), of p n] assms(3) by (auto simp: own_def)
  moreover have "n < served s + 2 ^ 64" using tl_inflight [OF assms(1)] assms(2) n by simp
  ultimately show "n = served s"
    using of_nat_mword_inj [of "served s" n] eq assms(1) by (simp add: tl_inv_def)
qed (use assms(1) in \<open>simp add: tl_inv_def\<close>)

lemma tl_check_issued:
  fixes s :: "'p::finite tl_sys"
  assumes "tl_inv s" "CARD('p) < 2 ^ 63"
  shows "tl_check (tlock s) \<longleftrightarrow> served s < issued s"
proof -
  let ?d = "issued s - served s"
  have d: "?d < 2 ^ 63" using tl_inflight [OF assms(1)] assms(2) by simp
  have "ticket (tlock s) - serving (tlock s) = (of_nat ?d :: mword)"
    using assms(1) by (simp add: tl_inv_def of_nat_diff)
  moreover have "sint (of_nat ?d :: mword) = int ?d"
    using d by (simp add: signed_of_nat signed_take_bit_int_eq_self)
  ultimately show ?thesis by (simp add: tl_check_def)
qed

text \<open>A processor takes the next ticket.\<close>

lemma tl_inv_take:
  assumes "tl_inv s" "own s p = None" "own s' = (own s)(p \<mapsto> issued s)"
    "issued s' = Suc (issued s)" "served s' = served s" "serving (tlock s') = serving (tlock s)"
    "ticket (tlock s') = ticket (tlock s) + 1"
    "\<And>q n. tpcs s' q = Crit n \<Longrightarrow> n = served s" "\<And>q n. tpcs s' q = Trying n \<Longrightarrow> n \<le> served s"
  shows "tl_inv s'"
proof -
  have "issued s \<notin> ran (own s)" using assms(1) by (simp add: tl_inv_def)
  then have "inj_on (own s') (dom (own s'))"
    using assms(1) unfolding assms(3) by (intro inj_on_insert) (auto simp: tl_inv_def)
  moreover have "ran (own s') = {served s..<Suc (issued s)}"
    using assms(1,2) unfolding assms(3) by (auto simp: tl_inv_def)
  ultimately show ?thesis
    using assms by (auto simp: tl_inv_def)
qed

lemma tl_step_inv:
  fixes s :: "'p::finite tl_sys"
  assumes "tl_step s s'" "tl_inv s" "CARD('p) < 2 ^ 63"
  shows "tl_inv s'"
  using assms(1)
proof cases
  case (fetch p l my)
  show ?thesis
    by (rule tl_inv_take [OF assms(2), of p])
      (use fetch assms(2) in \<open>auto simp: own_def fun_eq_iff tl_fetch_add_def tl_inv_def split: if_splits\<close>)
next
  case (enter p n)
  then have "n = served s" using tl_enter_served [OF assms(2,3)] by simp
  moreover have "own s' = own s" using enter by (auto simp: own_def fun_eq_iff)
  ultimately show ?thesis using enter assms(2) by (auto simp: tl_inv_def split: if_splits)
next
  case (try_read p)
  then have "own s' = own s" by (auto simp: own_def fun_eq_iff)
  then show ?thesis using try_read assms(2) by (auto simp: tl_inv_def split: if_splits)
next
  case (try_win p n l)
  have n: "n \<le> served s" "served s \<le> issued s" using assms(2) try_win(2) by (auto simp: tl_inv_def)
  have "(of_nat n :: mword) = of_nat (issued s)"
    using try_win(4) assms(2) by (auto simp: tl_try_cas_def tl_inv_def split: if_splits)
  with n try_win(3) have eq: "n = issued s" by (intro of_nat_mword_inj) auto
  show ?thesis
    by (rule tl_inv_take [OF assms(2), of p])
      (use try_win eq n assms(2) in \<open>auto simp: own_def fun_eq_iff tl_try_cas_def tl_inv_def split: if_splits\<close>)
next
  case (try_lose p n l)
  then have "own s' = own s" "l = tlock s" by (auto simp: own_def fun_eq_iff tl_try_cas_def split: if_splits)
  then show ?thesis using try_lose assms(2) by (auto simp: tl_inv_def split: if_splits)
next
  case (leave p n c l)
  have n: "n = served s" "own s p = Some n" using assms(2) leave(2) by (auto simp: tl_inv_def own_def)
  have own': "own s' = (own s)(p := None)" using leave by (auto simp: own_def fun_eq_iff)
  have l: "l = (tlock s)\<lparr>serving := serving (tlock s) + 1\<rparr>"
    using leave(4) by (auto simp: tl_release_def)
  have inj: "inj_on (own s) (dom (own s))" using assms(2) by (simp add: tl_inv_def)
  have "ran (own s') = {Suc (served s)..<issued s}"
    using ran_delete [OF inj n(2)] assms(2) n(1) own' by (auto simp: tl_inv_def)
  moreover have "inj_on (own s') (dom (own s'))"
    using inj unfolding own' by (auto simp: inj_on_def)
  moreover have "tpcs s q \<noteq> Crit m" if "q \<noteq> p" for q m
    using that tl_own_unique [OF assms(2), of p n q] n assms(2) by (auto simp: own_def tl_inv_def)
  then have "tpcs s' q \<noteq> Crit m" for q m using leave(1) by simp
  moreover have "m \<le> Suc (served s)" if "tpcs s' q = Trying m" for q m
    using that leave(1) assms(2) by (auto simp: tl_inv_def intro: le_SucI split: if_splits)
  moreover have "serving (tlock s') = of_nat (Suc (served s))" "ticket (tlock s') = of_nat (issued s)"
    "served s' = Suc (served s)" "issued s' = issued s"
    using leave(1) l assms(2) by (simp_all add: tl_inv_def)
  ultimately show ?thesis
    using tl_own [OF assms(2) n(2)] unfolding tl_inv_def by simp
qed

section \<open>Properties\<close>

text \<open>
  C13: whatever the interleaving, a spin lock is held by at most one processor; a processor
  that holds one has interrupts off and a non-zero lock count; and the assertions of
  \<open>release\<close> hold for every lock it holds.
\<close>

theorem spin_lock_exclusion:
  fixes s0 s :: "('p, 'l::finite) spin_sys"
  assumes "spin_init s0" "spin_step\<^sup>*\<^sup>* s0 s" "CARD('l) + 1 < 2 ^ 64" "l \<in> set (held s p)"
  shows "(l \<in> set (held s q) \<longleftrightarrow> q = p) \<and> \<not> intr (cpus s p) \<and> lockCount (cpus s p) \<noteq> 0
    \<and> bl_release (cpus s p) (lockw s l) = Some False"
proof -
  have inv: "spin_inv s"
    using assms(2) by (induction rule: rtranclp_induct)
      (auto intro: spin_step_inv assms(3) spin_init_inv [OF assms(1)])
  note I = spin_invD(1-4) [OF inv, of p]
  have d: "0 < depth s p" using assms(4) by (auto simp: depth_def)
  then have "\<not> intr (cpus s p)" "lockCount (cpus s p) \<noteq> 0"
    using I of_nat_mword_0 [OF depth_bound [OF I(3) assms(3)]] by auto
  moreover have "lockw s l" using spin_invD(5) [OF inv] assms(4) by blast
  ultimately show ?thesis
    using spin_invD(6) [OF inv, of l p q] assms(4) by (auto simp: bl_release_def)
qed

text \<open>
  C14: the ticket lock admits at most one processor at a time, in the order of the tickets,
  for any number of wrap-arounds of the 64-bit tickets as long as there are fewer than
  \<open>2\<^sup>6\<^sup>3\<close> processors; the release assertion holds for the holder; and when tickets are
  outstanding, the oldest one is inside or may enter.
\<close>

theorem ticket_lock_exclusion:
  fixes s0 s :: "'p::finite tl_sys"
  assumes "tl_start s0" "tl_step\<^sup>*\<^sup>* s0 s" "CARD('p) < 2 ^ 63"
  shows "(\<forall>p m q n. tpcs s p = Crit m \<and> tpcs s q = Crit n \<longrightarrow> p = q)
    \<and> (\<forall>p m q n. tpcs s p = Crit m \<and> tpcs s q = Wait n \<longrightarrow> m < n)
    \<and> (\<forall>p m. tpcs s p = Crit m \<longrightarrow> tl_check (tlock s))
    \<and> (served s < issued s \<longrightarrow> (\<exists>p. tpcs s p = Crit (served s) \<or>
        (tpcs s p = Wait (served s) \<and> of_nat (served s) = serving (tlock s))))"
proof -
  have inv: "tl_inv s"
    using assms(2) by (induction rule: rtranclp_induct)
      (auto intro: tl_step_inv assms(3) tl_start_inv [OF assms(1)])
  have crit: "own s p = Some (served s)" if "tpcs s p = Crit m" for p m
    using that inv by (auto simp: own_def tl_inv_def)
  have order: "m < n" if "tpcs s p = Crit m" "tpcs s q = Wait n" for p m q n
  proof -
    have "own s q = Some n" "m = served s" using that inv by (auto simp: own_def tl_inv_def)
    moreover have "n \<noteq> served s"
      using tl_own_unique [OF inv, of p n q] crit [OF that(1)] calculation that by auto
    ultimately show ?thesis using tl_own [OF inv, of q n] by auto
  qed
  have oldest: "\<exists>p. tpcs s p = Crit (served s) \<or>
      (tpcs s p = Wait (served s) \<and> of_nat (served s) = serving (tlock s))" if "served s < issued s"
  proof -
    have "served s \<in> ran (own s)" using that inv by (simp add: tl_inv_def)
    then obtain p where "owns (tpcs s p) = Some (served s)" by (auto simp: ran_def own_def)
    moreover have "serving (tlock s) = of_nat (served s)" using inv by (simp add: tl_inv_def)
    ultimately show ?thesis by (cases "tpcs s p") auto
  qed
  have "tl_check (tlock s)" if "tpcs s p = Crit m" for p m
    using tl_check_issued [OF inv assms(3)] tl_own [OF inv crit [OF that]] by simp
  moreover have "p = q" if "tpcs s p = Crit m" "tpcs s q = Crit n" for p m q n
    using tl_own_unique [OF inv crit [OF that(1)] crit [OF that(2)]] .
  ultimately show ?thesis using order oldest by blast
qed

theorem ticket_lock_exclusion_witness:
  "\<exists>s0 s :: bool tl_sys. tl_start s0 \<and> tl_step\<^sup>*\<^sup>* s0 s \<and> tpcs s True = Crit 0 \<and> tl_check (tlock s)"
proof -
  let ?s0 = "\<lparr>tlock = tl_init, issued = 0, served = 0, tpcs = \<lambda>_. TIdle\<rparr> :: bool tl_sys"
  let ?s1 = "?s0\<lparr>tlock := \<lparr>serving = 0, ticket = 1\<rparr>, issued := Suc 0, tpcs := (\<lambda>_. TIdle)(True := Wait 0)\<rparr>"
  let ?s2 = "?s1\<lparr>tpcs := (\<lambda>_. TIdle)(True := Crit 0)\<rparr>"
  have start: "tl_start ?s0" by (simp add: tl_start_def)
  have "tl_step ?s0 ?s1"
    using tl_step.fetch [of ?s0 True "\<lparr>serving = 0, ticket = 1\<rparr>" 0] by (simp add: tl_fetch_add_def tl_init_def)
  moreover have "tl_step ?s1 ?s2"
    using tl_step.enter [of ?s1 True 0] by simp
  ultimately have "tl_step\<^sup>*\<^sup>* ?s0 ?s2" by simp
  with ticket_lock_exclusion [OF start this] start show ?thesis
    by (intro exI [of _ ?s0] exI [of _ ?s2]) auto
qed

theorem spin_lock_exclusion_witness:
  "\<exists>s0 s :: (nat, bool) spin_sys. spin_init s0 \<and> spin_step\<^sup>*\<^sup>* s0 s \<and> True \<in> set (held s 0) \<and> \<not> intr (cpus s 0)"
proof -
  let ?s0 = "\<lparr>cpus = \<lambda>_. \<lparr>lockCount = 0, intr = True\<rparr>, lockw = \<lambda>_. False, held = \<lambda>_. [], pend = \<lambda>_. Idle\<rparr>
    :: (nat, bool) spin_sys"
  let ?s1 = "?s0\<lparr>cpus := (cpus ?s0)(0 := \<lparr>lockCount = 1, intr = False\<rparr>), pend := (pend ?s0)(0 := Spin True)\<rparr>"
  let ?s2 = "?s1\<lparr>lockw := (lockw ?s1)(True := True), held := (held ?s1)(0 := [True]), pend := (pend ?s1)(0 := Idle)\<rparr>"
  have start: "spin_init ?s0" by (simp add: spin_init_def)
  have "spin_step ?s0 ?s1"
    using spin_step.acquire_lock [of ?s0 0 True "\<lparr>lockCount = 1, intr = False\<rparr>"] by (simp add: lp_lock_spec)
  moreover have "spin_step ?s1 ?s2"
    using spin_step.acquire_tas [of ?s1 0 True True] by (simp add: bl_tryAcquire_def)
  ultimately have "spin_step\<^sup>*\<^sup>* ?s0 ?s2" by simp
  with spin_lock_exclusion [OF start this, of True 0 0] start show ?thesis
    by (intro exI [of _ ?s0] exI [of _ ?s2]) auto
qed

end
