(* ===== verification/MemoryLayout.thy ===== *)
theory MemoryLayout
  imports BitManip
begin

unbundle bit_operations_syntax

text \<open>
  Constants and page arithmetic of \<open>machine/Memory.h\<close>.  \<open>kernelBase\<close> is the value
  \<open>Makefile.config\<close> gives \<open>KERNBASE\<close>.  Page levels run from 1 (4 KB) to 4.
\<close>

definition topaddr :: mword where
  "topaddr = limit"

definition pageoffsetbits :: nat where "pageoffsetbits = 12"
definition pagetablebits :: nat where "pagetablebits = 9"
definition pagetableentries :: nat where "pagetableentries = 2 ^ pagetablebits"
definition pagelevels :: nat where "pagelevels = 4"
definition pagetablepl :: nat where "pagetablepl = 1"
definition framebits :: nat where "framebits = pageoffsetbits + 40"
definition pagebits :: nat where "pagebits = pageoffsetbits + pagetablebits * pagelevels"

definition pagesizebits :: "nat \<Rightarrow> nat" where
  "pagesizebits N = pageoffsetbits + (N - 1) * pagetablebits"

definition pagesize :: "nat \<Rightarrow> mword" where
  "pagesize N = pow2 (pagesizebits N)"

definition pageoffset :: "nat \<Rightarrow> mword \<Rightarrow> mword" where
  "pageoffset N addr = addr AND bitmask (pagesizebits N)"

definition usertindex :: mword where "usertindex = of_nat (pagetableentries div 2)"
definition recptindex :: mword where "recptindex = of_nat (pagetableentries div 2)"
definition kernbindex :: mword where "kernbindex = of_nat (pagetableentries - 4)"
definition kerntindex :: mword where "kerntindex = of_nat (pagetableentries - 1)"
definition devptindex :: mword where "devptindex = of_nat (pagetableentries - 1)"
definition kernelBase :: vaddr where "kernelBase = 0xFFFFFFFF80000000"

definition canonTest :: mword where "canonTest = pow2 (pagebits - 1)"
definition canonPrefix :: mword where "canonPrefix = NOT (bitmask pagebits)"
definition userbot :: vaddr where "userbot = pagesize 2"
definition usertop :: vaddr where "usertop = pagesize pagelevels * usertindex"
definition kernelbot :: vaddr where "kernelbot = (pagesize pagelevels * kernbindex) OR canonPrefix"
definition kerneltop :: vaddr where "kerneltop = (pagesize pagelevels * kerntindex) OR canonPrefix"
definition deviceAddr :: vaddr where "deviceAddr = (pagesize pagelevels * devptindex) OR canonPrefix"

definition apicAddr :: vaddr where "apicAddr = deviceAddr + 0 * pagesize 1"
definition ioApicAddr :: vaddr where "ioApicAddr = deviceAddr + 1 * pagesize 1"
definition videoAddr :: vaddr where "videoAddr = deviceAddr + 2 * pagesize 1"
definition cloneAddr :: vaddr where "cloneAddr = deviceAddr + 3 * pagesize 1"
definition deviceEnd :: vaddr where "deviceEnd = deviceAddr + 4 * pagesize 1"

definition kernelpl :: nat where "kernelpl = 2"
definition kernelps :: mword where "kernelps = pagesize kernelpl"
definition bootHeapSize :: mword where "bootHeapSize = 16 * pagesize 1"
definition bootHeapMap :: mword where "bootHeapMap = kerneltop - pagesize 3"

definition MAXKERNSIZE :: mword where "MAXKERNSIZE = 0x40000000"
definition bootSizePT :: mword where "bootSizePT = (4 + divup MAXKERNSIZE (pagesize (kernelpl + 1))) * pagesize 1"

definition stackpl :: nat where "stackpl = 1"
definition minimumStack :: mword where "minimumStack = 1 * pagesize stackpl"
definition defaultStack :: mword where "defaultStack = 2 * pagesize stackpl"
definition defaultUserStack :: mword where "defaultUserStack = 2 * pagesize stackpl"
definition stackGuardPage :: mword where "stackGuardPage = 1 * pagesize stackpl"

lemmas layout_defs = pageoffsetbits_def pagetablebits_def pagetableentries_def pagelevels_def
  pagetablepl_def framebits_def pagebits_def pagesizebits_def

lemma pagesizebits_simps [simp]:
  "pagesizebits 1 = 12" "pagesizebits (Suc 0) = 12" "pagesizebits 2 = 21" "pagesizebits 3 = 30"
  "pagesizebits 4 = 39" "pagesizebits 5 = 48"
  by (simp_all add: layout_defs)

lemma pagesize_pow: "pagesize N = 2 ^ pagesizebits N"
  by (simp add: pagesize_def pow2_eq)

lemma pagesizebits_less: "N \<le> 5 \<Longrightarrow> pagesizebits N < 64"
  by (simp add: layout_defs)

lemma unat_pagesize: "N \<le> 5 \<Longrightarrow> unat (pagesize N) = 2 ^ pagesizebits N"
  unfolding pagesize_pow using pagesizebits_less by (intro unat_pow2) simp

lemma unat_pageoffset: "unat (pageoffset N a) = unat a mod 2 ^ pagesizebits N"
  by (simp add: pageoffset_def bitmask_mask unat_and_mask)

lemma pageoffset_aligned: "pageoffset N a = 0 \<longleftrightarrow> aligned a (pagesize N)"
  by (simp add: pageoffset_def aligned_def pagesize_pow bitmask_mask mask_eq_exp_minus_1)

text \<open>Values of the layout constants.\<close>

lemma layout_values:
  "userbot = 0x200000" "usertop = 0x800000000000" "canonPrefix = 0xFFFF000000000000"
  "kernelbot = 0xFFFFFE0000000000" "kerneltop = 0xFFFFFF8000000000" "deviceAddr = 0xFFFFFF8000000000"
  "deviceEnd = 0xFFFFFF8000004000"
  by code_simp+

text \<open>
  the address ranges of \<open>machine/Memory.h\<close> follow each other without overlap: user
  space, the recursive page-table window, dynamic kernel memory, device mappings, kernel
  image; and the source's static assertions hold.
\<close>

theorem layout_ranges_ordered:
  "userbot < usertop \<and> usertop \<le> (pagesize pagelevels * recptindex OR canonPrefix)
   \<and> (pagesize pagelevels * recptindex OR canonPrefix) + pagesize pagelevels \<le> kernelbot
   \<and> kernelbot < kerneltop \<and> kerneltop \<le> deviceAddr \<and> deviceAddr < deviceEnd \<and> deviceEnd \<le> kernelBase"
  by code_simp

end
