(* ===== verification/FrameManager.thy ===== *)
theory FrameManager
  imports Bitmaps MemoryLayout
begin

unbundle bit_operations_syntax

text \<open>
  \<open>kernel/FrameManager.h\<close> and \<open>.cc\<close>: free 2 MB frames are bits of a hierarchical bitmap;
  a 2 MB frame that is partly free has its 4 KB frames in an ordinary bitmap, stored in an
  ordered map by frame number.  Physical addresses are natural numbers, with the wrap at
  \<open>2\<^sup>6\<^sup>4\<close> written out where the code can reach it.  \<open>splock\<close> is taken and dropped by scope in
  every operation and is not part of the state; \<open>lplock\<close> is, because one path returns
  without dropping it, and taking it when it is taken never returns (\<open>None\<close>).
  Reading \<open>it->first\<close> after \<open>erase(it)\<close> is given the key the iterator had.
\<close>

section \<open>State\<close>

definition fm_sps :: nat where "fm_sps = unat (pagesize (kernelpl - 1))"
definition fm_dps :: nat where "fm_dps = unat (pagesize kernelpl)"

definition fm_top :: nat where "fm_top = unat topaddr"

record framemgr =
  largeFrames :: hbitmap
  smallFrames :: "(nat \<times> bitmap) list"
  bitcount :: mword
  lplock :: bool

text \<open>\<open>std::map\<close> by ascending key: \<open>emplace\<close> keeps an existing entry.\<close>

fun smap_emplace :: "nat \<Rightarrow> 'v \<Rightarrow> (nat \<times> 'v) list \<Rightarrow> (nat \<times> 'v) list" where
  "smap_emplace k v [] = [(k, v)]"
| "smap_emplace k v (e # es) =
    (if k < fst e then (k, v) # e # es
     else if k = fst e then e # es
     else e # smap_emplace k v es)"

definition smap_set :: "nat \<Rightarrow> 'v \<Rightarrow> (nat \<times> 'v) list \<Rightarrow> (nat \<times> 'v) list" where
  "smap_set k v es = map (\<lambda>e. if fst e = k then (k, v) else e) es"

definition smap_erase :: "nat \<Rightarrow> (nat \<times> 'v) list \<Rightarrow> (nat \<times> 'v) list" where
  "smap_erase k es = filter (\<lambda>e. fst e \<noteq> k) es"

definition lp_acquire :: "framemgr \<Rightarrow> framemgr option" where
  "lp_acquire fm = (if lplock fm then None else Some (fm\<lparr>lplock := True\<rparr>))"

definition lp_release :: "framemgr \<Rightarrow> framemgr" where
  "lp_release fm = fm\<lparr>lplock := False\<rparr>"

section \<open>Release\<close>

definition releaseSmall :: "framemgr \<Rightarrow> nat \<Rightarrow> nat \<Rightarrow> (framemgr \<times> nat) option" where
  "releaseSmall fm addr sz = (
     let idx = addr div fm_dps;
         sm = smap_emplace idx (Bitmap_init pagetableentries 0) (smallFrames fm);
         start = (addr mod fm_dps) div fm_sps;
         end' = min pagetableentries (start + sz div fm_sps)
     in do {
       b \<leftarrow> map_of sm idx;
       let b' = foldl Bitmap_set b [start..<end'];
       let sm' = smap_set idx b' sm;
       fm' \<leftarrow> (if Bitmap_full b'
               then do {
                 fm1 \<leftarrow> lp_acquire (fm\<lparr>smallFrames := smap_erase idx sm'\<rparr>);
                 Some (lp_release (fm1\<lparr>largeFrames := HB_set pagetableentries (largeFrames fm1) idx\<rparr>)) }
               else Some (fm\<lparr>smallFrames := sm'\<rparr>));
       Some (fm', (end' - start) * fm_sps) })"

definition FM_init :: "nat \<Rightarrow> framemgr option" where
  "FM_init top' = do {
     let n = sdivup top' fm_dps;
     h \<leftarrow> HB_init pagetableentries (framebits - pagesizebits kernelpl) n;
     Some \<lparr>largeFrames = h, smallFrames = [], bitcount = of_nat n, lplock = False\<rparr> }"

definition releaseFrame :: "nat \<Rightarrow> framemgr \<Rightarrow> nat \<Rightarrow> framemgr option" where
  "releaseFrame N fm addr = do {
     kassert (addr mod unat (pagesize N) = 0);
     (if N = kernelpl - 1 then do { (fm', _) \<leftarrow> releaseSmall fm addr fm_sps; Some fm' }
      else if N = kernelpl then do {
        fm1 \<leftarrow> lp_acquire fm;
        Some (lp_release (fm1\<lparr>largeFrames := HB_set pagetableentries (largeFrames fm1) (addr div fm_dps)\<rparr>)) }
      else None) }"

definition releaseFrames :: "framemgr \<Rightarrow> nat \<Rightarrow> nat \<Rightarrow> framemgr option" where
  "releaseFrames fm addr sz =
    (if sz < fm_dps then releaseFrame (kernelpl - 1) fm addr else releaseFrame kernelpl fm addr)"

text \<open>
  \<open>releaseRegion\<close>.  The two levels are computed at \<open>size_t\<close> from the \<open>int\<close> results.  A
  region is at most \<open>2\<^sup>6\<^sup>4\<close> bytes; the step that makes no progress is a loop that never
  ends.
\<close>

definition region_level :: "nat \<Rightarrow> nat \<Rightarrow> nat" where
  "region_level addr sz =
    (let level_addr = 1 + (nat (alignment (of_nat addr :: mword)) + 2 ^ 64 - pageoffsetbits) mod 2 ^ 64 div pagetablebits;
         level_size = 1 + (nat (floorlog2 (of_nat sz :: mword)) + 2 ^ 64 - pageoffsetbits) mod 2 ^ 64 div pagetablebits
     in min level_addr level_size)"

definition region_step :: "framemgr \<Rightarrow> nat \<Rightarrow> nat \<Rightarrow> (framemgr \<times> nat) option" where
  "region_step fm addr sz =
    (if region_level addr sz < kernelpl then releaseSmall fm addr sz
     else do {
       fm1 \<leftarrow> lp_acquire fm;
       Some (lp_release (fm1\<lparr>largeFrames := HB_set pagetableentries (largeFrames fm1) (addr div fm_dps)\<rparr>), fm_dps) })"

function region_loop :: "framemgr \<Rightarrow> nat \<Rightarrow> nat \<Rightarrow> framemgr option" where
  "region_loop fm addr sz =
    (if sz = 0 then Some fm
     else (case region_step fm addr sz of
             None \<Rightarrow> None
           | Some (fm', len) \<Rightarrow> if len = 0 then None else region_loop fm' (addr + len) (sz - len)))"
  by pat_completeness auto
termination
  by (relation "measure (\<lambda>(fm, addr, sz). sz)") auto

declare region_loop.simps [simp del]

definition releaseRegion :: "framemgr \<Rightarrow> nat \<Rightarrow> nat \<Rightarrow> framemgr option" where
  "releaseRegion fm addr sz = do {
     kassert (addr mod fm_sps = 0);
     kassert (sz mod fm_sps = 0);
     region_loop fm addr sz }"

section \<open>Allocation\<close>

definition allocFrame :: "nat \<Rightarrow> framemgr \<Rightarrow> (framemgr \<times> nat) option" where
  "allocFrame N fm =
    (if N = kernelpl - 1 then do {
       r \<leftarrow> (if smallFrames fm = [] then do {
               fm1 \<leftarrow> lp_acquire fm;
               let idx = HB_findset pagetableentries (largeFrames fm1);
               (if idx = 2 ^ 64 - 1 then Some (fm1, False)
                else
                  let fm2 = lp_release (fm1\<lparr>largeFrames := HB_clear pagetableentries (largeFrames fm1) idx\<rparr>)
                  in Some (fm2\<lparr>smallFrames := smap_emplace idx (Bitmap_filled pagetableentries) (smallFrames fm2)\<rparr>, True)) }
             else Some (fm, True));
       (case r of
          (fm', False) \<Rightarrow> Some (fm', fm_top)
        | (fm', True) \<Rightarrow>
            let k = fst (hd (smallFrames fm')); b = snd (hd (smallFrames fm'));
                idx2 = Bitmap_findset b;
                b' = Bitmap_clear b idx2;
                sm = smap_set k b' (smallFrames fm');
                sm' = (if Bitmap_empty b' then smap_erase k sm else sm)
            in Some (fm'\<lparr>smallFrames := sm'\<rparr>, k * fm_dps + idx2 * fm_sps)) }
     else if N = kernelpl then do {
       fm1 \<leftarrow> lp_acquire fm;
       let idx = HB_findset pagetableentries (largeFrames fm1);
       (if idx = 2 ^ 64 - 1 then Some (lp_release fm1, fm_top)
        else Some (lp_release (fm1\<lparr>largeFrames := HB_clear pagetableentries (largeFrames fm1) idx\<rparr>), idx * fm_dps)) }
     else None)"

text \<open>
  \<open>allocContig\<close>.  \<open>skip_small\<close> and \<open>skip_large\<close> are the inner loops that advance \<open>idx\<close> to
  the next set bit, keeping \<open>found\<close> while bits are consecutive; \<open>None\<close> is the jump out.
\<close>

function skip_small :: "bitmap \<Rightarrow> nat \<Rightarrow> nat \<Rightarrow> (nat \<times> nat) option" where
  "skip_small b idx found =
    (let idx' = idx + 1
     in if idx' \<ge> pagetableentries then None
        else if Bitmap_test b idx' then Some (idx', found)
        else skip_small b idx' 0)"
  by pat_completeness auto
termination
  by (relation "measure (\<lambda>(b, idx, found). pagetableentries - idx)") auto

declare skip_small.simps [simp del]

lemma skip_small_gt: "skip_small b idx found = Some (idx', found') \<Longrightarrow> idx < idx' \<and> idx' < pagetableentries"
  by (induction b idx found rule: skip_small.induct)
    (auto simp: skip_small.simps Let_def split: if_splits)

datatype contig = Found nat nat nat | NextSet | UseLarge

function scan_small :: "nat \<Rightarrow> bitmap \<Rightarrow> nat \<Rightarrow> nat \<Rightarrow> nat \<Rightarrow> nat \<Rightarrow> nat \<Rightarrow> nat \<Rightarrow> contig" where
  "scan_small key b sz align lim idx found baseidx =
    (let baseidx' = (if found \<noteq> 0 then baseidx else idx);
         baseaddr = key * fm_dps + baseidx' * fm_sps
     in if found = 0 \<and> (baseaddr + sz) mod 2 ^ 64 > lim then UseLarge
        else
          let found' = (if found \<noteq> 0 then found + fm_sps
                        else if aligned (of_nat baseaddr :: mword) (of_nat align) then fm_sps else 0)
          in if found' \<ge> sz then Found baseidx' idx baseaddr
             else (case skip_small b idx found' of
                     None \<Rightarrow> NextSet
                   | Some (idx', found'') \<Rightarrow> scan_small key b sz align lim idx' found'' baseidx'))"
  by pat_completeness auto
termination
  by (relation "measure (\<lambda>(key, b, sz, align, lim, idx, found, baseidx). pagetableentries - idx)")
    (auto dest: skip_small_gt)

declare scan_small.simps [simp del]

fun search_small :: "(nat \<times> bitmap) list \<Rightarrow> nat \<Rightarrow> nat \<Rightarrow> nat \<Rightarrow> (nat \<times> bitmap \<times> nat \<times> nat \<times> nat) option" where
  "search_small [] sz align lim = None"
| "search_small ((key, b) # its) sz align lim =
    (case scan_small key b sz align lim (Bitmap_findset b) 0 0 of
       Found baseidx idx baseaddr \<Rightarrow> Some (key, b, baseidx, idx, baseaddr)
     | NextSet \<Rightarrow> search_small its sz align lim
     | UseLarge \<Rightarrow> None)"

function skip_large :: "hbitmap \<Rightarrow> mword \<Rightarrow> nat \<Rightarrow> nat \<Rightarrow> (nat \<times> nat) option" where
  "skip_large h bc idx found =
    (let idx' = (idx + 1) mod 2 ^ 64
     in if idx' \<ge> unat bc then None
        else if HB_test pagetableentries h idx' then Some (idx', found)
        else skip_large h bc idx' 0)"
  by pat_completeness auto

text \<open>Distance of an index to the bit count; an index behind it counts as before the start.\<close>

definition to_go :: "mword \<Rightarrow> nat \<Rightarrow> nat" where
  "to_go bc idx = (if idx < unat bc then unat bc - idx else unat bc + 1)"

lemma to_go_less: "(idx + 1) mod 2 ^ 64 < unat bc \<Longrightarrow> to_go bc ((idx + 1) mod 2 ^ 64) < to_go bc idx"
proof (cases "idx < unat bc")
  case True
  assume "(idx + 1) mod 2 ^ 64 < unat bc"
  moreover have "idx + 1 < 2 ^ 64 \<or> idx + 1 = 2 ^ 64"
    using True unat_lt_pow [of bc] by auto
  ultimately show ?thesis
  proof (elim disjE)
    assume "idx + 1 = 2 ^ 64"
    with True unat_lt_pow [of bc] show ?thesis by simp
  qed (auto simp: to_go_def)
qed (auto simp: to_go_def)

termination skip_large
  by (relation "measure (\<lambda>(h, bc, idx, found). to_go bc idx)") (auto simp: not_le intro: to_go_less [simplified])

declare skip_large.simps [simp del]

lemma skip_large_less: "skip_large h bc idx found = Some (idx', found') \<Longrightarrow> to_go bc idx' < to_go bc idx"
proof (induction h bc idx found rule: skip_large.induct)
  case (1 h bc idx found)
  let ?i = "(idx + 1) mod 2 ^ 64"
  have lt: "?i < unat bc" using "1.prems" by (auto simp: skip_large.simps [of h bc idx] Let_def split: if_splits)
  show ?case
  proof (cases "HB_test pagetableentries h ?i")
    case True
    then show ?thesis
      using "1.prems" lt to_go_less [OF lt] by (auto simp: skip_large.simps [of h bc idx] Let_def not_le)
  next
    case False
    then have "skip_large h bc ?i 0 = Some (idx', found')"
      using "1.prems" lt by (simp add: skip_large.simps [of h bc idx] Let_def)
    with "1.IH" [OF refl _ False] lt to_go_less [OF lt] show ?thesis by simp
  qed
qed

function scan_large :: "hbitmap \<Rightarrow> mword \<Rightarrow> nat \<Rightarrow> nat \<Rightarrow> nat \<Rightarrow> nat \<Rightarrow> nat \<Rightarrow> nat \<Rightarrow> (nat \<times> nat \<times> nat) option" where
  "scan_large h bc sz align lim idx found baseidx =
    (let baseidx' = (if found \<noteq> 0 then baseidx else idx);
         baseaddr = (baseidx' * fm_dps) mod 2 ^ 64
     in if found = 0 \<and> (baseaddr + sz) mod 2 ^ 64 > lim then None
        else
          let found' = (if found \<noteq> 0 then found + fm_dps
                        else if aligned (of_nat baseaddr :: mword) (of_nat align) then fm_dps else 0)
          in if found' \<ge> sz then Some (baseidx', idx, baseaddr)
             else (case skip_large h bc idx found' of
                     None \<Rightarrow> None
                   | Some (idx', found'') \<Rightarrow> scan_large h bc sz align lim idx' found'' baseidx'))"
  by pat_completeness auto
termination
  by (relation "measure (\<lambda>(h, bc, sz, align, lim, idx, found, baseidx). to_go bc idx)")
    (auto dest: skip_large_less)

declare scan_large.simps [simp del]

definition fm_align_up :: "nat \<Rightarrow> nat \<Rightarrow> nat" where
  "fm_align_up x a = unat (align_up (of_nat x :: mword) (of_nat a))"

definition contig_use_large :: "framemgr \<Rightarrow> nat \<Rightarrow> nat \<Rightarrow> (framemgr \<times> nat) option" where
  "contig_use_large fm sz lim = do {
     fm1 \<leftarrow> lp_acquire fm;
     let idx = HB_findset pagetableentries (largeFrames fm1);
     (if (idx * fm_dps + sz) mod 2 ^ 64 > lim then Some (lp_release fm1, fm_top)
      else do {
        let fm2 = fm1\<lparr>largeFrames := HB_clear pagetableentries (largeFrames fm1) idx,
                      smallFrames := smap_emplace idx (Bitmap_filled pagetableentries) (smallFrames fm1)\<rparr>;
        b \<leftarrow> map_of (smallFrames fm2) idx;
        let b' = foldl Bitmap_clear b [0..<sz div fm_sps];
        kassert (\<not> Bitmap_empty b');
        Some (lp_release (fm2\<lparr>smallFrames := smap_set idx b' (smallFrames fm2)\<rparr>), (idx * fm_dps) mod 2 ^ 64) }) }"

definition allocContig :: "framemgr \<Rightarrow> nat \<Rightarrow> nat \<Rightarrow> nat \<Rightarrow> (framemgr \<times> nat \<times> nat) option" where
  "allocContig fm sz align lim = (
     let sz1 = fm_align_up sz fm_sps
     in if sz1 < fm_dps
        then (case search_small (smallFrames fm) sz1 align lim of
                Some (key, b, baseidx, idx, baseaddr) \<Rightarrow>
                  let b' = foldl Bitmap_clear b [baseidx..<Suc idx];
                      sm = smap_set key b' (smallFrames fm);
                      sm' = (if Bitmap_empty b' then smap_erase key sm else sm)
                  in Some (fm\<lparr>smallFrames := sm'\<rparr>, sz1, baseaddr)
              | None \<Rightarrow> do { (fm', addr) \<leftarrow> contig_use_large fm sz1 lim; Some (fm', sz1, addr) })
        else do {
          fm1 \<leftarrow> lp_acquire fm;
          let sz2 = fm_align_up sz1 fm_dps;
          (case scan_large (largeFrames fm1) (bitcount fm1) sz2 align lim
                  (HB_findset pagetableentries (largeFrames fm1)) 0 0 of
             None \<Rightarrow> Some (lp_release fm1, sz2, fm_top)
           | Some (baseidx, idx, baseaddr) \<Rightarrow>
               Some (lp_release (fm1\<lparr>largeFrames :=
                   foldl (HB_clear pagetableentries) (largeFrames fm1) [baseidx..<Suc idx]\<rparr>), sz2, baseaddr)) })"

section \<open>The ordered map\<close>

lemma fm_consts [simp]:
  "pagetableentries = 512" "fm_sps = 4096" "fm_dps = 2097152" "kernelpl = 2" "fm_top = 2 ^ 64 - 1"
  "unat (pagesize 2) = 2097152" "unat (pagesize (Suc 0)) = 4096" "Bitmap_N 512 = 8"
  by (simp_all add: layout_defs fm_sps_def fm_dps_def kernelpl_def unat_pagesize fm_top_def topaddr_def
      limit_def unsigned_minus_1_eq_mask mask_eq_exp_minus_1 Bitmap_N_def)

definition smap_ok :: "(nat \<times> 'v) list \<Rightarrow> bool" where
  "smap_ok es \<longleftrightarrow> sorted_wrt (<) (map fst es)"

lemma smap_ok_Cons: "smap_ok (e # es) \<longleftrightarrow> (\<forall>x \<in> set es. fst e < fst x) \<and> smap_ok es"
  by (auto simp: smap_ok_def)

lemma map_of_above: "(\<forall>x \<in> set es. k < fst x) \<Longrightarrow> map_of es k = None" for k :: nat
  by (force simp: map_of_eq_None_iff)

lemma smap_emplace_keys: "fst ` set (smap_emplace k v es) = insert k (fst ` set es)"
  by (induction es) auto

lemma smap_ok_emplace: "smap_ok es \<Longrightarrow> smap_ok (smap_emplace k v es)"
proof (induction es)
  case (Cons e es)
  have "\<forall>x \<in> set (smap_emplace k v es). fst x \<in> insert k (fst ` set es)"
    using smap_emplace_keys [of k v es] by blast
  with Cons show ?case by (fastforce simp: smap_ok_Cons)
qed (simp add: smap_ok_def)

lemma map_of_emplace:
  "smap_ok es \<Longrightarrow> map_of (smap_emplace k v es) j =
    (if j = k then (case map_of es k of None \<Rightarrow> Some v | Some w \<Rightarrow> Some w) else map_of es j)"
proof (induction es)
  case (Cons e es)
  obtain a b where e: "e = (a, b)" by (cases e)
  have "map_of es k = None" if "k < a"
    using Cons.prems that e by (intro map_of_above) (auto simp: smap_ok_Cons)
  with Cons show ?case by (auto simp: e smap_ok_Cons split: option.splits)
qed simp

lemma smap_ok_set: "smap_ok es \<Longrightarrow> smap_ok (smap_set k v es)"
  by (induction es) (auto simp: smap_ok_Cons smap_set_def)

lemma map_of_set: "map_of (smap_set k v es) j = (if j = k \<and> map_of es k \<noteq> None then Some v else map_of es j)"
  by (induction es) (auto simp: smap_set_def)

lemma smap_ok_erase: "smap_ok es \<Longrightarrow> smap_ok (smap_erase k es)"
  by (induction es) (auto simp: smap_ok_Cons smap_erase_def)

lemma map_of_erase: "map_of (smap_erase k es) j = (if j = k then None else map_of es j)"
  by (induction es) (auto simp: smap_erase_def)

section \<open>Small bitmaps\<close>

text \<open>A bitmap of 512 bits, and its set bits.\<close>

definition bm_ok :: "bitmap \<Rightarrow> bool" where
  "bm_ok b \<longleftrightarrow> length b = 8"

lemma bm_cap: "bm_ok b \<Longrightarrow> length b = 8 \<and> b \<noteq> [] \<and> 8 < (2::nat) ^ 58"
  by (auto simp: bm_ok_def)

lemmas bm_laws = bmap.test_put [OF bm_cap] bmap.test_del [OF bm_cap] bmap.empty_iff [OF bm_cap]

lemma bm_set [simp]: "bm_ok b \<Longrightarrow> bm_ok (Bitmap_set b i)" "bm_ok b \<Longrightarrow> bm_ok (Bitmap_clear b i)"
  "bm_ok (Bitmap_init 512 w)" "bm_ok (Bitmap_filled 512)"
  by (simp_all add: bm_ok_def)

lemma bm_empty: "bm_ok b \<Longrightarrow> Bitmap_empty b \<longleftrightarrow> (\<forall>j < 512. \<not> Bitmap_test b j)"
  using bmap.empty_iff [OF bm_cap, of b] by simp

lemma bm_full: "bm_ok b \<Longrightarrow> Bitmap_full b \<longleftrightarrow> (\<forall>j < 512. Bitmap_test b j)"
  using Bitmap_full_iff [of b] bm_cap [of b] by simp

lemma bm_find:
  assumes "bm_ok b" "\<not> Bitmap_empty b"
  shows "Bitmap_findset b < 512" "Bitmap_test b (Bitmap_findset b)"
  using bmap.find_hit [OF bm_cap [OF assms(1)] assms(2)] by simp_all

lemma bm_test_clear: "bm_ok b \<Longrightarrow> i < 512 \<Longrightarrow> j < 512 \<Longrightarrow> Bitmap_test (Bitmap_clear b i) j \<longleftrightarrow> j \<noteq> i \<and> Bitmap_test b j"
  using bmap.test_del [OF bm_cap, of b i j] by simp

lemma bm_test_set: "bm_ok b \<Longrightarrow> i < 512 \<Longrightarrow> j < 512 \<Longrightarrow> Bitmap_test (Bitmap_set b i) j \<longleftrightarrow> j = i \<or> Bitmap_test b j"
  using bmap.test_put [OF bm_cap, of b i j] by simp

lemma bm_fold_set:
  "bm_ok b \<Longrightarrow> \<forall>i \<in> set xs. i < 512 \<Longrightarrow> j < 512 \<Longrightarrow>
    bm_ok (foldl Bitmap_set b xs) \<and> (Bitmap_test (foldl Bitmap_set b xs) j \<longleftrightarrow> j \<in> set xs \<or> Bitmap_test b j)"
proof (induction xs arbitrary: b)
  case (Cons x xs)
  then show ?case using bm_test_set [of b x j] by auto
qed simp

lemma bm_fold_clear:
  "bm_ok b \<Longrightarrow> \<forall>i \<in> set xs. i < 512 \<Longrightarrow> j < 512 \<Longrightarrow>
    bm_ok (foldl Bitmap_clear b xs) \<and> (Bitmap_test (foldl Bitmap_clear b xs) j \<longleftrightarrow> j \<notin> set xs \<and> Bitmap_test b j)"
proof (induction xs arbitrary: b)
  case (Cons x xs)
  then show ?case using bm_test_clear [of b x j] by auto
qed simp

lemma bm_filled: "j < 512 \<Longrightarrow> Bitmap_test (Bitmap_filled 512) j"
  by (simp add: Bitmap_test_def Bitmap_filled_def Bitmap_init_def word_index_less
      bit_iff_and_push_bit_not_eq_0 [symmetric] bit_simps)

lemma bm_init0: "j < 512 \<Longrightarrow> \<not> Bitmap_test (Bitmap_init 512 0) j"
  using Bitmap_init_0 [of j 512] by simp

section \<open>Free frames and invariant\<close>

text \<open>
  Frames are numbered in units of 4 KB.  A frame is free if its 2 MB frame is in the
  hierarchical bitmap or its bit is set in the small bitmap of its 2 MB frame.
\<close>

definition fm_cap :: "framemgr \<Rightarrow> nat" where
  "fm_cap fm = unat (bitcount fm)"

definition large_free :: "framemgr \<Rightarrow> nat set" where
  "large_free fm = HB_members 512 (unat (bitcount fm)) (largeFrames fm)"

definition fm_free :: "framemgr \<Rightarrow> nat set" where
  "fm_free fm = {f. f div 512 \<in> large_free fm \<or>
    (\<exists>b. map_of (smallFrames fm) (f div 512) = Some b \<and> Bitmap_test b (f mod 512))}"

definition small_ok :: "framemgr \<Rightarrow> nat \<Rightarrow> bitmap \<Rightarrow> bool" where
  "small_ok fm k b \<longleftrightarrow> bm_ok b \<and> \<not> Bitmap_empty b \<and> \<not> Bitmap_full b \<and> k < fm_cap fm \<and> k \<notin> large_free fm"

definition fm_inv :: "framemgr \<Rightarrow> bool" where
  "fm_inv fm \<longleftrightarrow> HB_inv 512 (unat (bitcount fm)) (largeFrames fm) \<and> unat (bitcount fm) \<le> 2 ^ 27 \<and>
    large_free fm \<subseteq> {..<fm_cap fm} \<and> smap_ok (smallFrames fm) \<and>
    (\<forall>k b. map_of (smallFrames fm) k = Some b \<longrightarrow> small_ok fm k b) \<and> \<not> lplock fm"

lemma fm_invD:
  assumes "fm_inv fm"
  shows "HB_inv 512 (unat (bitcount fm)) (largeFrames fm)" "unat (bitcount fm) \<le> 2 ^ 27"
    "smap_ok (smallFrames fm)" "\<not> lplock fm"
    "map_of (smallFrames fm) k = Some b \<Longrightarrow> small_ok fm k b" "large_free fm \<subseteq> {..<fm_cap fm}"
  using assms by (auto simp: fm_inv_def)

lemma fm_cap_block:
  assumes "HB_inv 512 (unat (bitcount fm)) (largeFrames fm)" "k < fm_cap fm"
  shows "k < 512 * nblk 512 (unat (bitcount fm)) 0"
proof -
  have n: "0 < unat (bitcount fm)" "unat (bitcount fm) < 2 ^ 64"
    using assms(1) HB_shapeD(6,7) by (auto simp: HB_inv_def)
  then have "nblk 512 (unat (bitcount fm)) 0 = (unat (bitcount fm) - 1) div 512 + 1"
    by (simp add: nblk.simps sdivup_eq)
  then show ?thesis using assms(2) n by (simp add: fm_cap_def)
qed

text \<open>The hierarchical bitmap as seen by the frame manager.\<close>

lemma large_set:
  assumes "HB_inv 512 (unat (bitcount fm)) (largeFrames fm)" "k < fm_cap fm"
    "largeFrames fm' = HB_set 512 (largeFrames fm) k" "bitcount fm' = bitcount fm"
  shows "HB_inv 512 (unat (bitcount fm')) (largeFrames fm')" "large_free fm' = insert k (large_free fm)"
  using hbm.invar_put [OF assms(1), of k] hbm.members_put [OF assms(1), of k] assms(2-) fm_cap_block [OF assms(1,2)]
  by (simp_all add: large_free_def HB_members_hbm)

lemma large_clear:
  assumes "HB_inv 512 (unat (bitcount fm)) (largeFrames fm)" "k < fm_cap fm"
    "largeFrames fm' = HB_clear 512 (largeFrames fm) k" "bitcount fm' = bitcount fm"
  shows "HB_inv 512 (unat (bitcount fm')) (largeFrames fm')" "large_free fm' = large_free fm - {k}"
  using hbm.invar_del [OF assms(1), of k] hbm.members_del [OF assms(1), of k] assms(2-) fm_cap_block [OF assms(1,2)]
  by (simp_all add: large_free_def HB_members_hbm)

lemma large_find:
  assumes "fm_inv fm"
  shows "HB_findset 512 (largeFrames fm) = 2 ^ 64 - 1 \<longleftrightarrow> large_free fm = {}"
    "large_free fm \<noteq> {} \<Longrightarrow> HB_findset 512 (largeFrames fm) \<in> large_free fm"
    "k \<in> large_free fm \<Longrightarrow> k < fm_cap fm" "fm_cap fm \<le> 2 ^ 27"
proof -
  note H = fm_invD(1) [OF assms]
  show mem: "k < fm_cap fm" if "k \<in> large_free fm" for k
    using that fm_invD(6) [OF assms] by auto
  show cap: "fm_cap fm \<le> 2 ^ 27"
    using fm_invD(2) [OF assms] by (simp add: fm_cap_def)
  have fin: "finite (large_free fm)" by (simp add: large_free_def HB_members_hbm hbm.finite_members)
  note F = HB_findset_members [OF H, folded large_free_def]
  show hit: "HB_findset 512 (largeFrames fm) \<in> large_free fm" if "large_free fm \<noteq> {}"
    using F that Min_in [OF fin] by simp
  have "\<not> (2 ^ 64 - 1 :: nat) < 2 ^ 27" by simp
  with F hit mem cap show "HB_findset 512 (largeFrames fm) = 2 ^ 64 - 1 \<longleftrightarrow> large_free fm = {}"
    by (metis order_less_le_trans)
qed

section \<open>Single updates\<close>

lemma frame_split: "j < 512 \<Longrightarrow> f = 512 * k + j \<longleftrightarrow> f div 512 = k \<and> f mod 512 = j" for f k j :: nat
  by auto

lemma block_range:
  fixes k :: nat
  assumes "s + n \<le> 512"
  shows "{512 * k + s..<512 * k + s + n} = {f. f div 512 = k \<and> f mod 512 \<in> {s..<s + n}}"
proof (rule set_eqI)
  fix f :: nat
  define q r where "q = f div 512" and "r = f mod 512"
  have "f = 512 * q + r" "r < 512" by (simp_all add: q_def r_def)
  then have "512 * k + s \<le> f \<and> f < 512 * k + s + n \<longleftrightarrow> q = k \<and> s \<le> r \<and> r < s + n"
    using assms by (cases q k rule: linorder_cases) auto
  then show "f \<in> {512 * k + s..<512 * k + s + n} \<longleftrightarrow> f \<in> {f. f div 512 = k \<and> f mod 512 \<in> {s..<s + n}}"
    by (simp add: q_def r_def)
qed

lemma fm_free_iff:
  "f \<in> fm_free fm \<longleftrightarrow> f div 512 \<in> large_free fm \<or>
    (\<exists>b. map_of (smallFrames fm) (f div 512) = Some b \<and> Bitmap_test b (f mod 512))"
  by (simp add: fm_free_def)

lemma fm_free_large:
  "large_free fm' = large_free fm \<Longrightarrow> smallFrames fm' = smallFrames fm \<Longrightarrow> fm_free fm' = fm_free fm"
  by (simp add: fm_free_def)

lemma large_free_upd [simp]:
  "large_free (fm\<lparr>smallFrames := sm\<rparr>) = large_free fm" "large_free (fm\<lparr>lplock := l\<rparr>) = large_free fm"
  "fm_cap (fm\<lparr>smallFrames := sm\<rparr>) = fm_cap fm" "fm_cap (fm\<lparr>lplock := l\<rparr>) = fm_cap fm"
  "fm_cap (fm\<lparr>largeFrames := h\<rparr>) = fm_cap fm"
  by (simp_all add: large_free_def fm_cap_def)

text \<open>The bitmap of one large frame is replaced, or dropped when it has become empty.\<close>

lemma small_put:
  assumes "fm_inv fm" "k < fm_cap fm" "k \<notin> large_free fm" "bm_ok b" "\<not> Bitmap_full b"
    "smap_ok sm" "map_of sm = (map_of (smallFrames fm))(k \<mapsto> b)"
    "sm' = (if Bitmap_empty b then smap_erase k sm else sm)"
  shows "fm_inv (fm\<lparr>smallFrames := sm'\<rparr>)"
    "fm_free (fm\<lparr>smallFrames := sm'\<rparr>) =
      {f \<in> fm_free fm. f div 512 \<noteq> k} \<union> {f. f div 512 = k \<and> Bitmap_test b (f mod 512)}"
proof -
  have m: "map_of sm' j = (if j = k then if Bitmap_empty b then None else Some b else map_of (smallFrames fm) j)" for j
    using assms(7,8) by (simp add: map_of_erase)
  have ok: "smap_ok sm'" using assms(6,8) by (simp add: smap_ok_erase)
  have "small_ok fm j c" if "map_of sm' j = Some c" for j c
    using that m [of j] assms(2-5) fm_invD(5) [OF assms(1), of j c]
    by (auto simp: small_ok_def split: if_splits)
  then show "fm_inv (fm\<lparr>smallFrames := sm'\<rparr>)"
    using assms(1) ok by (auto simp: fm_inv_def small_ok_def)
  have "\<not> Bitmap_test b (f mod 512)" if "Bitmap_empty b" for f
    using bm_empty [OF assms(4)] that by simp
  then show "fm_free (fm\<lparr>smallFrames := sm'\<rparr>) =
      {f \<in> fm_free fm. f div 512 \<noteq> k} \<union> {f. f div 512 = k \<and> Bitmap_test b (f mod 512)}"
    using assms(3) by (intro set_eqI) (simp add: fm_free_iff m, blast?)
qed

lemma small_drop:
  assumes "fm_inv fm" "k \<notin> large_free fm" "smap_ok sm" "map_of sm = (map_of (smallFrames fm))(k := None)"
  shows "fm_inv (fm\<lparr>smallFrames := sm\<rparr>)"
    "fm_free (fm\<lparr>smallFrames := sm\<rparr>) = {f \<in> fm_free fm. f div 512 \<noteq> k}"
proof -
  have m: "map_of sm j = (if j = k then None else map_of (smallFrames fm) j)" for j
    using assms(4) by simp
  have "small_ok fm j c" if "map_of sm j = Some c" for j c
    using that m [of j] fm_invD(5) [OF assms(1), of j c] by (auto split: if_splits)
  then show "fm_inv (fm\<lparr>smallFrames := sm\<rparr>)"
    using assms(1,3) by (auto simp: fm_inv_def small_ok_def)
  show "fm_free (fm\<lparr>smallFrames := sm\<rparr>) = {f \<in> fm_free fm. f div 512 \<noteq> k}"
    using assms(2) by (intro set_eqI) (simp add: fm_free_iff m, blast?)
qed

lemma large_put:
  assumes "fm_inv fm" "k < fm_cap fm" "map_of (smallFrames fm) k = None"
  shows "fm_inv (fm\<lparr>largeFrames := HB_set 512 (largeFrames fm) k\<rparr>)"
    "fm_free (fm\<lparr>largeFrames := HB_set 512 (largeFrames fm) k\<rparr>) = fm_free fm \<union> {f. f div 512 = k}"
proof -
  let ?fm = "fm\<lparr>largeFrames := HB_set 512 (largeFrames fm) k\<rparr>"
  note L = large_set [OF fm_invD(1) [OF assms(1)] assms(2), of ?fm, simplified]
  have "small_ok ?fm j b" if "map_of (smallFrames fm) j = Some b" for j b
    using fm_invD(5) [OF assms(1) that] assms(3) that by (auto simp: small_ok_def L)
  then show "fm_inv ?fm" using assms(1,2) L by (simp add: fm_inv_def)
  show "fm_free ?fm = fm_free fm \<union> {f. f div 512 = k}"
    by (rule set_eqI, simp only: fm_free_iff Un_iff mem_Collect_eq L) (auto simp: L)
qed

lemma large_del:
  assumes "fm_inv fm" "k \<in> large_free fm"
  shows "fm_inv (fm\<lparr>largeFrames := HB_clear 512 (largeFrames fm) k\<rparr>)"
    "large_free (fm\<lparr>largeFrames := HB_clear 512 (largeFrames fm) k\<rparr>) = large_free fm - {k}"
    "fm_free (fm\<lparr>largeFrames := HB_clear 512 (largeFrames fm) k\<rparr>) = {f \<in> fm_free fm. f div 512 \<noteq> k}"
    "map_of (smallFrames fm) k = None"
proof -
  let ?fm = "fm\<lparr>largeFrames := HB_clear 512 (largeFrames fm) k\<rparr>"
  have k: "k < fm_cap fm" using large_find(3) [OF assms(1,2)] .
  note L = large_clear [OF fm_invD(1) [OF assms(1)] k, of ?fm, simplified]
  show "large_free ?fm = large_free fm - {k}" by (rule L)
  have "small_ok ?fm j b" if "map_of (smallFrames fm) j = Some b" for j b
    using fm_invD(5) [OF assms(1) that] by (auto simp: small_ok_def L)
  moreover have "large_free fm - {k} \<subseteq> {..<fm_cap fm}" using fm_invD(6) [OF assms(1)] by auto
  ultimately show "fm_inv ?fm" using assms(1) L by (simp add: fm_inv_def)
  show none: "map_of (smallFrames fm) k = None"
    using fm_invD(5) [OF assms(1), of k] assms(2) by (cases "map_of (smallFrames fm) k") (auto simp: small_ok_def)
  show "fm_free ?fm = {f \<in> fm_free fm. f div 512 \<noteq> k}"
    by (rule set_eqI, simp only: fm_free_iff mem_Collect_eq L) (use none in auto)
qed

lemma small_head:
  assumes "smap_ok sm" "sm \<noteq> []"
  shows "map_of sm (fst (hd sm)) = Some (snd (hd sm))"
  using assms by (cases sm) auto

section \<open>Allocation of one frame\<close>

text \<open>One 4 KB frame is taken out of the bitmap \<open>b\<close> of large frame \<open>k\<close>.\<close>

lemma take_small:
  assumes "fm_inv fm" "k < fm_cap fm" "k \<notin> large_free fm" "bm_ok b" "\<not> Bitmap_empty b"
    "smap_ok sm" "map_of sm = (map_of (smallFrames fm))(k \<mapsto> b)"
    "idx2 = Bitmap_findset b" "b' = Bitmap_clear b idx2" "sm' = smap_set k b' sm"
    "sm'' = (if Bitmap_empty b' then smap_erase k sm' else sm')"
  shows "fm_inv (fm\<lparr>smallFrames := sm''\<rparr>)"
    "fm_free (fm\<lparr>smallFrames := sm''\<rparr>) =
      {f \<in> fm_free fm. f div 512 \<noteq> k} \<union> ({f. f div 512 = k \<and> Bitmap_test b (f mod 512)} - {512 * k + idx2})"
    "idx2 < 512" "Bitmap_test b idx2"
proof -
  show i: "idx2 < 512" "Bitmap_test b idx2" using bm_find [OF assms(4,5)] assms(8) by simp_all
  have t: "Bitmap_test b' j \<longleftrightarrow> j \<noteq> idx2 \<and> Bitmap_test b j" if "j < 512" for j
    using bm_test_clear [OF assms(4) i(1) that] assms(9) by simp
  have ok: "bm_ok b'" using assms(4,9) by simp
  have nf: "\<not> Bitmap_full b'" using bm_full [OF ok] t [OF i(1)] i(1) by blast
  have m: "map_of sm' = (map_of (smallFrames fm))(k \<mapsto> b')"
    using assms(7,10) by (auto simp: map_of_set fun_eq_iff)
  note P = small_put [OF assms(1-3) ok nf _ m assms(11)]
  have s: "smap_ok sm'" using assms(6,10) by (simp add: smap_ok_set)
  show "fm_inv (fm\<lparr>smallFrames := sm''\<rparr>)" by (rule P(1) [OF s])
  have "{f. f div 512 = k \<and> Bitmap_test b' (f mod 512)} =
      {f. f div 512 = k \<and> Bitmap_test b (f mod 512)} - {512 * k + idx2}"
    using i(1) by (auto simp: t frame_split [OF i(1)])
  with P(2) [OF s] show "fm_free (fm\<lparr>smallFrames := sm''\<rparr>) =
      {f \<in> fm_free fm. f div 512 \<noteq> k} \<union> ({f. f div 512 = k \<and> Bitmap_test b (f mod 512)} - {512 * k + idx2})"
    by simp
qed

lemma lp_acquire_free: "\<not> lplock fm \<Longrightarrow> lp_acquire fm = Some (fm\<lparr>lplock := True\<rparr>)"
  by (simp add: lp_acquire_def)

lemma lplock_back: "\<not> lplock fm \<Longrightarrow> lp_release (fm\<lparr>lplock := True, largeFrames := h\<rparr>) = fm\<lparr>largeFrames := h\<rparr>"
  "\<not> lplock fm \<Longrightarrow> lp_release (fm\<lparr>lplock := True\<rparr>) = fm"
  by (simp_all add: lp_release_def)

lemma fm_free_empty:
  assumes "fm_inv fm"
  shows "fm_free fm = {} \<longleftrightarrow> smallFrames fm = [] \<and> large_free fm = {}"
proof
  assume e: "fm_free fm = {}"
  have "large_free fm = {}"
  proof (rule ccontr)
    assume "large_free fm \<noteq> {}"
    then obtain k where "k \<in> large_free fm" by blast
    then have "512 * k \<in> fm_free fm" by (simp add: fm_free_iff)
    with e show False by simp
  qed
  moreover have "smallFrames fm = []"
  proof (rule ccontr)
    assume ne: "smallFrames fm \<noteq> []"
    let ?k = "fst (hd (smallFrames fm))" and ?b = "snd (hd (smallFrames fm))"
    have m: "map_of (smallFrames fm) ?k = Some ?b" by (rule small_head [OF fm_invD(3) [OF assms] ne])
    then have "bm_ok ?b" "\<not> Bitmap_empty ?b" using fm_invD(5) [OF assms] by (auto simp: small_ok_def)
    from bm_find [OF this] m have "512 * ?k + Bitmap_findset ?b \<in> fm_free fm" by (simp add: fm_free_iff)
    with e show False by simp
  qed
  ultimately show "smallFrames fm = [] \<and> large_free fm = {}" by simp
qed (simp add: fm_free_def)

lemma fm_free_block:
  assumes "fm_inv fm" "map_of (smallFrames fm) k = Some b"
  shows "{f. f div 512 = k \<and> Bitmap_test b (f mod 512)} = {f \<in> fm_free fm. f div 512 = k}"
  using fm_invD(5) [OF assms] assms(2) by (auto simp: fm_free_iff small_ok_def)

lemma allocFrame_1_small:
  assumes "fm_inv fm" "smallFrames fm \<noteq> []"
  shows "\<exists>fm' f. allocFrame 1 fm = Some (fm', 4096 * f) \<and> fm_inv fm' \<and> bitcount fm' = bitcount fm \<and>
    f \<in> fm_free fm \<and> fm_free fm' = fm_free fm - {f}"
proof -
  define k b where "k = fst (hd (smallFrames fm))" and "b = snd (hd (smallFrames fm))"
  have m: "map_of (smallFrames fm) k = Some b"
    unfolding k_def b_def by (rule small_head [OF fm_invD(3) [OF assms(1)] assms(2)])
  have ok: "k < fm_cap fm" "k \<notin> large_free fm" "bm_ok b" "\<not> Bitmap_empty b"
    using fm_invD(5) [OF assms(1) m] by (auto simp: small_ok_def)
  have mm: "map_of (smallFrames fm) = (map_of (smallFrames fm))(k \<mapsto> b)" using m by auto
  let ?i = "Bitmap_findset b"
  let ?sm = "smap_set k (Bitmap_clear b ?i) (smallFrames fm)"
  let ?fm = "fm\<lparr>smallFrames := if Bitmap_empty (Bitmap_clear b ?i) then smap_erase k ?sm else ?sm\<rparr>"
  note T = take_small [OF assms(1) ok fm_invD(3) [OF assms(1)] mm refl refl refl refl]
  have "512 * k + ?i \<in> fm_free fm" using m T(3,4) by (simp add: fm_free_iff)
  moreover have "fm_free ?fm = fm_free fm - {512 * k + ?i}"
    using T(2,3) fm_free_block [OF assms(1) m] by auto
  moreover have "allocFrame 1 fm = Some (?fm, 4096 * (512 * k + ?i))"
    using assms(2) by (simp add: allocFrame_def k_def b_def Let_def)
  moreover have "bitcount ?fm = bitcount fm" by simp
  ultimately show ?thesis using T(1) by blast
qed

lemma allocFrame_1_large:
  assumes "fm_inv fm" "smallFrames fm = []" "large_free fm \<noteq> {}"
  shows "\<exists>fm' f. allocFrame 1 fm = Some (fm', 4096 * f) \<and> fm_inv fm' \<and> bitcount fm' = bitcount fm \<and>
    f \<in> fm_free fm \<and> fm_free fm' = fm_free fm - {f}"
proof -
  define k where "k = HB_findset 512 (largeFrames fm)"
  have k: "k \<in> large_free fm" "k \<noteq> 2 ^ 64 - 1" "k < fm_cap fm"
    using large_find(1,2) [OF assms(1)] large_find(3) [OF assms(1), of k] assms(3) by (simp_all add: k_def)
  let ?f1 = "fm\<lparr>largeFrames := HB_clear 512 (largeFrames fm) k\<rparr>"
  let ?b = "Bitmap_filled 512"
  let ?i = "Bitmap_findset ?b"
  let ?sm = "smap_set k (Bitmap_clear ?b ?i) [(k, ?b)]"
  let ?fm = "?f1\<lparr>smallFrames := if Bitmap_empty (Bitmap_clear ?b ?i) then smap_erase k ?sm else ?sm\<rparr>"
  note D = large_del [OF assms(1) k(1)]
  have ne: "\<not> Bitmap_empty ?b" using bm_empty [of ?b] bm_filled [of 0] by auto
  have mm: "map_of [(k, ?b)] = (map_of (smallFrames ?f1))(k \<mapsto> ?b)" using assms(2) by auto
  have "k < fm_cap ?f1" "k \<notin> large_free ?f1" using k(3) D(2) by simp_all
  note T = take_small [OF D(1) this bm_set(4) ne _ mm refl refl refl refl]
  have s: "smap_ok [(k, ?b)]" by (simp add: smap_ok_def)
  have blk: "{f. f div 512 = k \<and> Bitmap_test ?b (f mod 512)} = {f \<in> fm_free fm. f div 512 = k}"
    using k(1) by (auto simp: bm_filled fm_free_iff)
  have "512 * k + ?i \<in> fm_free fm" using k(1) T(3) [OF s] by (simp add: fm_free_iff)
  moreover have "fm_free ?fm = fm_free fm - {512 * k + ?i}"
    using T(2,3) [OF s] blk D(3) by auto
  moreover have "allocFrame 1 fm = Some (?fm, 4096 * (512 * k + ?i))"
    using assms(2) k(2) fm_invD(4) [OF assms(1)]
    by (simp add: allocFrame_def lp_acquire_free lp_release_def Let_def k_def [symmetric])
  moreover have "bitcount ?fm = bitcount fm" by simp
  ultimately show ?thesis using T(1) [OF s] by blast
qed

lemma allocFrame_1:
  assumes "fm_inv fm" "fm_free fm \<noteq> {}"
  shows "\<exists>fm' f. allocFrame 1 fm = Some (fm', 4096 * f) \<and> fm_inv fm' \<and> bitcount fm' = bitcount fm \<and>
    f \<in> fm_free fm \<and> fm_free fm' = fm_free fm - {f}"
  using allocFrame_1_small [OF assms(1)] allocFrame_1_large [OF assms(1)] fm_free_empty [OF assms(1)] assms(2)
  by blast

lemma allocFrame_1_none:
  assumes "fm_inv fm" "fm_free fm = {}"
  shows "allocFrame 1 fm = Some (fm\<lparr>lplock := True\<rparr>, fm_top)"
  using fm_free_empty [OF assms(1)] assms large_find(1) [OF assms(1)] fm_invD(4) [OF assms(1)]
  by (simp add: allocFrame_def lp_acquire_free Let_def)

lemma allocFrame_2:
  assumes "fm_inv fm" "large_free fm \<noteq> {}"
  shows "\<exists>fm' k. allocFrame 2 fm = Some (fm', 2097152 * k) \<and> fm_inv fm' \<and> bitcount fm' = bitcount fm \<and>
    k \<in> large_free fm \<and> {f. f div 512 = k} \<subseteq> fm_free fm \<and> fm_free fm' = fm_free fm - {f. f div 512 = k}"
proof -
  define k where "k = HB_findset 512 (largeFrames fm)"
  have k: "k \<in> large_free fm" "k \<noteq> 2 ^ 64 - 1"
    using large_find(1,2) [OF assms(1)] assms(2) by (simp_all add: k_def)
  note D = large_del [OF assms(1) k(1)]
  let ?fm = "fm\<lparr>largeFrames := HB_clear 512 (largeFrames fm) k\<rparr>"
  have "allocFrame 2 fm = Some (?fm, 2097152 * k)"
    using k(2) fm_invD(4) [OF assms(1)]
    by (simp add: allocFrame_def lp_acquire_free lplock_back Let_def k_def [symmetric])
  moreover have "{f. f div 512 = k} \<subseteq> fm_free fm" using k(1) by (auto simp: fm_free_iff)
  moreover have "fm_free ?fm = fm_free fm - {f. f div 512 = k}" using D(3) by auto
  moreover have "bitcount ?fm = bitcount fm" by simp
  ultimately show ?thesis using D(1) k(1) by blast
qed

lemma allocFrame_2_none:
  assumes "fm_inv fm" "large_free fm = {}"
  shows "allocFrame 2 fm = Some (fm, fm_top)"
  using assms large_find(1) [OF assms(1)] fm_invD(4) [OF assms(1)]
  by (simp add: allocFrame_def lp_acquire_free lplock_back Let_def)

section \<open>Release\<close>

lemma releaseSmall_spec:
  assumes "fm_inv fm" "4096 dvd addr" "4096 \<le> sz" "addr div 2097152 < fm_cap fm" "f0 = addr div 4096"
    "n = min (512 - f0 mod 512) (sz div 4096)" "{f0..<f0 + n} \<inter> fm_free fm = {}"
  shows "\<exists>fm'. releaseSmall fm addr sz = Some (fm', 4096 * n) \<and> 0 < n \<and> fm_inv fm' \<and>
    bitcount fm' = bitcount fm \<and> fm_free fm' = fm_free fm \<union> {f0..<f0 + n}"
proof -
  define k s where "k = addr div 2097152" and "s = f0 mod 512"
  have ks: "f0 div 512 = k" "addr mod 2097152 div 4096 = s" "s < 512" "f0 = 512 * k + s"
    using assms(2,5) mod_mult_mult1 [of 4096 f0 512] by (auto simp: k_def s_def elim!: dvdE)
  have n: "0 < n" "s + n \<le> 512" "min 512 (s + sz div 4096) = s + n"
    using assms(3,6) ks(3) by (auto simp: s_def min_def split: if_splits)
  have rng: "{f0..<f0 + n} = {f. f div 512 = k \<and> f mod 512 \<in> {s..<s + n}}"
    unfolding ks(4) by (rule block_range [OF n(2)])
  have kl: "k \<notin> large_free fm"
  proof
    assume "k \<in> large_free fm"
    then have "f0 \<in> fm_free fm" using ks(1) by (simp add: fm_free_iff)
    moreover have "f0 \<in> {f0..<f0 + n}" using n(1) by simp
    ultimately show False using assms(7) by blast
  qed
  have kc: "k < fm_cap fm" using assms(4) by (simp add: k_def)
  let ?e = "Bitmap_init 512 0"
  define b where "b = (case map_of (smallFrames fm) k of None \<Rightarrow> ?e | Some b \<Rightarrow> b)"
  have b: "bm_ok b" "{f. f div 512 = k \<and> Bitmap_test b (f mod 512)} = {f \<in> fm_free fm. f div 512 = k}"
    using fm_free_block [OF assms(1), of k b] fm_invD(5) [OF assms(1), of k b] kl
    by (auto simp: b_def small_ok_def fm_free_iff bm_init0 split: option.splits)
  let ?sm = "smap_emplace k ?e (smallFrames fm)"
  define b' where "b' = foldl Bitmap_set b [s..<s + n]"
  have t: "bm_ok b'" "j < 512 \<Longrightarrow> Bitmap_test b' j \<longleftrightarrow> j \<in> {s..<s + n} \<or> Bitmap_test b j" for j
    using bm_fold_set [OF b(1), of "[s..<s + n]" 0] bm_fold_set [OF b(1), of "[s..<s + n]" j] n(2)
    by (simp_all add: b'_def)
  have blk: "{f. f div 512 = k \<and> Bitmap_test b' (f mod 512)} = {f0..<f0 + n} \<union> {f \<in> fm_free fm. f div 512 = k}"
    unfolding rng b(2) [symmetric] using t(2) by auto
  let ?sm' = "smap_set k b' ?sm"
  have mb: "map_of ?sm k = Some b"
    using map_of_emplace [OF fm_invD(3) [OF assms(1)], of k ?e k] by (simp add: b_def split: option.splits)
  have ok: "smap_ok ?sm'" "smap_ok (smap_erase k ?sm')"
    using fm_invD(3) [OF assms(1)] by (simp_all add: smap_ok_set smap_ok_emplace smap_ok_erase)
  have mm: "map_of ?sm' = (map_of (smallFrames fm))(k \<mapsto> b')"
    using map_of_emplace [OF fm_invD(3) [OF assms(1)], of k ?e] mb by (auto simp: map_of_set fun_eq_iff)
  have def: "releaseSmall fm addr sz = do {
      fm' \<leftarrow> (if Bitmap_full b'
              then do { fm1 \<leftarrow> lp_acquire (fm\<lparr>smallFrames := smap_erase k ?sm'\<rparr>);
                        Some (lp_release (fm1\<lparr>largeFrames := HB_set 512 (largeFrames fm1) k\<rparr>)) }
              else Some (fm\<lparr>smallFrames := ?sm'\<rparr>));
      Some (fm', 4096 * n) }"
    using ks(2) n(3) mb by (simp add: releaseSmall_def Let_def k_def [symmetric] b'_def mult.commute)
  show ?thesis
  proof (cases "Bitmap_full b'")
    case True
    let ?f1 = "fm\<lparr>smallFrames := smap_erase k ?sm'\<rparr>"
    have me: "map_of (smap_erase k ?sm') = (map_of (smallFrames fm))(k := None)"
      using mm by (auto simp: map_of_erase fun_eq_iff)
    note S = small_drop [OF assms(1) kl ok(2) me]
    have "k < fm_cap ?f1" "map_of (smallFrames ?f1) k = None" using kc me by simp_all
    note L = large_put [OF S(1) this]
    let ?f2 = "?f1\<lparr>largeFrames := HB_set 512 (largeFrames ?f1) k\<rparr>"
    have "{f. f div 512 = k} = {f0..<f0 + n} \<union> {f \<in> fm_free fm. f div 512 = k}"
      using True bm_full [OF t(1)] blk by auto
    then have "fm_free ?f2 = fm_free fm \<union> {f0..<f0 + n}" unfolding L(2) S(2) by auto
    moreover have "releaseSmall fm addr sz = Some (?f2, 4096 * n)"
      using True fm_invD(4) [OF assms(1)] by (simp add: def lp_acquire_free lp_release_def)
    moreover have "bitcount ?f2 = bitcount fm" by simp
    ultimately show ?thesis using L(1) n(1) by blast
  next
    case False
    have ne: "\<not> Bitmap_empty b'" using bm_empty [OF t(1)] t(2) [OF ks(3)] n(1) ks(3) by auto
    note P = small_put [OF assms(1) kc kl t(1) False ok(1) mm refl, unfolded if_not_P [OF ne]]
    have "fm_free (fm\<lparr>smallFrames := ?sm'\<rparr>) = fm_free fm \<union> {f0..<f0 + n}"
      unfolding P(2) blk by auto
    moreover have "releaseSmall fm addr sz = Some (fm\<lparr>smallFrames := ?sm'\<rparr>, 4096 * n)"
      using False by (simp add: def)
    moreover have "bitcount (fm\<lparr>smallFrames := ?sm'\<rparr>) = bitcount fm" by simp
    ultimately show ?thesis using P(1) n(1) by blast
  qed
qed

lemma releaseFrame_1:
  assumes "fm_inv fm" "f < 512 * fm_cap fm" "f \<notin> fm_free fm"
  shows "\<exists>fm'. releaseFrame 1 fm (4096 * f) = Some fm' \<and> fm_inv fm' \<and> bitcount fm' = bitcount fm \<and>
    fm_free fm' = insert f (fm_free fm)"
proof -
  have m: "1 = min (512 - f mod 512) (4096 div 4096)"
    using mod_less_divisor [of 512 f] by (simp del: mod_less_divisor)
  have s: "{f..<f + 1} = {f}" by auto
  have "\<exists>fm'. releaseSmall fm (4096 * f) 4096 = Some (fm', 4096 * 1) \<and> 0 < (1::nat) \<and> fm_inv fm' \<and>
      bitcount fm' = bitcount fm \<and> fm_free fm' = fm_free fm \<union> {f..<f + 1}"
    using assms by (intro releaseSmall_spec [OF assms(1) _ _ _ _ m]) (auto simp: s)
  then obtain fm' where "releaseSmall fm (4096 * f) 4096 = Some (fm', 4096)" "fm_inv fm'"
    "bitcount fm' = bitcount fm" "fm_free fm' = insert f (fm_free fm)" by (auto simp: s)
  then show ?thesis by (simp add: releaseFrame_def)
qed

lemma releaseFrame_2:
  assumes "fm_inv fm" "k < fm_cap fm" "{f. f div 512 = k} \<inter> fm_free fm = {}"
  shows "\<exists>fm'. releaseFrame 2 fm (2097152 * k) = Some fm' \<and> fm_inv fm' \<and> bitcount fm' = bitcount fm \<and>
    fm_free fm' = fm_free fm \<union> {f. f div 512 = k}"
proof -
  have "map_of (smallFrames fm) k = None"
  proof (cases "map_of (smallFrames fm) k")
    case (Some b)
    then have "{f \<in> fm_free fm. f div 512 = k} = {}" "bm_ok b" "\<not> Bitmap_empty b"
      using fm_invD(5) [OF assms(1) Some] assms(3) by (auto simp: small_ok_def)
    moreover from this have "512 * k + Bitmap_findset b \<in> {f. f div 512 = k \<and> Bitmap_test b (f mod 512)}"
      using bm_find [of b] by simp
    ultimately show ?thesis using fm_free_block [OF assms(1) Some] by (metis empty_iff)
  qed
  note L = large_put [OF assms(1,2) this]
  have "releaseFrame 2 fm (2097152 * k) = Some (fm\<lparr>largeFrames := HB_set 512 (largeFrames fm) k\<rparr>)"
    using fm_invD(4) [OF assms(1)] by (simp add: releaseFrame_def lp_acquire_free lplock_back)
  with L show ?thesis by auto
qed

text \<open>The levels of \<open>releaseRegion\<close>: a small release exactly when no whole large frame starts here.\<close>

lemma le_ctz_iff:
  fixes x :: "'a::len word"
  assumes "x \<noteq> 0"
  shows "n \<le> ctz x \<longleftrightarrow> 2 ^ n dvd unat x"
proof -
  have "2 ^ n dvd unat x \<longleftrightarrow> take_bit n x = 0"
    by (metis dvd_eq_mod_eq_0 take_bit_eq_mod unat_eq_0 unsigned_take_bit_eq)
  also have "\<dots> \<longleftrightarrow> (\<forall>i < n. \<not> bit x i)"
    by (auto simp: bit_eq_iff bit_take_bit_iff dest: bit_imp_le_length)
  also have "\<dots> \<longleftrightarrow> n \<le> ctz x"
    using bit_ctz [OF assms] bit_below_ctz [of _ x] by (meson leI le_less_trans not_le)
  finally show ?thesis by simp
qed

lemma le_top_bit_iff: "x \<noteq> 0 \<Longrightarrow> n \<le> top_bit x \<longleftrightarrow> 2 ^ n \<le> unat x" for x :: "'a::len word"
proof
  assume *: "x \<noteq> 0" "2 ^ n \<le> unat x"
  then have "(2::nat) ^ n < 2 ^ Suc (top_bit x)" using top_bit_bounds(2) [of x] by linarith
  then show "n \<le> top_bit x" by (simp del: power_Suc)
qed (use top_bit_bounds(1) [of x] in \<open>meson one_le_numeral order_trans power_increasing\<close>)

lemma alignment_nat: "nat (alignment (x :: mword)) = (if x = 0 then 64 else ctz x)"
proof -
  have "to_int (64 :: mword) = 64" by (simp add: to_int_def)
  then show ?thesis by (simp add: alignment_def lsbcond_def)
qed

lemma level_ge: "a < 2 ^ 64 \<Longrightarrow> 12 \<le> a \<Longrightarrow> 1 + (a + 2 ^ 64 - 12) mod 2 ^ 64 div 9 < (2::nat) \<longleftrightarrow> a < 21"
proof -
  assume "a < 2 ^ 64" "12 \<le> a"
  then have "(a + 2 ^ 64 - 12) mod 2 ^ 64 = a - 12" by (simp add: mod_if)
  then show ?thesis using \<open>12 \<le> a\<close> by auto
qed

lemma region_level_small:
  assumes "4096 dvd addr" "addr < 2 ^ 64" "4096 \<le> sz" "sz < 2 ^ 64"
  shows "region_level addr sz < 2 \<longleftrightarrow> \<not> (2097152 dvd addr \<and> 2097152 \<le> sz)"
proof -
  let ?a = "of_nat addr :: mword" and ?s = "of_nat sz :: mword"
  have u: "unat ?a = addr" "unat ?s = sz" using assms(2,4) by (simp_all add: unat_of_nat)
  have s0: "?s \<noteq> 0" using u(2) assms(3) by auto
  have a: "12 \<le> nat (alignment ?a)" "nat (alignment ?a) < 2 ^ 64"
      "nat (alignment ?a) < 21 \<longleftrightarrow> \<not> 2097152 dvd addr"
    using le_ctz_iff [of ?a 12] le_ctz_iff [of ?a 21] u(1) assms(1) ctz_le [of ?a]
    by (auto simp: alignment_nat)
  have f: "12 \<le> nat (floorlog2 ?s)" "nat (floorlog2 ?s) < 2 ^ 64"
      "nat (floorlog2 ?s) < 21 \<longleftrightarrow> \<not> 2097152 \<le> sz"
    using le_top_bit_iff [OF s0, of 12] le_top_bit_iff [OF s0, of 21] u(2) assms(3) top_bit_less [of ?s]
    by (auto simp: floorlog2_top_bit [OF s0])
  show ?thesis
    unfolding region_level_def Let_def pageoffsetbits_def pagetablebits_def min_less_iff_disj
      level_ge [OF a(2,1)] level_ge [OF f(2,1)] a(3) f(3) by blast
qed

lemma frames_range: "{512 * k..<512 * k + 512} = {f. f div 512 = k}" for k :: nat
  using block_range [of 0 512 k] by auto

lemma region_step_spec:
  assumes "fm_inv fm" "addr = 4096 * f0" "sz = 4096 * m" "0 < m" "addr + sz \<le> 2097152 * fm_cap fm"
    "{f0..<f0 + m} \<inter> fm_free fm = {}"
  shows "\<exists>fm1 n. region_step fm addr sz = Some (fm1, 4096 * n) \<and> 0 < n \<and> n \<le> m \<and> fm_inv fm1 \<and>
    bitcount fm1 = bitcount fm \<and> fm_free fm1 = fm_free fm \<union> {f0..<f0 + n}"
proof (cases "region_level addr sz < 2")
  case True
  have cap: "fm_cap fm \<le> 2 ^ 27" by (rule large_find(4) [OF assms(1)])
  have lt: "4096 \<le> sz" "addr div 2097152 < fm_cap fm" "4096 dvd addr" "f0 = addr div 4096"
    using assms(2-5) by auto
  define n where "n = min (512 - f0 mod 512) (sz div 4096)"
  have "{f0..<f0 + n} \<subseteq> {f0..<f0 + m}" by (auto simp: n_def assms(3))
  with assms(6) have "{f0..<f0 + n} \<inter> fm_free fm = {}" by blast
  from releaseSmall_spec [OF assms(1) lt(3,1,2,4) n_def this] True show ?thesis
    by (auto simp: n_def assms(3) region_step_def)
next
  case big: False
  have cap: "fm_cap fm \<le> 2 ^ 27" by (rule large_find(4) [OF assms(1)])
  have "2097152 dvd addr" "512 \<le> m"
    using region_level_small [of addr sz] big assms(2-5) cap by auto
  then obtain k where k: "addr = 2097152 * k" by blast
  have f0: "f0 = 512 * k" using k assms(2) by simp
  have "{f. f div 512 = k} \<subseteq> {f0..<f0 + m}"
    unfolding frames_range [symmetric] f0 using \<open>512 \<le> m\<close> by auto
  with assms(6) have "{f. f div 512 = k} \<inter> fm_free fm = {}" by blast
  moreover have "k < fm_cap fm" using assms(3-5) k by auto
  ultimately obtain fm1 where "releaseFrame 2 fm (2097152 * k) = Some fm1" "fm_inv fm1"
    "bitcount fm1 = bitcount fm" "fm_free fm1 = fm_free fm \<union> {f. f div 512 = k}"
    using releaseFrame_2 [OF assms(1)] by blast
  moreover from this(1) have "region_step fm addr sz = Some (fm1, 4096 * 512)"
    using big k fm_invD(4) [OF assms(1)] by (simp add: releaseFrame_def region_step_def lp_acquire_free)
  ultimately show ?thesis
    using \<open>512 \<le> m\<close> by (intro exI [of _ fm1] exI [of _ 512]) (simp add: f0 frames_range)
qed

lemma region_loop_spec:
  assumes "fm_inv fm" "addr = 4096 * f0" "sz = 4096 * m" "addr + sz \<le> 2097152 * fm_cap fm"
    "{f0..<f0 + m} \<inter> fm_free fm = {}"
  shows "\<exists>fm'. region_loop fm addr sz = Some fm' \<and> fm_inv fm' \<and> bitcount fm' = bitcount fm \<and>
    fm_free fm' = fm_free fm \<union> {f0..<f0 + m}"
  using assms
proof (induction fm addr sz arbitrary: f0 m rule: region_loop.induct)
  case (1 fm addr sz)
  show ?case
  proof (cases "sz = 0")
    case True
    then show ?thesis using "1.prems" by (simp add: region_loop.simps)
  next
    case False
    then have m: "0 < m" using "1.prems"(3) by simp
    obtain fm1 n where step: "region_step fm addr sz = Some (fm1, 4096 * n)" and n: "0 < n" "n \<le> m" and
      f1: "fm_inv fm1" "bitcount fm1 = bitcount fm" "fm_free fm1 = fm_free fm \<union> {f0..<f0 + n}"
      using region_step_spec [OF "1.prems"(1-3) m "1.prems"(4,5)] by blast
    have cap1: "fm_cap fm1 = fm_cap fm" using f1(2) by (simp add: fm_cap_def)
    have r: "region_loop fm addr sz = region_loop fm1 (addr + 4096 * n) (sz - 4096 * n)"
      using False step n(1) by (simp add: region_loop.simps [of fm addr])
    have rng: "{f0..<f0 + m} = {f0..<f0 + n} \<union> {f0 + n..<f0 + n + (m - n)}" using n(2) by auto
    have dis: "{f0 + n..<f0 + n + (m - n)} \<inter> fm_free fm1 = {}" using "1.prems"(5) f1(3) rng by auto
    have adv: "addr + 4096 * n = 4096 * (f0 + n)" "sz - 4096 * n = 4096 * (m - n)"
      "addr + 4096 * n + (sz - 4096 * n) \<le> 2097152 * fm_cap fm1"
      using "1.prems"(2-4) n(2) cap1 by auto
    have "\<exists>fm'. region_loop fm1 (addr + 4096 * n) (sz - 4096 * n) = Some fm' \<and> fm_inv fm' \<and>
        bitcount fm' = bitcount fm1 \<and> fm_free fm' = fm_free fm1 \<union> {f0 + n..<f0 + n + (m - n)}"
      using n(1) by (intro "1.IH" [OF False step refl _ f1(1) adv dis]) simp
    with r f1 rng show ?thesis by (simp add: Un_assoc)
  qed
qed

section \<open>Frame pools\<close>

text \<open>
  What the clients of a frame allocator rely on: \<open>get\<close> hands out a free frame and makes it
  unavailable, \<open>put\<close> makes a frame of the managed range available again.
\<close>

locale frame_pool =
  fixes get :: "'s \<Rightarrow> ('s \<times> nat) option"
    and put :: "'s \<Rightarrow> nat \<Rightarrow> 's option"
    and avail :: "'s \<Rightarrow> nat set"
    and range' :: "'s \<Rightarrow> nat set"
    and invar :: "'s \<Rightarrow> bool"
  assumes get_ok: "invar s \<Longrightarrow> avail s \<noteq> {} \<Longrightarrow>
      \<exists>s' a. get s = Some (s', a) \<and> invar s' \<and> range' s' = range' s \<and> a \<in> avail s \<and> avail s' = avail s - {a}"
    and put_ok: "invar s \<Longrightarrow> a \<in> range' s \<Longrightarrow> a \<notin> avail s \<Longrightarrow>
      \<exists>s'. put s a = Some s' \<and> invar s' \<and> range' s' = range' s \<and> avail s' = insert a (avail s)"
    and avail_range: "invar s \<Longrightarrow> avail s \<subseteq> range' s"
    and finite_avail: "invar s \<Longrightarrow> finite (avail s)"

text \<open>A client that keeps the frames it was given, and returns one of them by position.\<close>

datatype preq = Get | Put nat

fun serve :: "('s \<Rightarrow> ('s \<times> nat) option) \<Rightarrow> ('s \<Rightarrow> nat \<Rightarrow> 's option) \<Rightarrow> 's \<times> nat list \<Rightarrow> preq list \<Rightarrow> ('s \<times> nat list) option" where
  "serve get put (s, held) [] = Some (s, held)"
| "serve get put (s, held) (Get # rs) = (case get s of None \<Rightarrow> None | Some (s', a) \<Rightarrow> serve get put (s', a # held) rs)"
| "serve get put (s, held) (Put i # rs) =
    (if i < length held then (case put s (held ! i) of None \<Rightarrow> None
       | Some s' \<Rightarrow> serve get put (s', take i held @ drop (Suc i) held) rs)
     else serve get put (s, held) rs)"

context frame_pool
begin

lemma serve_conserves:
  assumes "invar s" "distinct held" "set held \<subseteq> range' s" "set held \<inter> avail s = {}"
    "length (filter ((=) Get) rs) \<le> card (avail s)"
  shows "\<exists>s' held'. serve get put (s, held) rs = Some (s', held') \<and> invar s' \<and> distinct held' \<and>
    set held' \<inter> avail s' = {} \<and> set held' \<union> avail s' = set held \<union> avail s"
  using assms
proof (induction rs arbitrary: s held)
  case (Cons r rs)
  show ?case
  proof (cases r)
    case Get
    then have "avail s \<noteq> {}" using Cons.prems(5) by auto
    then obtain s' a where g: "get s = Some (s', a)" "invar s'" "range' s' = range' s" "a \<in> avail s" "avail s' = avail s - {a}"
      using get_ok [OF Cons.prems(1)] by blast
    have "card (avail s') = card (avail s) - 1" using g(4,5) finite_avail [OF Cons.prems(1)] by simp
    moreover have "a \<notin> set held" "a \<in> range' s" using Cons.prems(4) g(4) avail_range [OF Cons.prems(1)] by auto
    ultimately have "\<exists>s'' held'. serve get put (s', a # held) rs = Some (s'', held') \<and> invar s'' \<and> distinct held' \<and>
      set held' \<inter> avail s'' = {} \<and> set held' \<union> avail s'' = set (a # held) \<union> avail s'"
      using Cons.prems g Get by (intro Cons.IH) auto
    moreover have "set (a # held) \<union> avail s' = set held \<union> avail s" using g(4,5) by auto
    ultimately show ?thesis using Get g(1) by simp
  next
    case (Put i)
    show ?thesis
    proof (cases "i < length held")
      case True
      let ?rest = "take i held @ drop (Suc i) held"
      obtain ys x zs where held: "held = ys @ x # zs" "length ys = i"
        using id_take_nth_drop [OF True] True by (metis length_take min.absorb4)
      have d: "distinct ?rest" "held ! i \<notin> set ?rest" "set held = insert (held ! i) (set ?rest)"
        using Cons.prems(2) held by auto
      have "held ! i \<in> range' s" "held ! i \<notin> avail s" using Cons.prems(3,4) nth_mem [OF True] by blast+
      then obtain s' where p: "put s (held ! i) = Some s'" "invar s'" "range' s' = range' s"
        "avail s' = insert (held ! i) (avail s)" using put_ok [OF Cons.prems(1)] by blast
      have "card (avail s) \<le> card (avail s')" using p(4) finite_avail [OF p(2)] by (simp add: card_mono subset_insertI)
      then have "\<exists>s'' held'. serve get put (s', ?rest) rs = Some (s'', held') \<and> invar s'' \<and> distinct held' \<and>
        set held' \<inter> avail s'' = {} \<and> set held' \<union> avail s'' = set ?rest \<union> avail s'"
        using Cons.prems p d Put by (intro Cons.IH) auto
      moreover have "set ?rest \<union> avail s' = set held \<union> avail s" using p(4) d(3) by auto
      ultimately show ?thesis using Put True p(1) by simp
    next
      case False
      with Put Cons show ?thesis by simp
    qed
  qed
qed simp

end

definition free_addrs :: "framemgr \<Rightarrow> nat set" where
  "free_addrs fm = (*) 4096 ` fm_free fm"

definition managed_addrs :: "framemgr \<Rightarrow> nat set" where
  "managed_addrs fm = {a. 4096 dvd a \<and> a < 2097152 * fm_cap fm}"

lemma fm_free_bound: "fm_inv fm \<Longrightarrow> f \<in> fm_free fm \<Longrightarrow> f < 512 * fm_cap fm"
  using fm_invD(6) [of fm] fm_invD(5) [of fm "f div 512"] by (auto simp: fm_free_iff small_ok_def)

interpretation frames: frame_pool "allocFrame 1" "releaseFrame 1" free_addrs managed_addrs fm_inv
proof (unfold_locales, goal_cases)
  case (1 s)
  then have "fm_free s \<noteq> {}" by (auto simp: free_addrs_def)
  from allocFrame_1 [OF 1(1) this] obtain fm' f where a: "allocFrame 1 s = Some (fm', 4096 * f)"
    "fm_inv fm'" "bitcount fm' = bitcount s" "f \<in> fm_free s" "fm_free fm' = fm_free s - {f}"
    by (elim exE conjE)
  have inj: "inj ((*) (4096 :: nat))" by (simp add: inj_def)
  have "free_addrs fm' = free_addrs s - {4096 * f}"
    unfolding free_addrs_def a(5) image_set_diff [OF inj] by (simp only: image_insert image_empty)
  moreover have "4096 * f \<in> free_addrs s" unfolding free_addrs_def using a(4) by (rule imageI)
  moreover have "managed_addrs fm' = managed_addrs s" by (simp only: managed_addrs_def fm_cap_def a(3))
  ultimately show ?case using a(1,2) by blast
next
  case (2 s a)
  then obtain f where f: "a = 4096 * f" "f \<notin> fm_free s" "f < 512 * fm_cap s"
    by (auto simp: free_addrs_def managed_addrs_def elim!: dvdE)
  from releaseFrame_1 [OF 2(1) f(3,2)] obtain fm' where r: "releaseFrame 1 s (4096 * f) = Some fm'"
    "fm_inv fm'" "bitcount fm' = bitcount s" "fm_free fm' = insert f (fm_free s)" by (elim exE conjE)
  have "free_addrs fm' = insert a (free_addrs s)"
    unfolding free_addrs_def r(4) f(1) by (simp only: image_insert)
  moreover have "managed_addrs fm' = managed_addrs s" by (simp only: managed_addrs_def fm_cap_def r(3))
  ultimately show ?case using r(1,2) f(1) by blast
next
  case (3 s)
  then show ?case using fm_free_bound by (auto simp: free_addrs_def managed_addrs_def)
next
  case (4 s)
  then have "fm_free s \<subseteq> {..<512 * fm_cap s}" using fm_free_bound by auto
  then show ?case using finite_subset [of "fm_free s"] by (auto simp: free_addrs_def)
qed

section \<open>Initialisation\<close>

lemma HB_L_frames: "HB_L 512 (framebits - pagesizebits 2) = 4"
proof -
  have "floorlog2 (512 :: mword) = 9" by code_simp
  then show ?thesis by (simp add: HB_L_def sdivup_def layout_defs)
qed

lemma FM_init_inv:
  assumes "0 < n" "n \<le> 2 ^ 27"
  shows "\<exists>fm. FM_init (n * 2097152) = Some fm \<and> fm_inv fm \<and> fm_free fm = {} \<and> fm_cap fm = n"
proof -
  have d: "sdivup (n * 2097152) 2097152 = n"
    using assms by (simp add: sdivup_eq)
  have "HB_levels 512 4 n [0] 0 \<noteq> None"
    using HB_levels_Some_iff [of 512 n 0 3 4 "[0]"] assms by auto
  then have "HB_init 512 (framebits - pagesizebits 2) n \<noteq> None"
    unfolding HB_init_def HB_L_frames by (auto split: option.splits)
  then obtain h where h: "HB_init 512 (framebits - pagesizebits 2) n = Some h" by blast
  have n64: "n < 2 ^ 64" using assms(2) by simp
  note I = HB_init_inv [OF h _ _ assms(1) n64, simplified]
  have u: "unat (of_nat n :: mword) = n" using n64 by (simp add: unat_of_nat)
  let ?fm = "\<lparr>largeFrames = h, smallFrames = [], bitcount = of_nat n, lplock = False\<rparr>"
  have e: "large_free ?fm = {}"
    using I by (auto simp: large_free_def HB_members_def u HB_test_bit less_mult_imp_div_less mult.commute)
  then have "fm_inv ?fm" using I(1) u assms(2) by (simp add: fm_inv_def smap_ok_def)
  moreover have "fm_free ?fm = {}" using e by (simp add: fm_free_def)
  moreover have "FM_init (n * 2097152) = Some ?fm" using d h by (simp add: FM_init_def)
  ultimately show ?thesis using u by (auto simp: fm_cap_def)
qed

section \<open>Properties\<close>





text \<open>
  C39: When no frame is left, the 4 KB allocation reports it by \<open>topaddr\<close> but returns with the
  large-frame lock taken: every later allocation that needs a large frame and every release
  of a large frame waits for that lock forever.
\<close>

theorem exhausted_alloc_keeps_lock:
  assumes "fm_inv fm" "fm_free fm = {}"
  shows "\<exists>fm'. allocFrame 1 fm = Some (fm', fm_top) \<and> allocFrame 1 fm' = None \<and> allocFrame 2 fm' = None \<and>
    releaseFrame 2 fm' (2097152 * k) = None"
  using allocFrame_1_none [OF assms] fm_free_empty [OF assms(1)] assms(2)
  by (auto simp: allocFrame_def releaseFrame_def lp_acquire_def)

theorem exhausted_alloc_keeps_lock_witness:
  "\<exists>fm fm'. FM_init 2097152 = Some fm \<and> allocFrame 1 fm = Some (fm', fm_top) \<and> allocFrame 2 fm' = None"
proof -
  obtain fm where "FM_init 2097152 = Some fm" "fm_inv fm" "fm_free fm = {}" using FM_init_inv [of 1] by auto
  with exhausted_alloc_keeps_lock [of fm 0] show ?thesis by blast
qed

end
