(* ===== verification/FrameContig.thy ===== *)
theory FrameContig
  imports FrameManager
begin

unbundle bit_operations_syntax

text \<open>
  Contiguous allocation, \<open>FrameManager::allocContig\<close> (\<open>kernel/FrameManager.cc\<close>): the scans for
  a run of free small or large frames, and what the operation does to the set of free frames.
  The definitions are in \<open>FrameManager\<close>.
\<close>

section \<open>Runs of free frames\<close>

text \<open>
  The state of the scan between two iterations: \<open>found\<close> bytes, a whole number of units
  ending just before \<open>idx\<close>, are free from \<open>baseidx\<close> on and start at an aligned address
  below the limit.
\<close>

definition run_ok :: "nat set \<Rightarrow> nat \<Rightarrow> (nat \<Rightarrow> nat) \<Rightarrow> nat \<Rightarrow> nat \<Rightarrow> nat \<Rightarrow> nat \<Rightarrow> nat \<Rightarrow> nat \<Rightarrow> bool" where
  "run_ok S u base sz align lim idx found baseidx \<longleftrightarrow> idx \<in> S \<and>
    (found \<noteq> 0 \<longrightarrow> found = u * (idx - baseidx) \<and> baseidx \<le> idx \<and> {baseidx..idx} \<subseteq> S \<and>
      base baseidx + sz \<le> lim \<and> aligned (of_nat (base baseidx) :: mword) (of_nat align) \<and> found < sz)"

definition run_hit :: "nat set \<Rightarrow> nat \<Rightarrow> (nat \<Rightarrow> nat) \<Rightarrow> nat \<Rightarrow> nat \<Rightarrow> nat \<Rightarrow> nat \<Rightarrow> nat \<Rightarrow> bool" where
  "run_hit S u base sz align lim baseidx idx \<longleftrightarrow> {baseidx..idx} \<subseteq> S \<and> baseidx \<le> idx \<and>
    u * (idx + 1 - baseidx) = sz \<and> base baseidx + sz \<le> lim \<and>
    aligned (of_nat (base baseidx) :: mword) (of_nat align)"

lemma run_step:
  assumes "run_ok S u base sz align lim idx found baseidx" "0 < u" "u dvd sz" "0 < sz"
    "baseidx' = (if found \<noteq> 0 then baseidx else idx)"
    "\<not> (found = 0 \<and> base baseidx' + sz > lim)"
    "found' = (if found \<noteq> 0 then found + u
      else if aligned (of_nat (base baseidx') :: mword) (of_nat align) then u else 0)"
  shows "found' \<ge> sz \<Longrightarrow> run_hit S u base sz align lim baseidx' idx"
    "found' < sz \<Longrightarrow> idx' \<in> S \<Longrightarrow> found'' = 0 \<or> found'' = found' \<and> idx' = idx + 1 \<Longrightarrow>
      run_ok S u base sz align lim idx' found'' baseidx'"
proof -
  obtain m where m: "sz = u * m" using assms(3) by blast
  have len: "found' = 0 \<or> found' = u * (idx + 1 - baseidx') \<and> baseidx' \<le> idx \<and> {baseidx'..idx} \<subseteq> S \<and>
      base baseidx' + sz \<le> lim \<and> aligned (of_nat (base baseidx') :: mword) (of_nat align) \<and> found' \<le> sz"
  proof (cases "found = 0")
    case True
    then show ?thesis using assms by (auto simp: run_ok_def m)
  next
    case False
    then have "found = u * (idx - baseidx)" "baseidx \<le> idx" "{baseidx..idx} \<subseteq> S" "found < sz"
      using assms(1) by (auto simp: run_ok_def)
    moreover from this have "idx - baseidx < m" using m by simp
    ultimately have "u * (idx + 1 - baseidx) = found + u" "found + u \<le> sz"
      using m mult_le_mono2 [of "idx - baseidx + 1" m u] by (simp_all add: Suc_diff_le)
    with False assms show ?thesis by (auto simp: run_ok_def)
  qed
  show "run_hit S u base sz align lim baseidx' idx" if "found' \<ge> sz"
    using len that assms(4) by (auto simp: run_hit_def)
  show "run_ok S u base sz align lim idx' found'' baseidx'"
    if "found' < sz" "idx' \<in> S" "found'' = 0 \<or> found'' = found' \<and> idx' = idx + 1"
    using len that by (auto simp: run_ok_def atLeastAtMostSuc_conv)
qed

lemma skip_small_spec:
  "skip_small b idx found = Some (idx', found') \<Longrightarrow>
    idx' \<in> {i. i < 512 \<and> Bitmap_test b i} \<and> (found' = 0 \<or> found' = found \<and> idx' = idx + 1)"
proof (induction b idx found rule: skip_small.induct)
  case (1 b idx found)
  then show ?case by (auto simp: skip_small.simps [of b idx] Let_def split: if_splits)
qed

text \<open>One iteration with the names of the code for the new values of its variables.\<close>

lemma scan_small_unfold:
  assumes "baseidx' = (if found \<noteq> 0 then baseidx else idx)"
    "found' = (if found \<noteq> 0 then found + 4096
      else if aligned (of_nat (key * 2097152 + baseidx' * 4096) :: mword) (of_nat align) then 4096 else 0)"
    "key * 2097152 + baseidx' * 4096 + sz < 2 ^ 64"
  shows "scan_small key b sz align lim idx found baseidx =
    (if found = 0 \<and> key * 2097152 + baseidx' * 4096 + sz > lim then UseLarge
     else if found' \<ge> sz then Found baseidx' idx (key * 2097152 + baseidx' * 4096)
     else (case skip_small b idx found' of None \<Rightarrow> NextSet
           | Some (idx', found'') \<Rightarrow> scan_small key b sz align lim idx' found'' baseidx'))"
  unfolding assms(2) using assms(3)
  by (subst scan_small.simps, unfold Let_def assms(1) [symmetric] fm_consts) (simp only: mod_less)

lemma scan_small_spec:
  assumes "run_ok {i. i < 512 \<and> Bitmap_test b i} 4096 (\<lambda>i. key * 2097152 + i * 4096) sz align lim idx found baseidx"
    "key * 2097152 + 2097152 + sz < 2 ^ 64" "4096 dvd sz" "0 < sz"
    "scan_small key b sz align lim idx found baseidx = Found base' idx' addr"
  shows "addr = key * 2097152 + base' * 4096 \<and>
    run_hit {i. i < 512 \<and> Bitmap_test b i} 4096 (\<lambda>i. key * 2097152 + i * 4096) sz align lim base' idx'"
  using assms
proof (induction "512 - idx" arbitrary: idx found baseidx rule: less_induct)
  case less
  let ?S = "{i. i < 512 \<and> Bitmap_test b i}" and ?base = "\<lambda>i. key * 2097152 + i * 4096"
  define baseidx' where "baseidx' = (if found \<noteq> 0 then baseidx else idx)"
  define found' where "found' = (if found \<noteq> 0 then found + 4096
      else if aligned (of_nat (?base baseidx') :: mword) (of_nat align) then 4096 else 0)"
  have "baseidx' < 512" using less.prems(1) by (auto simp: run_ok_def baseidx'_def)
  then have nw: "?base baseidx' + sz < 2 ^ 64" using less.prems(2) by simp
  note unfold = scan_small_unfold [OF baseidx'_def found'_def nw, of b lim]
  have go: "\<not> (found = 0 \<and> ?base baseidx' + sz > lim)" using less.prems(5) unfold by (auto split: if_splits)
  note R = run_step [OF less.prems(1) _ less.prems(3,4) baseidx'_def go found'_def]
  show ?case
  proof (cases "found' \<ge> sz")
    case True
    then show ?thesis using R(1) less.prems(5) unfold go by auto
  next
    case False
    then obtain i f where sk: "skip_small b idx found' = Some (i, f)"
      "scan_small key b sz align lim i f baseidx' = Found base' idx' addr"
      using less.prems(5) unfold go by (auto split: option.splits if_splits)
    then have "run_ok ?S 4096 ?base sz align lim i f baseidx'"
      using R(2) skip_small_spec [OF sk(1)] False by simp
    moreover have "512 - i < 512 - idx" using skip_small_gt [OF sk(1)] unfolding fm_consts by linarith
    ultimately show ?thesis using less.hyps less.prems(2-4) sk(2) by blast
  qed
qed

lemma skip_large_spec:
  "skip_large h bc idx found = Some (idx', found') \<Longrightarrow> idx < unat bc \<Longrightarrow>
    idx' \<in> {i. i < unat bc \<and> HB_test 512 h i} \<and> (found' = 0 \<or> found' = found \<and> idx' = idx + 1)"
proof (induction h bc idx found rule: skip_large.induct)
  case (1 h bc idx found)
  have "idx + 1 < 2 ^ 64 \<or> idx + 1 = 2 ^ 64" "unat bc < 2 ^ 64" using "1.prems"(2) unat_lt_pow [of bc] by auto
  with "1.prems" have "(idx + 1) mod 2 ^ 64 = idx + 1" by auto
  with 1 show ?case by (auto simp: skip_large.simps [of h bc idx] Let_def split: if_splits)
qed

lemma scan_large_unfold:
  assumes "baseidx' = (if found \<noteq> 0 then baseidx else idx)"
    "found' = (if found \<noteq> 0 then found + 2097152
      else if aligned (of_nat (baseidx' * 2097152) :: mword) (of_nat align) then 2097152 else 0)"
    "baseidx' * 2097152 + sz < 2 ^ 64"
  shows "scan_large h bc sz align lim idx found baseidx =
    (if found = 0 \<and> baseidx' * 2097152 + sz > lim then None
     else if found' \<ge> sz then Some (baseidx', idx, baseidx' * 2097152)
     else (case skip_large h bc idx found' of None \<Rightarrow> None
           | Some (idx', found'') \<Rightarrow> scan_large h bc sz align lim idx' found'' baseidx'))"
proof -
  have "baseidx' * 2097152 mod 2 ^ 64 = baseidx' * 2097152" using assms(3) by simp
  then show ?thesis unfolding assms(2) using assms(3)
    by (subst scan_large.simps, unfold Let_def assms(1) [symmetric] fm_consts) (simp only: mod_less)
qed

lemma scan_large_spec:
  assumes "run_ok {i. i < unat bc \<and> HB_test 512 h i} 2097152 (\<lambda>i. i * 2097152) sz align lim idx found baseidx"
    "unat bc * 2097152 + sz < 2 ^ 64" "2097152 dvd sz" "0 < sz"
    "scan_large h bc sz align lim idx found baseidx = Some (base', idx', addr)"
  shows "addr = base' * 2097152 \<and>
    run_hit {i. i < unat bc \<and> HB_test 512 h i} 2097152 (\<lambda>i. i * 2097152) sz align lim base' idx'"
  using assms
proof (induction "to_go bc idx" arbitrary: idx found baseidx rule: less_induct)
  case less
  let ?S = "{i. i < unat bc \<and> HB_test 512 h i}" and ?base = "\<lambda>i. i * 2097152"
  define baseidx' where "baseidx' = (if found \<noteq> 0 then baseidx else idx)"
  define found' where "found' = (if found \<noteq> 0 then found + 2097152
      else if aligned (of_nat (?base baseidx') :: mword) (of_nat align) then 2097152 else 0)"
  have lt: "baseidx' < unat bc" "idx < unat bc" using less.prems(1) by (auto simp: run_ok_def baseidx'_def)
  then have nw: "?base baseidx' + sz < 2 ^ 64" using less.prems(2) by simp
  note unfold = scan_large_unfold [OF baseidx'_def found'_def nw, of h bc lim]
  have go: "\<not> (found = 0 \<and> ?base baseidx' + sz > lim)" using less.prems(5) unfold by (auto split: if_splits)
  note R = run_step [OF less.prems(1) _ less.prems(3,4) baseidx'_def go found'_def]
  show ?case
  proof (cases "found' \<ge> sz")
    case True
    then show ?thesis using R(1) less.prems(5) unfold go by auto
  next
    case False
    then obtain i f where sk: "skip_large h bc idx found' = Some (i, f)"
      "scan_large h bc sz align lim i f baseidx' = Some (base', idx', addr)"
      using less.prems(5) unfold go by (auto split: option.splits if_splits)
    then have "run_ok ?S 2097152 ?base sz align lim i f baseidx'"
      using R(2) skip_large_spec [OF sk(1) lt(2)] False by simp
    moreover have "to_go bc i < to_go bc idx" by (rule skip_large_less [OF sk(1)])
    ultimately show ?thesis using less.hyps less.prems(2-4) sk(2) by blast
  qed
qed

lemma search_small_spec:
  assumes "search_small es sz align lim = Some (key, b, baseidx, idx, addr)"
    "\<forall>(k, b) \<in> set es. bm_ok b \<and> \<not> Bitmap_empty b \<and> k < 2 ^ 27" "4096 dvd sz" "0 < sz" "sz < 2 ^ 22"
  shows "(key, b) \<in> set es \<and> addr = key * 2097152 + baseidx * 4096 \<and>
    run_hit {i. i < 512 \<and> Bitmap_test b i} 4096 (\<lambda>i. key * 2097152 + i * 4096) sz align lim baseidx idx"
  using assms
proof (induction es)
  case (Cons e es)
  obtain k c where e: "e = (k, c)" by (cases e)
  have c: "bm_ok c" "\<not> Bitmap_empty c" "k < 2 ^ 27" using Cons.prems(2) e by auto
  have ok: "run_ok {i. i < 512 \<and> Bitmap_test c i} 4096 (\<lambda>i. k * 2097152 + i * 4096) sz align lim (Bitmap_findset c) 0 0"
    using bm_find [OF c(1,2)] by (simp add: run_ok_def)
  have nw: "k * 2097152 + 2097152 + sz < 2 ^ 64" using c(3) Cons.prems(5) by simp
  show ?case
  proof (cases "scan_small k c sz align lim (Bitmap_findset c) 0 0")
    case (Found i j a)
    then show ?thesis
      using scan_small_spec [OF ok nw Cons.prems(3,4) Found] Cons.prems(1) e by auto
  qed (use Cons e in auto)
qed simp

text \<open>Clearing a run of set bits in the bitmap of one large frame.\<close>

lemma small_clear_run:
  assumes "fm_inv fm" "k < fm_cap fm" "k \<notin> large_free fm" "bm_ok b" "smap_ok sm"
    "map_of sm k = Some b" "\<And>j. j \<noteq> k \<Longrightarrow> map_of sm j = map_of (smallFrames fm) j"
    "i < j" "j \<le> 512"
    "b' = foldl Bitmap_clear b [i..<j]" "sm' = (if Bitmap_empty b' then smap_erase k (smap_set k b' sm) else smap_set k b' sm)"
  shows "fm_inv (fm\<lparr>smallFrames := sm'\<rparr>)"
    "fm_free (fm\<lparr>smallFrames := sm'\<rparr>) =
      {f \<in> fm_free fm. f div 512 \<noteq> k} \<union> ({f. f div 512 = k \<and> Bitmap_test b (f mod 512)} - {512 * k + i..<512 * k + j})"
proof -
  have t: "bm_ok b'" "l < 512 \<Longrightarrow> Bitmap_test b' l \<longleftrightarrow> l \<notin> {i..<j} \<and> Bitmap_test b l" for l
    using bm_fold_clear [OF assms(4), of "[i..<j]" 0] bm_fold_clear [OF assms(4), of "[i..<j]" l] assms(9)
    by (simp_all add: assms(10))
  have nf: "\<not> Bitmap_full b'" using bm_full [OF t(1)] t(2) [of i] assms(8,9) by auto
  have m: "map_of (smap_set k b' sm) = (map_of (smallFrames fm))(k \<mapsto> b')"
    using assms(6,7) by (auto simp: map_of_set fun_eq_iff)
  note P = small_put [OF assms(1-3) t(1) nf smap_ok_set [OF assms(5)] m assms(11)]
  show "fm_inv (fm\<lparr>smallFrames := sm'\<rparr>)" by (rule P(1))
  have "{512 * k + i..<512 * k + j} = {f. f div 512 = k \<and> f mod 512 \<in> {i..<j}}"
    using block_range [of i "j - i" k] assms(8,9) by (simp add: algebra_simps)
  then show "fm_free (fm\<lparr>smallFrames := sm'\<rparr>) =
      {f \<in> fm_free fm. f div 512 \<noteq> k} \<union> ({f. f div 512 = k \<and> Bitmap_test b (f mod 512)} - {512 * k + i..<512 * k + j})"
    unfolding P(2) using t(2) by auto
qed

lemma large_clear_run:
  assumes "fm_inv fm" "set ks \<subseteq> large_free fm" "distinct ks"
  shows "fm_inv (fm\<lparr>largeFrames := foldl (HB_clear 512) (largeFrames fm) ks\<rparr>) \<and>
    fm_free (fm\<lparr>largeFrames := foldl (HB_clear 512) (largeFrames fm) ks\<rparr>) = {f \<in> fm_free fm. f div 512 \<notin> set ks}"
  using assms
proof (induction ks arbitrary: fm)
  case (Cons k ks)
  let ?f = "fm\<lparr>largeFrames := HB_clear 512 (largeFrames fm) k\<rparr>"
  note D = large_del [OF Cons.prems(1), of k]
  have "set ks \<subseteq> large_free ?f" using D(2) Cons.prems(2,3) by auto
  with Cons.IH [of ?f] D(1,3) Cons.prems show ?case by auto
qed simp

lemma fm_align_up_eq:
  assumes "n < 64" "x + 2 ^ n \<le> 2 ^ 64"
  shows "fm_align_up x (2 ^ n) = (x + (2 ^ n - 1)) div 2 ^ n * 2 ^ n"
proof -
  have "x < 2 ^ 64" using assms(2) zero_less_power [of "2 :: nat" n] by linarith
  then have "unat (of_nat x :: mword) = x" by (simp add: unat_of_nat)
  then show ?thesis
    using unat_align_up [of "of_nat x :: mword" n] assms by (simp add: fm_align_up_def)
qed

section \<open>The operation\<close>

text \<open>What a contiguous allocation of \<open>sz\<close> bytes at \<open>a\<close> does to the set of free frames.\<close>

definition took :: "framemgr \<Rightarrow> framemgr \<Rightarrow> nat \<Rightarrow> nat \<Rightarrow> bool" where
  "took fm fm' a sz \<longleftrightarrow> 4096 dvd a \<and> {a div 4096..<(a + sz) div 4096} \<subseteq> fm_free fm \<and>
    fm_free fm' = fm_free fm - {a div 4096..<(a + sz) div 4096}"

text \<open>
  A served request: below the limit, of free frames, and aligned as asked; a small request
  served from a fresh large frame is aligned to 2 MB instead.
\<close>

definition contig_ok :: "framemgr \<Rightarrow> framemgr \<Rightarrow> nat \<Rightarrow> nat \<Rightarrow> nat \<Rightarrow> nat \<Rightarrow> bool" where
  "contig_ok fm fm' sz align lim a \<longleftrightarrow> a + sz \<le> lim \<and> took fm fm' a sz \<and>
    (aligned (of_nat a :: mword) (of_nat align) \<or> sz < 2097152 \<and> 2097152 dvd a)"

lemma contig_small_found:
  assumes "fm_inv fm" "map_of (smallFrames fm) key = Some b"
    "run_hit {i. i < 512 \<and> Bitmap_test b i} 4096 base sz align lim baseidx idx"
    "b' = foldl Bitmap_clear b [baseidx..<Suc idx]"
    "sm = (if Bitmap_empty b' then smap_erase key (smap_set key b' (smallFrames fm)) else smap_set key b' (smallFrames fm))"
  shows "fm_inv (fm\<lparr>smallFrames := sm\<rparr>) \<and> took fm (fm\<lparr>smallFrames := sm\<rparr>) (key * 2097152 + baseidx * 4096) sz"
proof -
  have so: "bm_ok b" "key < fm_cap fm" "key \<notin> large_free fm" using fm_invD(5) [OF assms(1,2)] by (auto simp: small_ok_def)
  have hit: "{baseidx..idx} \<subseteq> {i. i < 512 \<and> Bitmap_test b i}" "baseidx \<le> idx" "sz = 4096 * (idx + 1 - baseidx)"
    using assms(3) by (auto simp: run_hit_def)
  have lt: "baseidx < Suc idx" "Suc idx \<le> 512" using hit by auto
  note C = small_clear_run [OF assms(1) so(2,3,1) fm_invD(3) [OF assms(1)] assms(2) refl lt assms(4,5)]
  let ?a = "key * 2097152 + baseidx * 4096"
  have rng: "?a div 4096 = 512 * key + baseidx" "(?a + sz) div 4096 = 512 * key + Suc idx" "4096 dvd ?a"
  proof -
    have "?a = 4096 * (512 * key + baseidx)" "?a + sz = 4096 * (512 * key + Suc idx)"
      using hit(2,3) by (simp_all add: algebra_simps)
    then show "?a div 4096 = 512 * key + baseidx" "(?a + sz) div 4096 = 512 * key + Suc idx" "4096 dvd ?a"
      by simp_all
  qed
  have run: "{512 * key + baseidx..<512 * key + Suc idx} = {f. f div 512 = key \<and> f mod 512 \<in> {baseidx..<Suc idx}}"
    using block_range [of baseidx "Suc idx - baseidx" key] lt by (simp add: algebra_simps)
  have "{512 * key + baseidx..<512 * key + Suc idx} \<subseteq> fm_free fm"
  proof
    fix f assume "f \<in> {512 * key + baseidx..<512 * key + Suc idx}"
    then have "f div 512 = key" "f mod 512 \<in> {baseidx..idx}" unfolding run by auto
    with hit(1) assms(2) show "f \<in> fm_free fm" by (auto simp: fm_free_iff)
  qed
  moreover have "{512 * key + baseidx..<512 * key + Suc idx} \<subseteq> {f. f div 512 = key}" unfolding run by auto
  ultimately have "took fm (fm\<lparr>smallFrames := sm\<rparr>) ?a sz"
    unfolding took_def rng(1,2) C(2) fm_free_block [OF assms(1,2)] using rng(3) by blast
  with C(1) show ?thesis by simp
qed

lemma contig_use_large_spec:
  assumes "fm_inv fm" "large_free fm \<noteq> {}" "sz = 4096 * m" "0 < m" "m < 512"
  shows "\<exists>fm' a. contig_use_large fm sz lim = Some (fm', a) \<and> fm_inv fm' \<and>
    (a = fm_top \<and> fm' = fm \<or> a + sz \<le> lim \<and> took fm fm' a sz \<and> 2097152 dvd a)"
proof -
  define k where "k = HB_findset 512 (largeFrames fm)"
  have k: "k \<in> large_free fm" "k < 2 ^ 27" "k < fm_cap fm"
    using large_find(2) [OF assms(1,2)] large_find(3) [OF assms(1), of k] large_find(4) [OF assms(1)]
    by (auto simp: k_def)
  have nw: "(k * 2097152 + sz) mod 2 ^ 64 = k * 2097152 + sz" "k * 2097152 mod 2 ^ 64 = k * 2097152"
    using k(2) assms(3,5) by simp_all
  note acq = lp_acquire_free [OF fm_invD(4) [OF assms(1)]]
  show ?thesis
  proof (cases "k * 2097152 + sz > lim")
    case True
    then have "contig_use_large fm sz lim = Some (fm, fm_top)"
      using nw fm_invD(4) [OF assms(1)]
      by (simp add: contig_use_large_def acq lplock_back k_def [symmetric] del: power_numeral)
    with assms(1) show ?thesis by blast
  next
    case False
    let ?f1 = "fm\<lparr>largeFrames := HB_clear 512 (largeFrames fm) k\<rparr>"
    let ?b = "Bitmap_filled 512" and ?sm = "smap_emplace k (Bitmap_filled 512) (smallFrames fm)"
    note D = large_del [OF assms(1) k(1)]
    define b' where "b' = foldl Bitmap_clear ?b [0..<m]"
    have ne: "\<not> Bitmap_empty b'"
      using bm_fold_clear [OF bm_set(4), of "[0..<m]" m] bm_empty [of b'] bm_filled [of m] assms(5)
      by (auto simp: b'_def)
    have sm: "map_of ?sm k = Some ?b" "\<And>j. j \<noteq> k \<Longrightarrow> map_of ?sm j = map_of (smallFrames ?f1) j" "smap_ok ?sm"
      using map_of_emplace [OF fm_invD(3) [OF assms(1)], of k ?b] D(4) fm_invD(3) [OF assms(1)]
      by (auto simp: smap_ok_emplace)
    have "k < fm_cap ?f1" "k \<notin> large_free ?f1" using k D(2) by auto
    note C = small_clear_run [OF D(1) this bm_set(4) sm(3,1,2) assms(4) less_imp_le [OF assms(5)] b'_def refl,
        unfolded if_not_P [OF ne]]
    let ?f2 = "?f1\<lparr>smallFrames := smap_set k b' ?sm\<rparr>"
    have run: "{512 * k + 0..<512 * k + m} = {f. f div 512 = k \<and> f mod 512 \<in> {0..<m}}"
      using block_range [of 0 m k] assms(5) by simp
    have blk: "{f. f div 512 = k \<and> Bitmap_test ?b (f mod 512)} = {f. f div 512 = k}" "{f. f div 512 = k} \<subseteq> fm_free fm"
      using k(1) by (auto simp: bm_filled fm_free_iff)
    have "k * 2097152 div 4096 = 512 * k" "(k * 2097152 + sz) div 4096 = 512 * k + m" "4096 dvd k * 2097152"
      using assms(3) by simp_all
    moreover have "{512 * k + 0..<512 * k + m} \<subseteq> {f. f div 512 = k}" unfolding run by auto
    ultimately have "took fm ?f2 (k * 2097152) sz"
      using C(2) blk D(3) unfolding took_def by auto
    moreover have "contig_use_large fm sz lim = Some (?f2, k * 2097152)"
      using False nw sm(1) ne fm_invD(4) [OF assms(1)] assms(3)
      by (simp add: contig_use_large_def acq lp_release_def k_def [symmetric] b'_def [symmetric] del: power_numeral)
    ultimately show ?thesis using C(1) False by (intro exI [of _ ?f2] exI [of _ "k * 2097152"]) simp
  qed
qed

lemma contig_small:
  assumes "fm_inv fm" "large_free fm \<noteq> {}" "sz1 = 4096 * m" "0 < m" "sz1 < 2097152" "fm_align_up sz 4096 = sz1"
  shows "\<exists>fm' a. allocContig fm sz align lim = Some (fm', sz1, a) \<and> fm_inv fm' \<and>
    (a = fm_top \<and> fm' = fm \<or> contig_ok fm fm' sz1 align lim a)"
proof (cases "search_small (smallFrames fm) sz1 align lim")
  case None
  have "\<exists>fm' a. contig_use_large fm sz1 lim = Some (fm', a) \<and> fm_inv fm' \<and>
      (a = fm_top \<and> fm' = fm \<or> contig_ok fm fm' sz1 align lim a)"
    using contig_use_large_spec [OF assms(1-4), of lim] assms(3,5) by (auto simp: contig_ok_def)
  then obtain fm' a where u: "contig_use_large fm sz1 lim = Some (fm', a)" "fm_inv fm'"
      "a = fm_top \<and> fm' = fm \<or> contig_ok fm fm' sz1 align lim a" by blast
  then have "allocContig fm sz align lim = Some (fm', sz1, a)"
    unfolding allocContig_def Let_def fm_consts assms(6) using None assms(5) by simp
  with u(2,3) show ?thesis by blast
next
  case (Some r)
  obtain key b baseidx idx addr where r: "r = (key, b, baseidx, idx, addr)" by (cases r)
  have ent: "\<forall>(k, b) \<in> set (smallFrames fm). bm_ok b \<and> \<not> Bitmap_empty b \<and> k < 2 ^ 27"
  proof (clarify)
    fix k c assume "(k, c) \<in> set (smallFrames fm)"
    then have "map_of (smallFrames fm) k = Some c"
      using fm_invD(3) [OF assms(1)] by (intro map_of_is_SomeI) (simp_all add: smap_ok_def strict_sorted_iff)
    with fm_invD(5) [OF assms(1), of k c] large_find(4) [OF assms(1)]
    show "bm_ok c \<and> \<not> Bitmap_empty c \<and> k < 2 ^ 27" by (auto simp: small_ok_def)
  qed
  have hit: "(key, b) \<in> set (smallFrames fm)" "addr = key * 2097152 + baseidx * 4096"
    "run_hit {i. i < 512 \<and> Bitmap_test b i} 4096 (\<lambda>i. key * 2097152 + i * 4096) sz1 align lim baseidx idx"
    using search_small_spec [OF Some [unfolded r] ent] assms(3-5) by auto
  have m: "map_of (smallFrames fm) key = Some b"
    using hit(1) fm_invD(3) [OF assms(1)] by (intro map_of_is_SomeI) (simp_all add: smap_ok_def strict_sorted_iff)
  define b' where "b' = foldl Bitmap_clear b [baseidx..<Suc idx]"
  define sm where "sm = (if Bitmap_empty b' then smap_erase key (smap_set key b' (smallFrames fm))
      else smap_set key b' (smallFrames fm))"
  have "allocContig fm sz align lim = Some (fm\<lparr>smallFrames := sm\<rparr>, sz1, addr)"
    unfolding allocContig_def Let_def fm_consts assms(6) sm_def b'_def using Some r assms(5) by simp
  moreover have "addr + sz1 \<le> lim" "aligned (of_nat addr :: mword) (of_nat align)"
    using hit(2,3) by (simp_all add: run_hit_def)
  ultimately show ?thesis
    using contig_small_found [OF assms(1) m hit(3) b'_def sm_def] hit(2) unfolding contig_ok_def by blast
qed

lemma contig_large:
  assumes "fm_inv fm" "large_free fm \<noteq> {}" "2097152 \<le> fm_align_up sz 4096"
    "sz2 = fm_align_up (fm_align_up sz 4096) 2097152" "sz2 = 2097152 * m" "0 < m" "sz2 \<le> 2 ^ 50"
  shows "\<exists>fm' a. allocContig fm sz align lim = Some (fm', sz2, a) \<and> fm_inv fm' \<and>
    (a = fm_top \<and> fm' = fm \<or> contig_ok fm fm' sz2 align lim a)"
proof -
  define k where "k = HB_findset 512 (largeFrames fm)"
  let ?S = "{i. i < unat (bitcount fm) \<and> HB_test 512 (largeFrames fm) i}"
  have S: "?S = large_free fm"
  proof (rule set_eqI)
    fix i
    have "i < 512 * nblk 512 (unat (bitcount fm)) 0" if "i < unat (bitcount fm)"
      using fm_cap_block [OF fm_invD(1) [OF assms(1)], of i] that by (simp add: fm_cap_def)
    moreover have "i < unat (bitcount fm)" if "i \<in> large_free fm"
      using large_find(3) [OF assms(1) that] by (simp add: fm_cap_def)
    ultimately show "i \<in> ?S \<longleftrightarrow> i \<in> large_free fm"
      by (auto simp: large_free_def HB_members_def)
  qed
  have ok: "run_ok ?S 2097152 (\<lambda>i. i * 2097152) sz2 align lim k 0 0"
    using large_find(2) [OF assms(1,2)] S by (simp add: run_ok_def k_def)
  have nw: "unat (bitcount fm) * 2097152 + sz2 < 2 ^ 64"
    using fm_invD(2) [OF assms(1)] assms(7) by simp
  let ?r = "scan_large (largeFrames fm) (bitcount fm) sz2 align lim k 0 0"
  have def: "allocContig fm sz align lim = (case ?r of None \<Rightarrow> Some (fm, sz2, fm_top)
      | Some (baseidx, idx, baseaddr) \<Rightarrow>
          Some (fm\<lparr>largeFrames := foldl (HB_clear 512) (largeFrames fm) [baseidx..<Suc idx]\<rparr>, sz2, baseaddr))"
    using assms(3) fm_invD(4) [OF assms(1)]
    unfolding allocContig_def Let_def fm_consts assms(4)
    by (simp add: lp_acquire_free lplock_back k_def split: option.splits)
  show ?thesis
  proof (cases ?r)
    case None
    with def assms(1) show ?thesis by auto
  next
    case (Some r)
    then obtain i j a where r: "?r = Some (i, j, a)" by (cases r) auto
    have hit: "a = i * 2097152" "run_hit (large_free fm) 2097152 (\<lambda>i. i * 2097152) sz2 align lim i j"
      using scan_large_spec [OF ok nw _ _ r] assms(5,6) unfolding S by auto
    then have h: "{i..j} \<subseteq> large_free fm" "i \<le> j" "sz2 = 2097152 * (j + 1 - i)" "a + sz2 \<le> lim"
      "aligned (of_nat a :: mword) (of_nat align)" by (auto simp: run_hit_def)
    let ?f = "fm\<lparr>largeFrames := foldl (HB_clear 512) (largeFrames fm) [i..<Suc j]\<rparr>"
    have sub: "set [i..<Suc j] \<subseteq> large_free fm" using h(1) by auto
    note C = large_clear_run [OF assms(1) sub distinct_upt]
    have a: "a div 4096 = 512 * i" "(a + sz2) div 4096 = 512 * Suc j" "4096 dvd a"
    proof -
      have "a = 4096 * (512 * i)" "a + sz2 = 4096 * (512 * Suc j)" using hit(1) h(2,3) by (simp_all add: algebra_simps)
      then show "a div 4096 = 512 * i" "(a + sz2) div 4096 = 512 * Suc j" "4096 dvd a" by simp_all
    qed
    have rng: "{512 * i..<512 * Suc j} = {f. f div 512 \<in> {i..j}}"
      by (auto simp: less_eq_div_iff_mult_less_eq div_less_iff_less_mult mult.commute less_Suc_eq_le [symmetric] simp del: mult_Suc_right)
    have "{512 * i..<512 * Suc j} \<subseteq> fm_free fm" unfolding rng using h(1) by (auto simp: fm_free_iff)
    moreover have "fm_free ?f = fm_free fm - {512 * i..<512 * Suc j}"
    proof -
      have "set [i..<Suc j] = {i..j}" by auto
      with C have "fm_free ?f = {f \<in> fm_free fm. f div 512 \<notin> {i..j}}" by presburger
      then show ?thesis unfolding rng by blast
    qed
    ultimately have "took fm ?f a sz2" unfolding took_def a(1,2) using a(3) by blast
    moreover have "allocContig fm sz align lim = Some (?f, sz2, a)" using def r by simp
    ultimately show ?thesis using C h(4,5) unfolding contig_ok_def by blast
  qed
qed

section \<open>Properties\<close>

lemma align_up_4096:
  assumes "0 < sz" "sz \<le> 2 ^ 48"
  shows "fm_align_up sz 4096 = 4096 * ((sz + 4095) div 4096)" "sz \<le> 4096 * ((sz + 4095) div 4096)"
    "0 < (sz + 4095) div 4096" "4096 * ((sz + 4095) div 4096) \<le> 2 ^ 48 + 4096"
  using fm_align_up_eq [of 12 sz] assms by (simp_all add: mult.commute)

lemma align_up_2M:
  assumes "0 < sz" "sz \<le> 2 ^ 49"
  shows "fm_align_up sz 2097152 = 2097152 * ((sz + 2097151) div 2097152)" "sz \<le> 2097152 * ((sz + 2097151) div 2097152)"
    "0 < (sz + 2097151) div 2097152" "2097152 * ((sz + 2097151) div 2097152) \<le> 2 ^ 50"
  using fm_align_up_eq [of 21 sz] assms by (simp_all add: mult.commute)



text \<open>
  With no large frame free, a request of one large frame does not return \<open>topaddr\<close>: the
  scan starts at the all-ones index, whose address wraps to the last 2 MB of the address
  space, and that address is handed out.
\<close>

theorem allocContig_exhausted:
  assumes "fm_inv fm" "large_free fm = {}" "aligned (of_nat (2 ^ 64 - 2 ^ 21) :: mword) (of_nat align)"
  shows "\<exists>fm'. allocContig fm 2097152 align lim = Some (fm', 2097152, 2 ^ 64 - 2 ^ 21) \<and> (2 ^ 64 - 2 ^ 21 :: nat) \<noteq> fm_top"
proof -
  have k: "HB_findset 512 (largeFrames fm) = 2 ^ 64 - 1" using large_find(1) [OF assms(1)] assms(2) by blast
  have u: "fm_align_up 2097152 4096 = 2097152" "fm_align_up 2097152 2097152 = 2097152"
    using fm_align_up_eq [of 12 2097152] fm_align_up_eq [of 21 2097152] by simp_all
  have "scan_large h bc 2097152 align lim (2 ^ 64 - 1) 0 0 = Some (2 ^ 64 - 1, 2 ^ 64 - 1, 2 ^ 64 - 2 ^ 21)" for h bc
    using assms(3) by (subst scan_large.simps) (simp add: Let_def)
  with k u show ?thesis
    using fm_invD(4) [OF assms(1)] by (simp add: allocContig_def Let_def lp_acquire_free)
qed

theorem allocContig_exhausted_witness:
  "\<exists>fm fm'. fm_free fm = {} \<and> allocContig fm 2097152 4096 (2 ^ 32) = Some (fm', 2097152, 2 ^ 64 - 2 ^ 21)"
proof -
  obtain fm where fm: "fm_inv fm" "fm_free fm = {}" using FM_init_inv [of 3] by auto
  moreover have "aligned (of_nat (2 ^ 64 - 2 ^ 21) :: mword) (of_nat 4096)" by (simp add: aligned_def)
  ultimately show ?thesis using allocContig_exhausted [of fm 4096 "2 ^ 32"] fm_free_empty [OF fm(1)] by blast
qed

end
