(* ===== verification/Paging.thy ===== *)
theory Paging
  imports FrameManager
begin

unbundle bit_operations_syntax

text \<open>
  \<open>machine/Paging.h\<close>: four-level page tables, edited through a recursive mapping.  The state
  is the physical memory as a function from addresses to 8-byte words, the page-table base
  register and the frame manager.  The code reaches a table entry through the virtual
  address \<open>getEntry<N>(vma)\<close>; the model translates that address by the page-table walk of the
  processor (\<open>translate\<close>), so an access through tables that are not there is a fault
  (\<open>None\<close>).  Translations are those of the tables themselves; stale entries of the
  translation cache are the subject of \<open>Invalidation\<close>.
\<close>

section \<open>Entries\<close>

definition PE_P :: bitstring where "PE_P = \<lparr>Pos = 0, Width = 1\<rparr>"
definition PE_RW :: bitstring where "PE_RW = \<lparr>Pos = 1, Width = 1\<rparr>"
definition PE_US :: bitstring where "PE_US = \<lparr>Pos = 2, Width = 1\<rparr>"
definition PE_PWT :: bitstring where "PE_PWT = \<lparr>Pos = 3, Width = 1\<rparr>"
definition PE_PCD :: bitstring where "PE_PCD = \<lparr>Pos = 4, Width = 1\<rparr>"
definition PE_A :: bitstring where "PE_A = \<lparr>Pos = 5, Width = 1\<rparr>"
definition PE_D :: bitstring where "PE_D = \<lparr>Pos = 6, Width = 1\<rparr>"
definition PE_PS :: bitstring where "PE_PS = \<lparr>Pos = 7, Width = 1\<rparr>"
definition PE_G :: bitstring where "PE_G = \<lparr>Pos = 8, Width = 1\<rparr>"
definition PE_ADDR :: bitstring where "PE_ADDR = \<lparr>Pos = 12, Width = 40\<rparr>"
definition PE_XD :: bitstring where "PE_XD = \<lparr>Pos = 63, Width = 1\<rparr>"

datatype PageType = Code | User | RoData | Data | KernelData | MMapIO | KernelPT | PageTable

fun PageType_bits :: "PageType \<Rightarrow> mword" where
  "PageType_bits Code = 0"
| "PageType_bits User = bs_mask PE_US"
| "PageType_bits RoData = bs_mask PE_XD"
| "PageType_bits Data = bs_mask PE_XD OR bs_mask PE_RW"
| "PageType_bits KernelData = bs_mask PE_XD OR bs_mask PE_RW OR bs_mask PE_G"
| "PageType_bits MMapIO = bs_mask PE_XD OR bs_mask PE_RW OR bs_mask PE_PWT OR bs_mask PE_PCD"
| "PageType_bits KernelPT = bs_mask PE_RW OR bs_mask PE_P"
| "PageType_bits PageTable = bs_mask PE_RW OR bs_mask PE_P OR bs_mask PE_US"

datatype PageStatus = Available | Unmapped | Reserved | Mapped

fun PageStatus_bits :: "PageStatus \<Rightarrow> mword" where
  "PageStatus_bits Available = 1"
| "PageStatus_bits Unmapped = 2"
| "PageStatus_bits Reserved = 4"
| "PageStatus_bits Mapped = 8"

definition guardPage :: paddr where "guardPage = topaddr AND bs_mask PE_ADDR"
definition lazyPage :: paddr where "lazyPage = guardPage - pagesize 1"

section \<open>Addresses of the recursive window\<close>

fun ptprefix :: "nat \<Rightarrow> mword" where
  "ptprefix 0 = (if recptindex < of_nat (pagetableentries div 2) then 0 else canonPrefix)"
| "ptprefix (Suc n) = push_bit (pagesizebits (1 + pagelevels - Suc n)) recptindex OR ptprefix n"

definition ptend :: mword where
  "ptend = canonPrefix OR push_bit (pagesizebits pagelevels) (recptindex + 1)"

definition getTable :: "nat \<Rightarrow> vaddr \<Rightarrow> vaddr" where
  "getTable N vma = ptprefix N OR
    push_bit (pagesizebits 1) (drop_bit (pagesizebits (N + 1)) (vma AND bitmask pagebits))"

definition getEntry :: "nat \<Rightarrow> vaddr \<Rightarrow> vaddr" where
  "getEntry N vma = ptprefix N OR push_bit 3 (drop_bit (pagesizebits N) (vma AND bitmask pagebits))"

definition getIndex :: "nat \<Rightarrow> mword \<Rightarrow> mword" where
  "getIndex N x = drop_bit (pagesizebits N) (x AND bitmask (pagesizebits (N + 1)))"

definition pageBit :: "nat \<Rightarrow> mword" where
  "pageBit N = (if N > 1 then bs_mask PE_PS else 0)"

definition present :: "mword \<Rightarrow> bool" where
  "present pe \<longleftrightarrow> bs_get PE_P pe \<noteq> 0"

definition isPage :: "nat \<Rightarrow> mword \<Rightarrow> bool" where
  "isPage N pe \<longleftrightarrow> N < pagelevels \<and> (N = 1 \<or> bs_get PE_PS pe \<noteq> 0)"

section \<open>The processor's page-table walk\<close>

text \<open>
  \<open>hw_slot m c d va\<close> is the physical address of the entry for \<open>va\<close> in the table \<open>d\<close> levels
  below the top one, at level \<open>4 - d\<close>; \<open>translate\<close> is the physical address of \<open>va\<close>.
\<close>

type_synonym pmem = "mword \<Rightarrow> mword"

definition slot :: "mword \<Rightarrow> nat \<Rightarrow> vaddr \<Rightarrow> mword" where
  "slot base N va = base OR push_bit 3 (drop_bit (pagesizebits N) va AND mask 9)"

fun hw_slot :: "pmem \<Rightarrow> mword \<Rightarrow> nat \<Rightarrow> vaddr \<Rightarrow> mword option" where
  "hw_slot m c 0 va = Some (slot c 4 va)"
| "hw_slot m c (Suc d) va = (case hw_slot m c d va of
      None \<Rightarrow> None
    | Some a \<Rightarrow> if bit (m a) 0 \<and> \<not> bit (m a) 7
        then Some (slot (m a AND bs_mask PE_ADDR) (3 - d) va) else None)"

definition leaf :: "mword \<Rightarrow> nat \<Rightarrow> vaddr \<Rightarrow> paddr" where
  "leaf e N va = (e AND bs_mask PE_ADDR AND NOT (mask (pagesizebits N))) OR (va AND mask (pagesizebits N))"

definition translate :: "pmem \<Rightarrow> mword \<Rightarrow> vaddr \<Rightarrow> paddr option" where
  "translate m c va = (case hw_slot m c 3 va of
      Some a \<Rightarrow> if bit (m a) 0 then Some (leaf (m a) 1 va) else None
    | None \<Rightarrow> (case hw_slot m c 2 va of
        Some a \<Rightarrow> if bit (m a) 0 \<and> bit (m a) 7 then Some (leaf (m a) 2 va) else None
      | None \<Rightarrow> (case hw_slot m c 1 va of
          Some a \<Rightarrow> if bit (m a) 0 \<and> bit (m a) 7 then Some (leaf (m a) 3 va) else None
        | None \<Rightarrow> None)))"

record paging =
  pm :: pmem
  cr3 :: mword
  pfm :: framemgr

definition pe_loc :: "paging \<Rightarrow> nat \<Rightarrow> vaddr \<Rightarrow> mword option" where
  "pe_loc s N vma = translate (pm s) (cr3 s) (getEntry N vma)"

definition setPE :: "paging \<Rightarrow> mword \<Rightarrow> mword \<Rightarrow> paging" where
  "setPE s pe newpe = s\<lparr>pm := (pm s)(pe := newpe)\<rparr>"

definition memset_page :: "paging \<Rightarrow> vaddr \<Rightarrow> paging option" where
  "memset_page s va = (case translate (pm s) (cr3 s) va of
      None \<Rightarrow> None
    | Some p \<Rightarrow> Some (s\<lparr>pm := (\<lambda>a. if a AND NOT (mask 12) = p then 0 else pm s a)\<rparr>))"

definition pg_alloc :: "nat \<Rightarrow> paging \<Rightarrow> (paging \<times> paddr) option" where
  "pg_alloc N s = do { (fm, a) \<leftarrow> allocFrame N (pfm s); Some (s\<lparr>pfm := fm\<rparr>, of_nat a) }"

definition pg_release :: "nat \<Rightarrow> paging \<Rightarrow> paddr \<Rightarrow> paging option" where
  "pg_release N s a = do { fm \<leftarrow> releaseFrame N (pfm s) (unat a); Some (s\<lparr>pfm := fm\<rparr>) }"

section \<open>Operations\<close>

definition unmap1 :: "nat \<Rightarrow> bool \<Rightarrow> vaddr \<Rightarrow> paging \<Rightarrow> (paging \<times> mword option) option" where
  "unmap1 N async vma s = do {
     kassert (aligned vma (pagesize N));
     a \<leftarrow> pe_loc s N vma;
     let pe = pm s a;
     kassert (isPage N pe);
     (if present pe then Some (if async then setPE s a (pe AND NOT (bs_mask PE_P)) else s, Some a)
      else do {
        kassert (pe AND bs_mask PE_ADDR = lazyPage \<or> pe AND bs_mask PE_ADDR = guardPage);
        Some (setPE s a 0, None) }) }"

definition unmap2 :: "mword option \<Rightarrow> paging \<Rightarrow> (paging \<times> paddr) option" where
  "unmap2 p s = (case p of None \<Rightarrow> None | Some a \<Rightarrow> Some (setPE s a 0, pm s a AND bs_mask PE_ADDR))"

definition unmap :: "nat \<Rightarrow> vaddr \<Rightarrow> paging \<Rightarrow> (paging \<times> paddr) option" where
  "unmap N vma s = do { (s', pe) \<leftarrow> unmap1 N False vma s; unmap2 pe s' }"

definition pe_status :: "mword \<Rightarrow> PageStatus" where
  "pe_status pe =
    (if present pe then Mapped
     else if pe AND bs_mask PE_ADDR = lazyPage \<or> pe AND bs_mask PE_ADDR = guardPage then Reserved
     else if pe AND bs_mask PE_ADDR = 0 then Available
     else Unmapped)"

fun pg_test :: "nat \<Rightarrow> vaddr \<Rightarrow> mword \<Rightarrow> paging \<Rightarrow> mword option" where
  "pg_test 0 vma status s = None"
| "pg_test (Suc n) vma status s = do {
     a \<leftarrow> pe_loc s (Suc n) vma;
     let pe = pm s a;
     (if present pe \<and> \<not> isPage (Suc n) pe then pg_test n vma status s
      else Some (if PageStatus_bits (pe_status pe) AND status \<noteq> 0 then pagesize (Suc n) else 0)) }"

definition testfree :: "vaddr \<Rightarrow> paging \<Rightarrow> mword option" where
  "testfree vma s = pg_test pagelevels vma (PageStatus_bits Available OR PageStatus_bits Unmapped) s"

definition testused :: "vaddr \<Rightarrow> paging \<Rightarrow> mword option" where
  "testused vma s = pg_test pagelevels vma (PageStatus_bits Reserved OR PageStatus_bits Mapped) s"

fun vtop :: "nat \<Rightarrow> vaddr \<Rightarrow> paging \<Rightarrow> paddr option" where
  "vtop 0 vma s = None"
| "vtop (Suc n) vma s = do {
     a \<leftarrow> pe_loc s (Suc n) vma;
     let pe = pm s a;
     kassert (present pe);
     (if \<not> isPage (Suc n) pe then vtop n vma s
      else Some ((pe AND bs_mask PE_ADDR) + pageoffset (Suc n) vma)) }"

function mapTable :: "nat \<Rightarrow> vaddr \<Rightarrow> paging \<Rightarrow> (paging \<times> bool) option" where
  "mapTable N vma s =
    (if pagelevels \<le> N then Some (s, True)
     else do {
       (s1, ok) \<leftarrow> mapTable (N + 1) vma s;
       (if \<not> ok then Some (s1, False)
        else do {
          a \<leftarrow> pe_loc s1 (N + 1) vma;
          (if \<not> present (pm s1 a) then do {
             (s2, pma) \<leftarrow> pg_alloc pagetablepl s1;
             s3 \<leftarrow> memset_page (setPE s2 a (pma OR PageType_bits PageTable)) (getTable N vma);
             Some (s3, True) }
           else Some (s1, \<not> isPage (N + 1) (pm s1 a))) }) })"
  by pat_completeness auto
termination
  by (relation "measure (\<lambda>(N, vma, s). pagelevels - N)") auto

declare mapTable.simps [simp del]

definition pg_map :: "nat \<Rightarrow> bool \<Rightarrow> vaddr \<Rightarrow> paddr \<Rightarrow> mword \<Rightarrow> paging \<Rightarrow> (paging \<times> bool) option" where
  "pg_map N pres vma pma type s = do {
     kassert (aligned vma (pagesize N));
     kassert (pma AND NOT (bs_mask PE_ADDR) = 0);
     (s1, ok) \<leftarrow> mapTable N vma s;
     (if \<not> ok then Some (s1, False)
      else do {
        a \<leftarrow> pe_loc s1 N vma;
        kassert (\<not> present (pm s1 a));
        Some (setPE s1 a (pma OR type OR pageBit N OR (if pres then bs_mask PE_P else 0)), True) }) }"

fun fault :: "nat \<Rightarrow> vaddr \<Rightarrow> paging \<Rightarrow> (paging \<times> bool) option" where
  "fault 0 vma s = None"
| "fault (Suc n) vma s = do {
     a \<leftarrow> pe_loc s (Suc n) vma;
     let pe = pm s a;
     (if present pe then (if \<not> isPage (Suc n) pe then fault n vma s else Some (s, False))
      else if isPage (Suc n) pe \<and> pe AND bs_mask PE_ADDR = lazyPage then do {
        (s1, pma) \<leftarrow> pg_alloc (Suc n) s;
        kassert (pma \<noteq> topaddr);
        Some (setPE s1 a (pma OR (pe AND NOT (bs_mask PE_ADDR)) OR bs_mask PE_P), True) }
      else Some (s, False)) }"

text \<open>
  \<open>clearAll<N>\<close>.  The loop over one level makes \<open>k\<close> steps, where \<open>k\<close> is the number of
  pages from \<open>start\<close> up to \<open>end\<close>.
\<close>

definition steps :: "vaddr \<Rightarrow> vaddr \<Rightarrow> nat \<Rightarrow> nat" where
  "steps start end' N = (unat end' - unat start + 2 ^ pagesizebits N - 1) div 2 ^ pagesizebits N"

fun clearAll :: "nat \<Rightarrow> nat \<Rightarrow> vaddr \<Rightarrow> paging \<Rightarrow> paging option" where
  "clearAll 0 k vma s = None"
| "clearAll (Suc n) 0 vma s = Some s"
| "clearAll (Suc n) (Suc k) vma s = do {
     a \<leftarrow> pe_loc s (Suc n) vma;
     let pe = pm s a;
     s1 \<leftarrow> (if present pe then
             (if isPage (Suc n) pe then do {
                kassert (Suc n < pagelevels);
                pg_release (Suc n) s (pe AND bs_mask PE_ADDR) }
              else do {
                s2 \<leftarrow> clearAll n (steps vma (vma + pagesize (Suc n)) n) vma s;
                pg_release pagetablepl s2 (pe AND bs_mask PE_ADDR) })
           else Some s);
     clearAll (Suc n) k (vma + pagesize (Suc n)) (setPE s1 a 0) }"

text \<open>Accesses through other virtual addresses.\<close>

definition vread :: "paging \<Rightarrow> vaddr \<Rightarrow> mword option" where
  "vread s va = do { a \<leftarrow> translate (pm s) (cr3 s) va; Some (pm s a) }"

definition vwrite :: "paging \<Rightarrow> vaddr \<Rightarrow> mword \<Rightarrow> paging option" where
  "vwrite s va v = do { a \<leftarrow> translate (pm s) (cr3 s) va; Some (setPE s a v) }"

fun copy_kernel_entries :: "nat list \<Rightarrow> paging \<Rightarrow> paging option" where
  "copy_kernel_entries [] s = Some s"
| "copy_kernel_entries (idx # is) s = do {
     v \<leftarrow> vread s (ptprefix 4 + 8 * of_nat idx);
     s' \<leftarrow> vwrite s (cloneAddr + 8 * of_nat idx) v;
     copy_kernel_entries is s' }"

definition cloneKernelPT :: "paging \<Rightarrow> (paging \<times> paddr) option" where
  "cloneKernelPT s = do {
     (s1, newpt) \<leftarrow> pg_alloc pagetablepl s;
     (s2, check) \<leftarrow> pg_map pagetablepl True cloneAddr newpt (PageType_bits Data) s1;
     kassert check;
     s3 \<leftarrow> memset_page s2 cloneAddr;
     s4 \<leftarrow> vwrite s3 (cloneAddr + 8 * recptindex) (newpt OR PageType_bits KernelPT);
     s5 \<leftarrow> copy_kernel_entries [unat kernbindex..<pagetableentries] s4;
     (s6, _) \<leftarrow> unmap pagetablepl cloneAddr s5;
     Some (s6, newpt) }"

text \<open>
  \<open>bootstrap\<close>: \<open>pt\<close> is the physical address of \<open>bootMemPT\<close>, whose tables are written through
  the mapping the boot loader left.  One step of the loop maps one
  large page of the kernel image; \<open>bootstrap2\<close> then makes the second level of the kernel's
  dynamic memory.
\<close>

definition boot_step :: "mword \<Rightarrow> nat \<Rightarrow> pmem \<Rightarrow> pmem" where
  "boot_step pt i m = (
     let pdptk = pt + 3 * pagesize pagetablepl;
         pdk = pt + 4 * pagesize pagetablepl + 8 * of_nat i;
         x = of_nat i * kernelps;
         m1 = (if x mod pagesize (kernelpl + 1) = 0
               then m(pdptk + 8 * (getIndex (kernelpl + 1) kernelBase + x div pagesize (kernelpl + 1)) :=
                      pdk OR PageType_bits PageTable)
               else m)
     in m1(pdk := x OR bs_mask PE_PS OR PageType_bits KernelPT))"

definition bootstrap :: "mword \<Rightarrow> vaddr \<Rightarrow> paging \<Rightarrow> (paging \<times> paddr) option" where
  "bootstrap pt kernelEnd s = do {
     kassert (kernelEnd \<le> kernelBase + MAXKERNSIZE);
     let m0 = (\<lambda>a. if pt \<le> a \<and> a - pt < bootSizePT then 0 else pm s a);
     let pdpth = pt + 1 * pagesize pagetablepl;
     let pdh = pt + 2 * pagesize pagetablepl;
     let pdptk = pt + 3 * pagesize pagetablepl;
     let m1 = m0(pt + 8 * recptindex := pt OR PageType_bits KernelPT,
                 pt + 8 * getIndex 4 bootHeapMap := pdpth OR PageType_bits KernelPT,
                 pdpth + 8 * getIndex 3 bootHeapMap := pdh OR PageType_bits KernelPT,
                 pt + 8 * getIndex 4 kernelBase := pdptk OR PageType_bits KernelPT);
     let m2 = fold (boot_step pt) [0..<steps 0 (kernelEnd - kernelBase) kernelpl] m1;
     Some (s\<lparr>pm := m2, cr3 := pt\<rparr>, pt) }"

fun bootstrap2_loop :: "nat \<Rightarrow> vaddr \<Rightarrow> paging \<Rightarrow> paging option" where
  "bootstrap2_loop 0 vma s = Some s"
| "bootstrap2_loop (Suc k) vma s = do {
     (s', check) \<leftarrow> mapTable (pagelevels - 1) vma s;
     kassert check;
     bootstrap2_loop k (vma + pagesize pagelevels) s' }"

definition bootstrap2 :: "paging \<Rightarrow> paging option" where
  "bootstrap2 s = bootstrap2_loop (steps kernelbot kerneltop pagelevels) kernelbot s"

section \<open>Bits of entries and window addresses\<close>

lemma bs_get_one: "bs_get \<lparr>Pos = p, Width = 1\<rparr> w \<noteq> 0 \<longleftrightarrow> bit w p" for w :: mword
  by (simp add: bs_get_def bitmask_mask and_one_eq mod_2_eq_odd bit_iff_odd_drop_bit)

lemma present_bit [simp]: "present pe \<longleftrightarrow> bit pe 0"
  unfolding present_def PE_P_def by (rule bs_get_one)

lemma bit_ADDR: "bit (bs_mask PE_ADDR :: mword) i \<longleftrightarrow> 12 \<le> i \<and> i < 52"
  by (auto simp: bit_bs_mask PE_ADDR_def)

lemma isPage_bit: "isPage N pe \<longleftrightarrow> N < 4 \<and> (N = 1 \<or> bit pe 7)"
  unfolding isPage_def pagelevels_def PE_PS_def bs_get_one by simp

lemma psb: "pagesizebits N = 12 + 9 * (N - 1)"
  by (simp add: layout_defs)

text \<open>The bits of the window addresses, level by level.\<close>

lemma bit_canonPrefix: "bit canonPrefix i \<longleftrightarrow> 48 \<le> i \<and> i < 64"
  by (auto simp: canonPrefix_def bitmask_mask pagebits_def layout_defs bit_simps)

lemma bit_recptindex: "bit recptindex i \<longleftrightarrow> i = 8"
proof -
  have e: "recptindex = 2 ^ 8" by (simp add: recptindex_def layout_defs)
  show ?thesis unfolding e bit_exp_iff by auto
qed

lemma bit_recpt: "bit (push_bit n recptindex) i \<longleftrightarrow> i = n + 8 \<and> i < 64"
  by (auto simp: bit_push_bit_iff bit_recptindex)

lemma bit_ptprefix:
  "bit (ptprefix 1) i \<longleftrightarrow> 47 \<le> i \<and> i < 64"
  "bit (ptprefix 2) i \<longleftrightarrow> i = 38 \<or> 47 \<le> i \<and> i < 64"
  "bit (ptprefix 3) i \<longleftrightarrow> i = 29 \<or> i = 38 \<or> 47 \<le> i \<and> i < 64"
  "bit (ptprefix 4) i \<longleftrightarrow> i = 20 \<or> i = 29 \<or> i = 38 \<or> 47 \<le> i \<and> i < 64"
proof -
  have numeral_4_eq_4: "4 = Suc (Suc (Suc (Suc 0)))" by simp
  have 0: "bit (ptprefix 0) i \<longleftrightarrow> 48 \<le> i \<and> i < 64"
    by (simp add: recptindex_def bit_canonPrefix)
  have 1: "bit (ptprefix (Suc 0)) i \<longleftrightarrow> 47 \<le> i \<and> i < 64"
    using 0 by (auto simp: bit_or_iff bit_recpt pagelevels_def)
  have 2: "bit (ptprefix (Suc (Suc 0))) i \<longleftrightarrow> i = 38 \<or> 47 \<le> i \<and> i < 64"
    using 1 by (auto simp: bit_or_iff bit_recpt pagelevels_def simp del: ptprefix.simps(1))
  have 3: "bit (ptprefix (Suc (Suc (Suc 0)))) i \<longleftrightarrow> i = 29 \<or> i = 38 \<or> 47 \<le> i \<and> i < 64"
    unfolding ptprefix.simps(2) [of "Suc (Suc 0)"] bit_or_iff 2 by (auto simp: bit_recpt pagelevels_def)
  have 4: "bit (ptprefix (Suc (Suc (Suc (Suc 0))))) i \<longleftrightarrow> i = 20 \<or> i = 29 \<or> i = 38 \<or> 47 \<le> i \<and> i < 64"
    unfolding ptprefix.simps(2) [of "Suc (Suc (Suc 0))"] bit_or_iff 3 by (auto simp: bit_recpt pagelevels_def)
  show "bit (ptprefix 1) i \<longleftrightarrow> 47 \<le> i \<and> i < 64"
    "bit (ptprefix 2) i \<longleftrightarrow> i = 38 \<or> 47 \<le> i \<and> i < 64"
    "bit (ptprefix 3) i \<longleftrightarrow> i = 29 \<or> i = 38 \<or> 47 \<le> i \<and> i < 64"
    "bit (ptprefix 4) i \<longleftrightarrow> i = 20 \<or> i = 29 \<or> i = 38 \<or> 47 \<le> i \<and> i < 64"
    using 1 2 3 4 by (simp_all add: numeral_2_eq_2 numeral_3_eq_3 numeral_4_eq_4 del: ptprefix.simps)
qed

declare ptprefix.simps [simp del]

lemmas window_bits = bit_ptprefix bit_ptprefix(1) [unfolded One_nat_def]

definition hw_idx :: "nat \<Rightarrow> vaddr \<Rightarrow> mword" where
  "hw_idx N va = drop_bit (pagesizebits N) va AND mask 9"

lemma slot_idx: "slot base N va = base OR push_bit 3 (hw_idx N va)"
  by (simp add: slot_def hw_idx_def)

lemma bit_hw_idx: "bit (hw_idx N va) i \<longleftrightarrow> i < 9 \<and> bit va (pagesizebits N + i)"
  by (auto simp: hw_idx_def bit_simps)

lemma bit_getEntry:
  "bit (getEntry N va) i \<longleftrightarrow> bit (ptprefix N) i \<or>
    (i < 64 \<and> 3 \<le> i \<and> pagesizebits N + (i - 3) < 48 \<and> bit va (pagesizebits N + (i - 3)))"
  by (auto simp: getEntry_def bitmask_mask pagebits_def layout_defs(1-4) bit_simps add.commute)

text \<open>
  The window address of the level-\<open>N\<close> entry: its upper indices lead through the
  self-reference, its lower ones are those of the address, shifted down by one level each
  time.
\<close>

lemma window_idx:
  "hw_idx 4 (getEntry 1 va) = recptindex" "hw_idx 3 (getEntry 1 va) = hw_idx 4 va"
  "hw_idx 2 (getEntry 1 va) = hw_idx 3 va" "hw_idx 1 (getEntry 1 va) = hw_idx 2 va"
  "hw_idx 4 (getEntry 2 va) = recptindex" "hw_idx 3 (getEntry 2 va) = recptindex"
  "hw_idx 2 (getEntry 2 va) = hw_idx 4 va" "hw_idx 1 (getEntry 2 va) = hw_idx 3 va"
  "hw_idx 4 (getEntry 3 va) = recptindex" "hw_idx 3 (getEntry 3 va) = recptindex"
  "hw_idx 2 (getEntry 3 va) = recptindex" "hw_idx 1 (getEntry 3 va) = hw_idx 4 va"
  "hw_idx 4 (getEntry 4 va) = recptindex" "hw_idx 3 (getEntry 4 va) = recptindex"
  "hw_idx 2 (getEntry 4 va) = recptindex" "hw_idx 1 (getEntry 4 va) = recptindex"
  by (rule bit_word_eqI;
      auto simp: bit_hw_idx bit_getEntry window_bits bit_recptindex bit_simps)+

lemma window_offset:
  "N \<in> {1, 2, 3, 4} \<Longrightarrow> getEntry N va AND mask 12 = push_bit 3 (hw_idx N va)"
  by (rule bit_word_eqI)
    (auto simp: bit_hw_idx bit_getEntry window_bits bit_simps ac_simps)

section \<open>The recursive mapping\<close>

definition self_map :: "pmem \<Rightarrow> mword \<Rightarrow> bool" where
  "self_map m c \<longleftrightarrow> c AND bs_mask PE_ADDR = c \<and>
    (let e = m (c OR push_bit 3 recptindex) in bit e 0 \<and> \<not> bit e 7 \<and> e AND bs_mask PE_ADDR = c)"

lemma ADDR_page [simp]: "x AND bs_mask PE_ADDR AND NOT (mask 12) = x AND bs_mask PE_ADDR" for x :: mword
  by (rule bit_word_eqI) (auto simp: bit_simps bit_ADDR)

lemma leaf_window:
  "N \<in> {1, 2, 3, 4} \<Longrightarrow> leaf e 1 (getEntry N va) = slot (e AND bs_mask PE_ADDR) N va"
  by (auto simp: leaf_def slot_idx window_offset)

text \<open>The walk one level further down.\<close>

lemma hw_slot_1: "hw_slot m c 1 va = Some a \<longleftrightarrow>
    bit (m (slot c 4 va)) 0 \<and> \<not> bit (m (slot c 4 va)) 7 \<and> a = slot (m (slot c 4 va) AND bs_mask PE_ADDR) 3 va"
  by (auto split: option.splits)

lemma hw_slot_2: "hw_slot m c 2 va = Some a \<longleftrightarrow> (\<exists>b. hw_slot m c 1 va = Some b \<and>
    bit (m b) 0 \<and> \<not> bit (m b) 7 \<and> a = slot (m b AND bs_mask PE_ADDR) 2 va)"
proof -
  have "hw_slot m c 2 va = hw_slot m c (Suc 1) va" by (simp only: numeral_2_eq_2 One_nat_def)
  then show ?thesis unfolding hw_slot.simps(2) by (auto split: option.splits simp del: hw_slot.simps)
qed

lemma hw_slot_3: "hw_slot m c 3 va = Some a \<longleftrightarrow> (\<exists>b. hw_slot m c 2 va = Some b \<and>
    bit (m b) 0 \<and> \<not> bit (m b) 7 \<and> a = slot (m b AND bs_mask PE_ADDR) 1 va)"
proof -
  have "hw_slot m c 3 va = hw_slot m c (Suc 2) va" by (simp only: numeral_2_eq_2 numeral_3_eq_3)
  then show ?thesis unfolding hw_slot.simps(2) by (auto split: option.splits simp del: hw_slot.simps)
qed

lemma translate_1: "hw_slot m c 3 va = Some a \<Longrightarrow> bit (m a) 0 \<Longrightarrow> translate m c va = Some (leaf (m a) 1 va)"
  by (simp add: translate_def del: hw_slot.simps)

lemma self_slot:
  assumes "self_map m c" "hw_idx N va = recptindex"
  shows "bit (m (slot c N va)) 0" "\<not> bit (m (slot c N va)) 7" "m (slot c N va) AND bs_mask PE_ADDR = c"
  using assms by (simp_all add: self_map_def slot_idx Let_def)

lemma same_slot: "hw_idx N w = hw_idx N' va \<Longrightarrow> slot b N w = slot b N' va"
  by (simp add: slot_idx)

lemma window_1:
  assumes "self_map m c" "hw_slot m c 3 va = Some a"
  shows "translate m c (getEntry 1 va) = Some a"
proof -
  let ?w = "getEntry 1 va"
  obtain a2 where a2: "hw_slot m c 2 va = Some a2" "bit (m a2) 0" "a = slot (m a2 AND bs_mask PE_ADDR) 1 va"
    using assms(2) unfolding hw_slot_3 by blast
  obtain a1 where a1: "hw_slot m c 1 va = Some a1" "bit (m a1) 0" "\<not> bit (m a1) 7" "a2 = slot (m a1 AND bs_mask PE_ADDR) 2 va"
    using a2(1) unfolding hw_slot_2 by blast
  have a0: "bit (m (slot c 4 va)) 0" "\<not> bit (m (slot c 4 va)) 7" "a1 = slot (m (slot c 4 va) AND bs_mask PE_ADDR) 3 va"
    using a1(1) unfolding hw_slot_1 by blast+
  note w = window_idx(1-4) [of va]
  have "hw_slot m c 1 ?w = Some (slot c 4 va)"
    unfolding hw_slot_1 using self_slot [OF assms(1) w(1)] same_slot [OF w(2)] by simp
  then have "hw_slot m c 2 ?w = Some a1"
    unfolding hw_slot_2 using a0 same_slot [OF w(3)] by simp
  then have "hw_slot m c 3 ?w = Some a2"
    unfolding hw_slot_3 using a1 same_slot [OF w(4)] by simp
  from translate_1 [OF this a2(2)] show ?thesis by (simp add: leaf_window a2(3) del: One_nat_def)
qed

lemma window_2:
  assumes "self_map m c" "hw_slot m c 2 va = Some a"
  shows "translate m c (getEntry 2 va) = Some a"
proof -
  let ?w = "getEntry 2 va"
  obtain a1 where a1: "hw_slot m c 1 va = Some a1" "bit (m a1) 0" "a = slot (m a1 AND bs_mask PE_ADDR) 2 va"
    using assms(2) unfolding hw_slot_2 by blast
  have a0: "bit (m (slot c 4 va)) 0" "\<not> bit (m (slot c 4 va)) 7" "a1 = slot (m (slot c 4 va) AND bs_mask PE_ADDR) 3 va"
    using a1(1) unfolding hw_slot_1 by blast+
  note w = window_idx(5-8) [of va]
  have "hw_slot m c 1 ?w = Some (slot c 3 ?w)"
    unfolding hw_slot_1 using self_slot [OF assms(1) w(1)] by simp
  then have "hw_slot m c 2 ?w = Some (slot c 4 va)"
    unfolding hw_slot_2 using self_slot [OF assms(1) w(2)] same_slot [OF w(3)] by simp
  then have "hw_slot m c 3 ?w = Some a1"
    unfolding hw_slot_3 using a0 same_slot [OF w(4)] by simp
  from translate_1 [OF this a1(2)] show ?thesis by (simp add: leaf_window a1(3) del: One_nat_def)
qed

lemma window_3:
  assumes "self_map m c" "hw_slot m c 1 va = Some a"
  shows "translate m c (getEntry 3 va) = Some a"
proof -
  let ?w = "getEntry 3 va"
  have a0: "bit (m (slot c 4 va)) 0" "a = slot (m (slot c 4 va) AND bs_mask PE_ADDR) 3 va"
    using assms(2) unfolding hw_slot_1 by blast+
  note w = window_idx(9-12) [of va]
  have "hw_slot m c 1 ?w = Some (slot c 3 ?w)"
    unfolding hw_slot_1 using self_slot [OF assms(1) w(1)] by simp
  then have "hw_slot m c 2 ?w = Some (slot c 2 ?w)"
    unfolding hw_slot_2 using self_slot [OF assms(1) w(2)] by simp
  then have "hw_slot m c 3 ?w = Some (slot c 4 va)"
    unfolding hw_slot_3 using self_slot [OF assms(1) w(3)] same_slot [OF w(4)] by simp
  from translate_1 [OF this a0(1)] show ?thesis by (simp add: leaf_window a0(2) del: One_nat_def)
qed

lemma window_4:
  assumes "self_map m c"
  shows "translate m c (getEntry 4 va) = Some (slot c 4 va)"
proof -
  let ?w = "getEntry 4 va"
  note w = window_idx(13-16) [of va]
  have "hw_slot m c 1 ?w = Some (slot c 3 ?w)"
    unfolding hw_slot_1 using self_slot [OF assms(1) w(1)] by simp
  then have "hw_slot m c 2 ?w = Some (slot c 2 ?w)"
    unfolding hw_slot_2 using self_slot [OF assms(1) w(2)] by simp
  then have "hw_slot m c 3 ?w = Some (slot c 1 ?w)"
    unfolding hw_slot_3 using self_slot [OF assms(1) w(3)] by simp
  from translate_1 [OF this self_slot(1) [OF assms(1) w(4)]] show ?thesis
    by (simp add: leaf_window self_slot(3) [OF assms(1) w(4)] del: One_nat_def)
qed

lemma window:
  assumes "self_map m c" "1 \<le> N" "N \<le> 4" "hw_slot m c (4 - N) va = Some a"
  shows "translate m c (getEntry N va) = Some a"
proof -
  consider "N = 1" | "N = 2" | "N = 3" | "N = 4" using assms(2,3) by linarith
  then show ?thesis
    by cases (use assms window_1 window_2 window_3 window_3 [unfolded One_nat_def] window_4 in \<open>simp_all del: One_nat_def hw_slot.simps(2)\<close>)
qed

text \<open>The beginning of a table is its entry for the first address it covers.\<close>

lemma getTable_getEntry: "1 \<le> N \<Longrightarrow> N < 4 \<Longrightarrow> getTable N va = getEntry N (va AND NOT (mask (pagesizebits (N + 1))))"
  by (rule bit_word_eqI)
    (auto simp: getTable_def getEntry_def bitmask_mask bit_simps psb algebra_simps not_less)

lemma hw_idx_clear:
  "hw_idx k (va AND NOT (mask (pagesizebits (N + 1)))) = (if k \<le> N then 0 else hw_idx k va)" if "1 \<le> N" "k \<le> 4"
  using that by (intro bit_word_eqI) (auto simp: bit_hw_idx bit_simps psb)

lemma hw_slot_cong:
  "d \<le> 3 \<Longrightarrow> \<forall>k. 4 - d \<le> k \<and> k \<le> 4 \<longrightarrow> hw_idx k w = hw_idx k va \<Longrightarrow> hw_slot m c d w = hw_slot m c d va"
proof (induction d)
  case (Suc d)
  have "4 - Suc d \<le> 4 - d" by simp
  with Suc.prems(2) have "\<forall>k. 4 - d \<le> k \<and> k \<le> 4 \<longrightarrow> hw_idx k w = hw_idx k va" by (meson order_trans)
  with Suc have "hw_slot m c d w = hw_slot m c d va" "hw_idx (3 - d) w = hw_idx (3 - d) va" by auto
  then show ?case by (simp add: slot_idx split: option.split)
qed (simp add: slot_idx)

lemma window_table:
  assumes "self_map m c" "1 \<le> N" "N < 4" "hw_slot m c (3 - N) va = Some a" "bit (m a) 0" "\<not> bit (m a) 7"
  shows "translate m c (getTable N va) = Some (m a AND bs_mask PE_ADDR)"
proof -
  let ?v = "va AND NOT (mask (pagesizebits (N + 1)))"
  have i: "hw_idx k ?v = (if k \<le> N then 0 else hw_idx k va)" if "k \<le> 4" for k
    using hw_idx_clear [OF assms(2) that] .
  have "hw_slot m c (3 - N) ?v = Some a"
    using hw_slot_cong [of "3 - N" ?v va m c] i assms(2-4) by auto
  moreover have "Suc (3 - N) = 4 - N" "3 - (3 - N) = N" using assms(3) by auto
  ultimately have "hw_slot m c (4 - N) ?v = Some (slot (m a AND bs_mask PE_ADDR) N ?v)"
    using assms(5,6) hw_slot.simps(2) [of m c "3 - N" ?v] by simp
  then show ?thesis
    using window [OF assms(1,2), of ?v] assms(2,3) i [of N] by (simp add: getTable_getEntry slot_idx)
qed

section \<open>Changes of the tables\<close>

text \<open>No page table lies in a free frame; translations survive writes to absent entries and free frames.\<close>

definition frame_of :: "mword \<Rightarrow> mword" where
  "frame_of a = a AND NOT (mask 12)"

definition is_free :: "framemgr \<Rightarrow> mword \<Rightarrow> bool" where
  "is_free fm a \<longleftrightarrow> unat (frame_of a) div 4096 \<in> fm_free fm"

definition pt_inv :: "paging \<Rightarrow> bool" where
  "pt_inv s \<longleftrightarrow> self_map (pm s) (cr3 s) \<and> fm_inv (pfm s) \<and>
    (\<forall>w d a. hw_slot (pm s) (cr3 s) d w = Some a \<longrightarrow> d \<le> 3 \<longrightarrow> \<not> is_free (pfm s) a)"

definition grows :: "pmem \<Rightarrow> pmem \<Rightarrow> (mword \<Rightarrow> bool) \<Rightarrow> bool" where
  "grows m m' F \<longleftrightarrow> (\<forall>x. bit (m x) 0 \<and> \<not> F x \<longrightarrow> m' x = m x)"

lemma frame_of_slot: "frame_of (slot (x AND bs_mask PE_ADDR) N va) = x AND bs_mask PE_ADDR"
  by (rule bit_word_eqI) (auto simp: frame_of_def slot_idx bit_hw_idx bit_simps bit_ADDR)

lemma hw_slot_grows:
  assumes "grows m m' F" "\<forall>k a. hw_slot m c k w = Some a \<longrightarrow> k < d \<longrightarrow> \<not> F a"
  shows "hw_slot m c d w = Some a \<Longrightarrow> hw_slot m' c d w = Some a"
  using assms(2)
proof (induction d arbitrary: a)
  case (Suc d)
  then obtain b where b: "hw_slot m c d w = Some b" "bit (m b) 0" "\<not> bit (m b) 7"
    "a = slot (m b AND bs_mask PE_ADDR) (3 - d) w" by (auto split: option.splits if_splits)
  moreover have "hw_slot m' c d w = Some b" using Suc.IH [OF b(1)] Suc.prems(2) by auto
  moreover have "m' b = m b" using assms(1) b Suc.prems(2) by (auto simp: grows_def)
  ultimately show ?case by simp
qed simp

lemma translate_grows:
  assumes "grows m m' F" "\<forall>k a. hw_slot m c k w = Some a \<longrightarrow> k \<le> 3 \<longrightarrow> \<not> F a" "translate m c w = Some p"
  shows "translate m' c w = Some p"
proof -
  note G = hw_slot_grows [OF assms(1)]
  have keep: "m' b = m b" if "hw_slot m c k w = Some b" "k \<le> 3" "bit (m b) 0" for k b
    using assms(1,2) that by (auto simp: grows_def)
  consider (l1) a where "hw_slot m c 3 w = Some a" "bit (m a) 0" "p = leaf (m a) 1 w"
    | (l2) a where "hw_slot m c 3 w = None" "hw_slot m c 2 w = Some a" "bit (m a) 0" "bit (m a) 7" "p = leaf (m a) 2 w"
    | (l3) a where "hw_slot m c 3 w = None" "hw_slot m c 2 w = None" "hw_slot m c 1 w = Some a" "bit (m a) 0" "bit (m a) 7" "p = leaf (m a) 3 w"
    using assms(3) by (auto simp: translate_def simp del: hw_slot.simps split: option.splits if_splits)
  then show ?thesis
  proof cases
    case l1
    then have "hw_slot m' c 3 w = Some a" using G [of c w 3 a] assms(2) by auto
    with l1 keep [of 3 a] show ?thesis by (simp add: translate_def del: hw_slot.simps)
  next
    case l2
    then have s: "hw_slot m' c 2 w = Some a" "m' a = m a" using G [of c w 2 a] assms(2) keep [of 2 a] by auto
    then have "hw_slot m' c 3 w \<noteq> Some b" for b unfolding hw_slot_3 using l2 by auto
    with s l2 show ?thesis by (simp add: translate_def del: hw_slot.simps split: option.splits)
  next
    case l3
    then have s: "hw_slot m' c 1 w = Some a" "m' a = m a" using G [of c w 1 a] assms(2) keep [of 1 a] by auto
    then have n: "hw_slot m' c 2 w \<noteq> Some b" for b unfolding hw_slot_2 using l3 by auto
    then have "hw_slot m' c 3 w \<noteq> Some b" for b unfolding hw_slot_3 using n by simp
    with n s l3 show ?thesis by (simp add: translate_def del: hw_slot.simps split: option.splits)
  qed
qed

lemma hw_slot_Suc: "hw_slot m c (Suc d) va = Some a \<longleftrightarrow> (\<exists>b. hw_slot m c d va = Some b \<and>
    bit (m b) 0 \<and> \<not> bit (m b) 7 \<and> a = slot (m b AND bs_mask PE_ADDR) (3 - d) va)"
  by (auto split: option.splits)

text \<open>Adding an empty table in a free frame \<open>p\<close> at an absent entry \<open>a0\<close>.\<close>

definition add_table :: "pmem \<Rightarrow> mword \<Rightarrow> mword \<Rightarrow> pmem" where
  "add_table m a0 p = (\<lambda>x. if frame_of x = p then 0 else if x = a0 then p OR PageType_bits PageTable else m x)"

lemma PageTable_entry:
  assumes "p AND bs_mask PE_ADDR = p"
  shows "bit (p OR PageType_bits PageTable) 0" "\<not> bit (p OR PageType_bits PageTable) 7"
    "(p OR PageType_bits PageTable) AND bs_mask PE_ADDR = p"
proof -
  have b: "bit (PageType_bits PageTable) i \<longleftrightarrow> i < 3" for i
    by (auto simp: bit_bs_mask PE_RW_def PE_P_def PE_US_def bit_simps)
  have p: "bit p i \<Longrightarrow> 12 \<le> i \<and> i < 52" for i
    using assms bit_ADDR [of i] by (metis bit_and_iff)
  show "bit (p OR PageType_bits PageTable) 0" "\<not> bit (p OR PageType_bits PageTable) 7"
    using p [of 7] by (auto simp: bit_or_iff b simp del: PageType_bits.simps)
  show "(p OR PageType_bits PageTable) AND bs_mask PE_ADDR = p"
    by (rule bit_word_eqI) (use p in \<open>auto simp: bit_simps b bit_ADDR simp del: PageType_bits.simps\<close>)
qed

lemma add_table_slots:
  assumes "p AND bs_mask PE_ADDR = p" "\<forall>a k. hw_slot m c k w = Some a \<longrightarrow> k < d \<longrightarrow> frame_of a \<noteq> p"
    "hw_slot (add_table m a0 p) c d w = Some b"
  shows "hw_slot m c d w = Some b \<or> frame_of b = p"
  using assms(2,3)
proof (induction d arbitrary: b)
  case (Suc d)
  let ?m = "add_table m a0 p"
  obtain e where e: "hw_slot ?m c d w = Some e" "bit (?m e) 0" "\<not> bit (?m e) 7"
    "b = slot (?m e AND bs_mask PE_ADDR) (3 - d) w" using Suc.prems(2) unfolding hw_slot_Suc by blast
  have nf: "frame_of e \<noteq> p" using e(2) by (auto simp: add_table_def)
  with Suc.IH [OF _ e(1)] Suc.prems(1) have he: "hw_slot m c d w = Some e" by auto
  show ?case
  proof (cases "e = a0")
    case True
    then have "?m e = p OR PageType_bits PageTable" using nf by (simp add: add_table_def)
    then show ?thesis
      using e(4) PageTable_entry(3) [OF assms(1)] frame_of_slot [of p "3 - d" w] assms(1) by (simp del: PageType_bits.simps)
  next
    case False
    then have "?m e = m e" using nf by (simp add: add_table_def)
    with e he show ?thesis by simp
  qed
qed simp

lemma grows_add_table:
  "\<not> bit (m a0) 0 \<Longrightarrow> grows m (add_table m a0 p) (\<lambda>x. frame_of x = p)"
  by (auto simp: grows_def add_table_def)

text \<open>A frame just allocated.\<close>

lemma alloc_frame_word:
  assumes "fm_inv fm" "f \<in> fm_free fm"
  shows "unat (of_nat (4096 * f) :: mword) = 4096 * f" "(of_nat (4096 * f) :: mword) AND bs_mask PE_ADDR = of_nat (4096 * f)"
    "frame_of x = of_nat (4096 * f) \<Longrightarrow> unat (frame_of x) div 4096 = f"
proof -
  have "f < 2 ^ 36" using fm_free_bound [OF assms] large_find(4) [OF assms(1)] by simp
  then have lt: "4096 * f < 2 ^ 48" by simp
  show u: "unat (of_nat (4096 * f) :: mword) = 4096 * f" using lt by (subst unat_of_nat) simp
  have "bit (of_nat (4096 * f) :: mword) i \<Longrightarrow> 12 \<le> i \<and> i < 52" for i
  proof -
    assume *: "bit (of_nat (4096 * f) :: mword) i"
    then have b: "bit (4096 * f) i" by (simp add: bit_of_nat_iff del: of_nat_mult)
    have e: "4096 * f = push_bit 12 f" by (simp add: push_bit_eq_mult)
    have "12 \<le> i" using b unfolding e by (simp add: bit_push_bit_iff_nat)
    moreover have "2 ^ i \<le> 4096 * f" using unat_ge_bit [OF *] u by simp
    then have "i < 48" using lt by (metis le_less_trans nat_power_less_imp_less zero_less_numeral)
    ultimately show ?thesis by simp
  qed
  then show "(of_nat (4096 * f) :: mword) AND bs_mask PE_ADDR = of_nat (4096 * f)"
    by (intro bit_word_eqI) (auto simp: bit_and_iff bit_ADDR)
  show "frame_of x = of_nat (4096 * f) \<Longrightarrow> unat (frame_of x) div 4096 = f" using u by simp
qed

lemma pt_invD:
  assumes "pt_inv s"
  shows "self_map (pm s) (cr3 s)" "fm_inv (pfm s)"
    "hw_slot (pm s) (cr3 s) d w = Some a \<Longrightarrow> d \<le> 3 \<Longrightarrow> \<not> is_free (pfm s) a"
  using assms by (auto simp: pt_inv_def)

text \<open>The step of \<open>mapTable\<close> that creates a table keeps the invariant and every translation.\<close>

lemma new_table:
  assumes "pt_inv s" "hw_slot (pm s) (cr3 s) d va = Some a0" "d < 3" "\<not> bit (pm s a0) 0" "fm_free (pfm s) \<noteq> {}"
  shows "\<exists>s'. (do { (s2, pma) \<leftarrow> pg_alloc pagetablepl s;
      memset_page (setPE s2 a0 (pma OR PageType_bits PageTable)) (getTable (3 - d) va) }) = Some s' \<and>
    pt_inv s' \<and> cr3 s' = cr3 s \<and> card (fm_free (pfm s')) + 1 = card (fm_free (pfm s)) \<and>
    grows (pm s) (pm s') (is_free (pfm s)) \<and>
    hw_slot (pm s') (cr3 s') d va = Some a0 \<and> bit (pm s' a0) 0 \<and> \<not> bit (pm s' a0) 7 \<and>
    (\<exists>a1. hw_slot (pm s') (cr3 s') (Suc d) va = Some a1 \<and> pm s' a1 = 0)"
proof -
  note inv = pt_invD [OF assms(1)]
  obtain fm' f where al: "allocFrame 1 (pfm s) = Some (fm', 4096 * f)" "fm_inv fm'"
    "f \<in> fm_free (pfm s)" "fm_free fm' = fm_free (pfm s) - {f}"
    using allocFrame_1 [OF inv(2) assms(5)] by (elim exE conjE)
  define p :: mword where "p = of_nat (4096 * f)"
  note W = alloc_frame_word [OF inv(2) al(3), folded p_def]
  let ?m = "pm s" and ?c = "cr3 s"
  let ?m1 = "?m(a0 := p OR PageType_bits PageTable)" and ?m2 = "add_table ?m a0 p"
  have fr: "frame_of b \<noteq> p" if "hw_slot ?m ?c k w = Some b" "k \<le> 3" for b k w
    using inv(3) [OF that] W(3) al(3) by (auto simp: is_free_def)
  have self: "?c AND bs_mask PE_ADDR = ?c" "bit (?m (?c OR push_bit 3 recptindex)) 0"
    using inv(1) by (auto simp: self_map_def Let_def)
  have selfslot: "hw_slot ?m ?c 0 (getEntry 4 va) = Some (?c OR push_bit 3 recptindex)"
    using window_idx(13) [of va] by (simp add: slot_idx)
  have frs: "frame_of (?c OR push_bit 3 recptindex) \<noteq> p" using fr [OF selfslot] by simp
  have na: "?c OR push_bit 3 recptindex \<noteq> a0" using self(2) assms(4) by auto
  have sm1: "self_map ?m1 ?c" using inv(1) na by (simp add: self_map_def Let_def)
  have sm2: "self_map ?m2 ?c" using inv(1) na frs by (simp add: self_map_def Let_def add_table_def)
  have g1: "grows ?m ?m1 (\<lambda>_. False)" using assms(4) by (auto simp: grows_def)
  note g2 = grows_add_table [of ?m a0 p, OF assms(4)]
  have h1: "hw_slot ?m1 ?c d va = Some a0" using hw_slot_grows [OF g1 _ assms(2)] by simp
  have h2: "hw_slot ?m2 ?c d va = Some a0"
    using hw_slot_grows [OF g2 _ assms(2)] fr assms(3) by auto
  note PT = PageTable_entry [OF W(2)]
  have fa: "frame_of a0 \<noteq> p" using fr [OF assms(2)] assms(3) by simp
  have m2a: "?m2 a0 = p OR PageType_bits PageTable" using fa by (simp add: add_table_def)
  have d3: "1 \<le> 3 - d" "3 - d < 4" "3 - (3 - d) = d" using assms(3) by auto
  have "translate ?m1 ?c (getTable (3 - d) va) = Some p"
    using window_table [OF sm1 d3(1,2), unfolded d3(3), OF h1] PT by (simp del: PageType_bits.simps)
  then have run: "(do { (s2, pma) \<leftarrow> pg_alloc pagetablepl s;
      memset_page (setPE s2 a0 (pma OR PageType_bits PageTable)) (getTable (3 - d) va) }) = Some (s\<lparr>pfm := fm', pm := ?m2\<rparr>)"
    using al(1) by (auto simp: pg_alloc_def pagetablepl_def memset_page_def setPE_def p_def [symmetric] add_table_def frame_of_def
        simp del: PageType_bits.simps of_nat_mult cong: if_cong)
  let ?s = "s\<lparr>pfm := fm', pm := ?m2\<rparr>"
  have "\<not> is_free fm' b" if "hw_slot ?m2 ?c k w = Some b" "k \<le> 3" for b k w
  proof -
    have "hw_slot ?m ?c k w = Some b \<or> frame_of b = p"
      using add_table_slots [OF W(2) _ that(1)] fr that(2) by auto
    then show ?thesis
      using inv(3) [OF _ that(2)] W(3) al(4) by (auto simp: is_free_def)
  qed
  then have pt: "pt_inv ?s" using sm2 al(2) by (auto simp: pt_inv_def)
  have fin: "finite (fm_free (pfm s))"
    using fm_free_bound [OF inv(2)] finite_subset [of "fm_free (pfm s)" "{..<512 * fm_cap (pfm s)}"] by auto
  have card: "card (fm_free fm') + 1 = card (fm_free (pfm s))"
    using al(3,4) card_Suc_Diff1 [OF fin al(3)] by simp
  have gr: "grows ?m ?m2 (is_free (pfm s))"
    using g2 W(3) al(3) by (auto simp: grows_def is_free_def)
  let ?a1 = "slot p (3 - d) va"
  have "hw_slot ?m2 ?c (Suc d) va = Some ?a1"
    using h2 m2a PT by (simp del: PageType_bits.simps)
  moreover have "?m2 ?a1 = 0"
    using frame_of_slot [of p "3 - d" va] W(2) by (simp add: add_table_def)
  ultimately show ?thesis
    using run pt card gr h2 m2a PT by (intro exI [of _ ?s]) (simp del: PageType_bits.simps hw_slot.simps)
qed

lemma hw_slot_chain:
  "hw_slot m c d va = Some a \<Longrightarrow> k < d \<Longrightarrow> \<exists>b. hw_slot m c k va = Some b \<and> bit (m b) 0 \<and> \<not> bit (m b) 7"
proof (induction d arbitrary: a)
  case (Suc d)
  then obtain b where "hw_slot m c d va = Some b" "bit (m b) 0" "\<not> bit (m b) 7" unfolding hw_slot_Suc by blast
  with Suc show ?case by (cases "k = d") auto
qed simp

text \<open>No page is mapped at \<open>va\<close> at depth \<open>n\<close> or above.\<close>

definition unused :: "pmem \<Rightarrow> mword \<Rightarrow> nat \<Rightarrow> vaddr \<Rightarrow> bool" where
  "unused m c n va \<longleftrightarrow> (\<forall>d a. d \<le> n \<longrightarrow> hw_slot m c d va = Some a \<longrightarrow> bit (m a) 0 \<longrightarrow> d < n \<and> \<not> bit (m a) 7)"

lemma unused_new:
  assumes "hw_slot m c d va = Some a" "\<not> bit (m a) 0" "d \<le> n"
  shows "unused m c n va"
  unfolding unused_def
proof (intro allI impI)
  fix k b assume k: "k \<le> n" "hw_slot m c k va = Some b" "bit (m b) 0"
  show "k < n \<and> \<not> bit (m b) 7"
  proof (cases "k < d")
    case True
    with hw_slot_chain [OF assms(1)] k assms(3) show ?thesis by force
  next
    case False
    then have "k = d \<or> d < k" by auto
    with hw_slot_chain [OF k(2), of d] assms k show ?thesis by auto
  qed
qed

definition keeps :: "paging \<Rightarrow> paging \<Rightarrow> bool" where
  "keeps s s' \<longleftrightarrow> cr3 s' = cr3 s \<and>
    (\<forall>w p. translate (pm s) (cr3 s) w = Some p \<longrightarrow> translate (pm s') (cr3 s) w = Some p)"

lemma keeps_trans: "keeps s s1 \<Longrightarrow> keeps s1 s2 \<Longrightarrow> keeps s s2"
  by (auto simp: keeps_def)

lemma keeps_grows: "pt_inv s \<Longrightarrow> cr3 s' = cr3 s \<Longrightarrow> grows (pm s) (pm s') (is_free (pfm s)) \<Longrightarrow> keeps s s'"
  unfolding keeps_def using translate_grows pt_invD(3) by blast

lemma mapTable_top: "mapTable 4 va s = Some (s, True)"
  by (simp add: mapTable.simps pagelevels_def)

lemma mapTable_ok:
  assumes "pt_inv s" "unused (pm s) (cr3 s) n va" "j \<le> n" "n \<le> 3" "j \<le> card (fm_free (pfm s))"
  shows "\<exists>s' a. mapTable (4 - j) va s = Some (s', True) \<and> pt_inv s' \<and> keeps s s' \<and> unused (pm s') (cr3 s') n va \<and>
    hw_slot (pm s') (cr3 s') j va = Some a \<and> card (fm_free (pfm s)) \<le> card (fm_free (pfm s')) + j"
  using assms(3,5)
proof (induction j)
  case 0
  with assms show ?case by (simp add: mapTable_top keeps_def)
next
  case (Suc j)
  then obtain s1 a where IH: "mapTable (4 - j) va s = Some (s1, True)" "pt_inv s1" "keeps s s1"
    "unused (pm s1) (cr3 s1) n va" "hw_slot (pm s1) (cr3 s1) j va = Some a"
    "card (fm_free (pfm s)) \<le> card (fm_free (pfm s1)) + j" by auto
  have j: "j < 3" "4 - Suc j + 1 = 4 - j" "4 - Suc j = 3 - j" "\<not> 4 \<le> 3 - j" "1 \<le> 4 - j" "4 - j \<le> 4" "4 - (4 - j) = j"
    using Suc.prems(1) assms(4) by auto
  have loc: "pe_loc s1 (4 - j) va = Some a"
    unfolding pe_loc_def using window [OF pt_invD(1) [OF IH(2)] j(5,6), of va a] IH(5) j(7) by simp
  have def: "mapTable (4 - Suc j) va s = (if \<not> present (pm s1 a) then do {
      (s2, pma) \<leftarrow> pg_alloc pagetablepl s1;
      s3 \<leftarrow> memset_page (setPE s2 a (pma OR PageType_bits PageTable)) (getTable (3 - j) va);
      Some (s3, True) } else Some (s1, \<not> isPage (4 - j) (pm s1 a)))"
    unfolding j(3) using IH(1) loc j(2,4) unfolding j(3)
    by (subst mapTable.simps) (simp add: pagelevels_def del: PageType_bits.simps)
  show ?case
  proof (cases "bit (pm s1 a) 0")
    case True
    then have np: "\<not> bit (pm s1 a) 7" 
      using IH(4) [unfolded unused_def, rule_format, OF _ IH(5) True] Suc.prems(1) by simp
    have "\<not> isPage (4 - j) (pm s1 a)" using np j(1) by (auto simp: isPage_bit)
    moreover have "hw_slot (pm s1) (cr3 s1) (Suc j) va = Some (slot (pm s1 a AND bs_mask PE_ADDR) (3 - j) va)"
      using IH(5) True np by simp
    ultimately show ?thesis using def True IH(2-4,6) by (intro exI [of _ s1]) (simp del: hw_slot.simps)
  next
    case False
    have "fm_free (pfm s1) \<noteq> {}" using IH(6) Suc.prems(2) by auto
    from new_table [OF IH(2,5) j(1) False this] obtain s' a1 where
      N: "(do { (s2, pma) \<leftarrow> pg_alloc pagetablepl s1;
        memset_page (setPE s2 a (pma OR PageType_bits PageTable)) (getTable (3 - j) va) }) = Some s'"
      "pt_inv s'" "cr3 s' = cr3 s1" "card (fm_free (pfm s')) + 1 = card (fm_free (pfm s1))"
      "grows (pm s1) (pm s') (is_free (pfm s1))" "hw_slot (pm s') (cr3 s') (Suc j) va = Some a1" "pm s' a1 = 0"
      by (elim exE conjE) simp
    have "mapTable (4 - Suc j) va s = Some (s', True)"
      unfolding def using False N(1) by (auto split: bind_splits simp del: PageType_bits.simps)
    moreover have "keeps s s'" using keeps_trans [OF IH(3) keeps_grows [OF IH(2) N(3,5)]] .
    moreover have "unused (pm s') (cr3 s') n va" using unused_new [OF N(6)] N(7) Suc.prems(1) by simp
    ultimately show ?thesis using N(2,4,6) IH(6) by (intro exI [of _ s'] exI [of _ a1]) (simp del: hw_slot.simps)
  qed
qed

section \<open>Lookup\<close>

lemma pe_loc_slot:
  assumes "pt_inv s \<or> self_map (pm s) (cr3 s)" "1 \<le> N" "N \<le> 4" "hw_slot (pm s) (cr3 s) (4 - N) va = Some a"
  shows "pe_loc s N va = Some a"
  unfolding pe_loc_def using assms by (intro window) (auto simp: pt_inv_def)

text \<open>The levels above a page are passed; \<open>f\<close> is any of the recursive lookups.\<close>

lemma descend:
  assumes "self_map (pm s) (cr3 s)" "1 \<le> N" "N \<le> k" "k \<le> 4" "hw_slot (pm s) (cr3 s) (4 - N) va = Some a"
    "\<And>j b. N \<le> j \<Longrightarrow> j < 4 \<Longrightarrow> pe_loc s (Suc j) va = Some b \<Longrightarrow> bit (pm s b) 0 \<Longrightarrow> \<not> isPage (Suc j) (pm s b) \<Longrightarrow> f (Suc j) = f j"
  shows "f k = f N"
  using assms(3,4)
proof (induction k rule: dec_induct)
  case (step j)
  have "\<exists>b. hw_slot (pm s) (cr3 s) (4 - Suc j) va = Some b \<and> bit (pm s b) 0 \<and> \<not> bit (pm s b) 7"
    using step.hyps step.prems by (intro hw_slot_chain [OF assms(5)]) simp
  then obtain b where b: "hw_slot (pm s) (cr3 s) (4 - Suc j) va = Some b" "bit (pm s b) 0" "\<not> bit (pm s b) 7" by blast
  then have "pe_loc s (Suc j) va = Some b"
    using assms(1,2) step by (intro pe_loc_slot) auto
  moreover have "\<not> isPage (Suc j) (pm s b)" using b(3) assms(2) step.hyps by (auto simp: isPage_bit)
  ultimately show ?case using assms(6) [of j b] step b(2) by simp
qed simp

lemma vtop_walk:
  assumes "self_map (pm s) (cr3 s)" "1 \<le> N" "N \<le> 3" "hw_slot (pm s) (cr3 s) (4 - N) va = Some a"
    "bit (pm s a) 0" "N = 1 \<or> bit (pm s a) 7"
  shows "vtop 4 va s = Some ((pm s a AND bs_mask PE_ADDR) + pageoffset N va)"
proof -
  have "vtop 4 va s = vtop N va s"
    by (rule descend [where f = "\<lambda>k. vtop k va s", OF assms(1,2) _ _ assms(4)]) (use assms(3) in simp_all)
  moreover obtain n where n: "N = Suc n" using assms(2) by (cases N) auto
  moreover have "pe_loc s N va = Some a" using assms by (intro pe_loc_slot) auto
  moreover have "isPage N (pm s a)" using assms(3,6) by (simp add: isPage_bit)
  ultimately show ?thesis using assms(5) by simp
qed

lemma translate_leaf:
  assumes "1 \<le> N" "N \<le> 3" "hw_slot m c (4 - N) va = Some a" "bit (m a) 0" "N = 1 \<or> bit (m a) 7"
  shows "translate m c va = Some (leaf (m a) N va)"
proof -
  consider "N = 1" | "N = 2" | "N = 3" using assms(1,2) by linarith
  then show ?thesis
  proof cases
    case 1
    with assms show ?thesis by (simp add: translate_def del: hw_slot.simps)
  next
    case 2
    with assms have "hw_slot m c 2 va = Some a" "bit (m a) 7" by simp_all
    moreover from this have "hw_slot m c 3 va = None" using hw_slot_3 [of m c va] by (cases "hw_slot m c 3 va") auto
    ultimately show ?thesis using 2 assms by (simp add: translate_def del: hw_slot.simps)
  next
    case 3
    with assms have "hw_slot m c 1 va = Some a" "bit (m a) 7" by (simp_all del: hw_slot.simps)
    moreover from this have h2: "hw_slot m c 2 va = None" using hw_slot_2 [of m c va] by (cases "hw_slot m c 2 va") auto
    moreover from this have "hw_slot m c 3 va = None" using hw_slot_3 [of m c va] by (cases "hw_slot m c 3 va") auto
    ultimately show ?thesis using 3 assms by (simp add: translate_def del: hw_slot.simps)
  qed
qed

lemma translate_absent:
  assumes "1 \<le> N" "N \<le> 3" "hw_slot m c (4 - N) va = Some a" "\<not> bit (m a) 0"
  shows "translate m c va = None"
proof -
  consider "N = 1" | "N = 2" | "N = 3" using assms(1,2) by linarith
  then show ?thesis
  proof cases
    case 1
    with assms show ?thesis by (simp add: translate_def del: hw_slot.simps)
  next
    case 2
    with assms have "hw_slot m c 2 va = Some a" by simp
    moreover from this assms(4) have "hw_slot m c 3 va = None" using hw_slot_3 [of m c va] by (cases "hw_slot m c 3 va") auto
    ultimately show ?thesis using assms(4) by (simp add: translate_def del: hw_slot.simps)
  next
    case 3
    with assms have "hw_slot m c 1 va = Some a" by (simp del: hw_slot.simps)
    moreover from this assms(4) have h2: "hw_slot m c 2 va = None" using hw_slot_2 [of m c va] by (cases "hw_slot m c 2 va") auto
    moreover from this have "hw_slot m c 3 va = None" using hw_slot_3 [of m c va] by (cases "hw_slot m c 3 va") auto
    ultimately show ?thesis using assms(4) by (simp add: translate_def del: hw_slot.simps)
  qed
qed

lemma low_bits: "off < 2 ^ b \<Longrightarrow> b < 64 \<Longrightarrow> bit off i \<Longrightarrow> i < b" for off :: mword
proof -
  assume *: "off < 2 ^ b" "b < 64" "bit off i"
  then have "2 ^ i \<le> unat off" "unat off < 2 ^ b"
    using unat_ge_bit [of off i] by (simp_all add: word_less_nat_alt unat_pow2)
  then show "i < b" by (metis le_less_trans nat_power_less_imp_less zero_less_numeral)
qed

lemma aligned_bits: "aligned x (2 ^ b) \<longleftrightarrow> (\<forall>i < b. \<not> bit x i)" if "b < 64" for x :: mword
proof -
  have "aligned x (2 ^ b) \<longleftrightarrow> x AND mask b = 0" by (simp add: aligned_def mask_eq_exp_minus_1)
  also have "\<dots> \<longleftrightarrow> (\<forall>i < b. \<not> bit x i)" using that by (simp add: bit_eq_iff bit_simps) (meson less_trans)
  finally show ?thesis .
qed

text \<open>An address inside a page: its indices from the page's level up are those of the page.\<close>

lemma page_address:
  assumes "1 \<le> N" "N \<le> 4" "aligned va (pagesize N)" "off < pagesize N"
  shows "va + off = va OR off" "\<And>k. N \<le> k \<Longrightarrow> k \<le> 4 \<Longrightarrow> hw_idx k (va + off) = hw_idx k va"
    "(va + off) AND mask (pagesizebits N) = off"
proof -
  have b: "pagesizebits N < 64" using pagesizebits_less assms(2) by simp
  have v: "i < pagesizebits N \<Longrightarrow> \<not> bit va i" for i
    using assms(3) aligned_bits [OF b] by (simp add: pagesize_pow)
  have o: "bit off i \<Longrightarrow> i < pagesizebits N" for i
    using low_bits [OF _ b] assms(4) by (simp add: pagesize_pow)
  show or: "va + off = va OR off"
    using v o by (intro disjunctive_add) (meson)
  show "hw_idx k (va + off) = hw_idx k va" if "N \<le> k" "k \<le> 4" for k
  proof -
    have "pagesizebits N \<le> pagesizebits k" using that(1) by (simp add: psb)
    then show ?thesis unfolding or by (intro bit_word_eqI) (use o in \<open>force simp: bit_hw_idx bit_or_iff\<close>)
  qed
  show "(va + off) AND mask (pagesizebits N) = off"
    unfolding or by (intro bit_word_eqI) (use v o in \<open>auto simp: bit_simps\<close>)
qed

section \<open>Mapping a page\<close>

lemma bit_PageType: "bit (PageType_bits t) i \<Longrightarrow> i < 5 \<or> i = 8 \<or> i = 63"
  by (cases t) (auto simp: bit_bs_mask PE_RW_def PE_P_def PE_US_def PE_XD_def PE_G_def PE_PWT_def PE_PCD_def bit_simps)

lemma bit_pageBit: "bit (pageBit N) i \<longleftrightarrow> 1 < N \<and> i = 7"
  by (auto simp: pageBit_def bit_bs_mask PE_PS_def)

lemma bit_P: "bit (bs_mask PE_P :: mword) i \<longleftrightarrow> i = 0"
  by (auto simp: bit_bs_mask PE_P_def)

lemma page_entry:
  assumes "pma AND NOT (bs_mask PE_ADDR) = 0" "e = pma OR PageType_bits t OR pageBit N OR bs_mask PE_P" "1 \<le> N"
  shows "bit e 0" "N = 1 \<or> bit e 7" "e AND bs_mask PE_ADDR = pma"
proof -
  have p: "bit pma i \<Longrightarrow> 12 \<le> i \<and> i < 52" for i
  proof -
    assume b: "bit pma i"
    have "\<not> bit (pma AND NOT (bs_mask PE_ADDR)) i" using assms(1) by simp
    with b show ?thesis using bit_imp_le_length [OF b] bit_ADDR [of i] by (auto simp: bit_simps)
  qed
  show "bit e 0" "N = 1 \<or> bit e 7" using assms(2,3) by (auto simp: bit_or_iff bit_P bit_pageBit)
  have t: "12 \<le> i \<Longrightarrow> i < 52 \<Longrightarrow> \<not> bit (PageType_bits t) i" for i using bit_PageType [of t i] by auto
  show "e AND bs_mask PE_ADDR = pma"
    unfolding assms(2)
    by (rule bit_word_eqI) (use p t in \<open>auto simp: bit_simps bit_ADDR bit_P bit_pageBit\<close>)
qed

lemma pg_map_ok:
  assumes "pt_inv s" "1 \<le> N" "N \<le> 3" "aligned va (pagesize N)" "pma AND NOT (bs_mask PE_ADDR) = 0"
    "unused (pm s) (cr3 s) (4 - N) va" "4 - N \<le> card (fm_free (pfm s))"
  shows "\<exists>s' a. pg_map N True va pma (PageType_bits t) s = Some (s', True) \<and> keeps s s' \<and>
    self_map (pm s') (cr3 s') \<and> hw_slot (pm s') (cr3 s') (4 - N) va = Some a \<and>
    pm s' a = pma OR PageType_bits t OR pageBit N OR bs_mask PE_P \<and>
    hw_slot ((pm s')(a := 0)) (cr3 s') (4 - N) va = Some a"
proof -
  have N: "4 - (4 - N) = N" "4 - N \<le> 3" "N \<le> 4" using assms(2,3) by auto
  from mapTable_ok [OF assms(1,6) order_refl N(2) assms(7)] obtain s1 a where
    M: "mapTable N va s = Some (s1, True)" "pt_inv s1" "keeps s s1" "unused (pm s1) (cr3 s1) (4 - N) va"
      "hw_slot (pm s1) (cr3 s1) (4 - N) va = Some a" unfolding N(1) by (elim exE conjE)
  have np: "\<not> bit (pm s1 a) 0" using M(4) [unfolded unused_def, rule_format, OF order_refl M(5)] by blast
  let ?e = "pma OR PageType_bits t OR pageBit N OR bs_mask PE_P"
  let ?s = "setPE s1 a ?e"
  have "pe_loc s1 N va = Some a" using M(2,5) assms(2) N(3) by (intro pe_loc_slot) auto
  then have "pg_map N True va pma (PageType_bits t) s = Some (?s, True)"
    using assms(4,5) M(1) np by (simp add: pg_map_def)
  moreover have g: "grows (pm s1) (pm ?s) (is_free (pfm s1))" using np by (auto simp: grows_def setPE_def)
  then have "keeps s ?s" using keeps_trans [OF M(3) keeps_grows [OF M(2)]] by (simp add: setPE_def)
  moreover have "self_map (pm ?s) (cr3 ?s)"
    using pt_invD(1) [OF M(2)] np by (auto simp: self_map_def Let_def setPE_def)
  moreover have "hw_slot (pm ?s) (cr3 ?s) (4 - N) va = Some a"
    using hw_slot_grows [OF g _ M(5)] pt_invD(3) [OF M(2)] N(2) by (auto simp: setPE_def)
  moreover have "grows (pm s1) ((pm s1)(a := 0)) (\<lambda>_. False)" using np by (auto simp: grows_def)
  then have "hw_slot ((pm s1)(a := 0)) (cr3 s1) (4 - N) va = Some a"
    using hw_slot_grows [OF _ _ M(5)] by blast
  ultimately show ?thesis by (intro exI [of _ ?s] exI [of _ a]) (simp add: setPE_def)
qed

section \<open>Properties\<close>

text \<open>
  C11: The recursive mapping shows the page tables themselves: with the self-reference in place,
  the virtual address that \<open>getEntry<N>(vma)\<close> computes translates to the very table entry
  the processor's walk for \<open>vma\<close> uses at level \<open>N\<close>, whenever the walk gets there.
\<close>

theorem window_shows_entry:
  assumes "self_map m c" "1 \<le> N" "N \<le> 4" "hw_slot m c (4 - N) vma = Some a"
  shows "translate m c (getEntry N vma) = Some a"
  using assms by (rule window)

text \<open>
  C7: Mapping a page where none is mapped succeeds, creating the missing tables from free
  frames; afterwards both \<open>vtop\<close> and the processor translate every address of the page to
  the given frame, and every translation that existed before is unchanged.
\<close>

theorem map_installs_translation:
  assumes "pt_inv s" "1 \<le> N" "N \<le> 3" "aligned vma (pagesize N)" "aligned pma (pagesize N)"
    "pma AND NOT (bs_mask PE_ADDR) = 0" "unused (pm s) (cr3 s) (4 - N) vma"
    "4 - N \<le> card (fm_free (pfm s))" "off < pagesize N"
  shows "\<exists>s'. pg_map N True vma pma (PageType_bits t) s = Some (s', True) \<and>
    vtop pagelevels (vma + off) s' = Some (pma + off) \<and>
    translate (pm s') (cr3 s') (vma + off) = Some (pma + off) \<and> keeps s s'"
proof -
  obtain s' a where M: "pg_map N True vma pma (PageType_bits t) s = Some (s', True)" "keeps s s'"
    "self_map (pm s') (cr3 s')" "hw_slot (pm s') (cr3 s') (4 - N) vma = Some a"
    "pm s' a = pma OR PageType_bits t OR pageBit N OR bs_mask PE_P"
    using pg_map_ok [OF assms(1-4,6-8), of t] by (elim exE conjE)
  note E = page_entry [OF assms(6) M(5) assms(2)]
  have N4: "N \<le> 4" using assms(3) by simp
  note A = page_address [OF assms(2) N4 assms(4,9)] and B = page_address [OF assms(2) N4 assms(5,9)]
  have sl: "hw_slot (pm s') (cr3 s') (4 - N) (vma + off) = Some a"
    using hw_slot_cong [of "4 - N" "vma + off" vma] A(2) assms(2,3) M(4) by auto
  have "vtop 4 (vma + off) s' = Some (pma + off)"
    using vtop_walk [OF M(3) assms(2,3) sl E(1,2)] A(3) E(3) by (simp add: pageoffset_def bitmask_mask)
  moreover have "pma AND NOT (mask (pagesizebits N)) = pma"
    using aligned_bits [of "pagesizebits N" pma] assms(5) pagesizebits_less [of N] N4
    by (intro bit_word_eqI) (auto simp: bit_simps pagesize_pow)
  then have "leaf (pm s' a) N (vma + off) = pma + off"
    unfolding leaf_def A(3) and.assoc [symmetric] E(3) B(1) by simp
  ultimately show ?thesis
    using translate_leaf [OF assms(2,3) sl E(1,2)] M(1,2) by (simp add: pagelevels_def)
qed

text \<open>
  C8: Unmapping takes back exactly what was mapped: it returns the frame, and afterwards
  the processor finds no translation for any address of the page.
\<close>

theorem unmap_returns_frame:
  assumes "pt_inv s" "1 \<le> N" "N \<le> 3" "aligned vma (pagesize N)" "pma AND NOT (bs_mask PE_ADDR) = 0"
    "unused (pm s) (cr3 s) (4 - N) vma" "4 - N \<le> card (fm_free (pfm s))" "off < pagesize N"
  shows "\<exists>s' s''. pg_map N True vma pma (PageType_bits t) s = Some (s', True) \<and>
    unmap N vma s' = Some (s'', pma) \<and> translate (pm s'') (cr3 s'') (vma + off) = None"
proof -
  obtain s' a where M: "pg_map N True vma pma (PageType_bits t) s = Some (s', True)"
    "self_map (pm s') (cr3 s')" "hw_slot (pm s') (cr3 s') (4 - N) vma = Some a"
    "pm s' a = pma OR PageType_bits t OR pageBit N OR bs_mask PE_P"
    "hw_slot ((pm s')(a := 0)) (cr3 s') (4 - N) vma = Some a"
    using pg_map_ok [OF assms(1-7), of t] by (elim exE conjE)
  note E = page_entry [OF assms(5) M(4) assms(2)]
  have N4: "N \<le> 4" using assms(3) by simp
  have "pe_loc s' N vma = Some a" using M(2,3) assms(2) N4 by (intro pe_loc_slot) auto
  then have u: "unmap N vma s' = Some (setPE s' a 0, pma)"
    using assms(3,4) E by (auto simp: unmap_def unmap1_def unmap2_def isPage_bit)
  have "hw_slot ((pm s')(a := 0)) (cr3 s') (4 - N) (vma + off) = Some a"
    using hw_slot_cong [of "4 - N" "vma + off" vma] page_address(2) [OF assms(2) N4 assms(4,8)] assms(2,3) M(5) by auto
  then have "translate ((pm s')(a := 0)) (cr3 s') (vma + off) = None"
    using assms(2,3) by (intro translate_absent) auto
  with M(1) u show ?thesis by (auto simp: setPE_def)
qed

lemma fault_at_slot:
  assumes "pt_inv s" "hw_slot (pm s) (cr3 s) 3 vma = Some a" "\<not> bit (pm s a) 0"
  shows "if pm s a AND bs_mask PE_ADDR = lazyPage
    then if fm_free (pfm s) = {} then fault pagelevels vma s = None
      else \<exists>s' f. fault pagelevels vma s = Some (s', True) \<and> f \<in> fm_free (pfm s) \<and>
        fm_free (pfm s') = fm_free (pfm s) - {f} \<and> cr3 s' = cr3 s \<and>
        pm s' = (pm s)(a := of_nat (4096 * f) OR (pm s a AND NOT (bs_mask PE_ADDR)) OR bs_mask PE_P)
    else fault pagelevels vma s = Some (s, False)"
proof -
  note inv = pt_invD [OF assms(1)]
  have step: "fault (Suc j) vma s = fault j vma s"
    if "pe_loc s (Suc j) vma = Some b" "bit (pm s b) 0" "\<not> isPage (Suc j) (pm s b)" for j b
    using that by simp
  have "fault 4 vma s = fault 1 vma s"
    by (rule descend [where f = "\<lambda>k. fault k vma s", OF inv(1), of 1]) 
      (use assms(2) in \<open>auto intro: step simp del: fault.simps\<close>)
  moreover have "pe_loc s 1 vma = Some a" using assms(1,2) by (intro pe_loc_slot) auto
  ultimately have F: "fault pagelevels vma s =
      (if pm s a AND bs_mask PE_ADDR = lazyPage then do {
         (s1, pma) \<leftarrow> pg_alloc 1 s; kassert (pma \<noteq> topaddr);
         Some (setPE s1 a (pma OR (pm s a AND NOT (bs_mask PE_ADDR)) OR bs_mask PE_P), True) }
       else Some (s, False))"
    using assms(3) by (simp add: pagelevels_def isPage_bit)
  show ?thesis
  proof (cases "pm s a AND bs_mask PE_ADDR = lazyPage")
    case True
    show ?thesis
    proof (cases "fm_free (pfm s) = {}")
      case none: True
      have "of_nat fm_top = topaddr" by (simp add: fm_top_def del: fm_consts)
      with True none F allocFrame_1_none [OF inv(2) none] show ?thesis by (simp add: pg_alloc_def del: fm_consts)
    next
      case False
      from allocFrame_1 [OF inv(2) this] obtain fm' f where al: "allocFrame 1 (pfm s) = Some (fm', 4096 * f)"
        "f \<in> fm_free (pfm s)" "fm_free fm' = fm_free (pfm s) - {f}" by (elim exE conjE)
      have "of_nat (4096 * f) \<noteq> topaddr"
      proof
        assume "of_nat (4096 * f) = topaddr"
        then have "unat (of_nat (4096 * f) :: mword) = 2 ^ 64 - 1"
          by (simp add: topaddr_def limit_def unsigned_minus_1_eq_mask mask_eq_exp_minus_1)
        moreover have "4096 * f < 2 ^ 48"
          using fm_free_bound [OF inv(2) al(2)] large_find(4) [OF inv(2)] by simp
        ultimately show False using alloc_frame_word(1) [OF inv(2) al(2)] by simp
      qed
      then have "fault pagelevels vma s = Some (setPE (s\<lparr>pfm := fm'\<rparr>) a
          (of_nat (4096 * f) OR (pm s a AND NOT (bs_mask PE_ADDR)) OR bs_mask PE_P), True)"
        using F True al(1) by (simp add: pg_alloc_def del: of_nat_mult)
      with True False al(2,3) show ?thesis by (auto simp: setPE_def simp del: of_nat_mult)
    qed
  next
    case False
    with F show ?thesis by simp
  qed
qed

lemma fault_translation:
  assumes "pt_inv s" "hw_slot (pm s) (cr3 s) 3 vma = Some a" "\<not> bit (pm s a) 0" "f \<in> fm_free (pfm s)"
    and "e = of_nat (4096 * f) OR (pm s a AND NOT (bs_mask PE_ADDR)) OR bs_mask PE_P"
  shows "translate ((pm s)(a := e)) (cr3 s) vma = Some (of_nat (4096 * f) OR (vma AND mask 12))"
proof -
  note A = alloc_frame_word [OF pt_invD(2) [OF assms(1)] assms(4)]
  have "grows (pm s) ((pm s)(a := e)) (\<lambda>_. False)" using assms(3) by (auto simp: grows_def)
  then have h: "hw_slot ((pm s)(a := e)) (cr3 s) 3 vma = Some a"
    by (rule hw_slot_grows) (use assms(2) in auto)
  have b: "bit e 0" by (simp add: assms(5) bit_or_iff bit_P del: of_nat_mult)
  have "e AND bs_mask PE_ADDR = of_nat (4096 * f) AND bs_mask PE_ADDR"
    unfolding assms(5) by (rule bit_word_eqI) (auto simp: bit_simps bit_ADDR bit_P simp del: of_nat_mult)
  then have E: "e AND bs_mask PE_ADDR = of_nat (4096 * f)" unfolding A(2) .
  have "leaf e 1 vma = (e AND bs_mask PE_ADDR) OR (vma AND mask 12)"
    by (simp add: leaf_def psb)
  then show ?thesis using translate_1 [OF h] b by (simp only: E fun_upd_same)
qed


section \<open>A first state\<close>

text \<open>A single table with the self-reference and one absent entry \<open>x\<close> at its beginning.\<close>

definition first_mem :: "mword \<Rightarrow> pmem" where
  "first_mem x = (\<lambda>_. 0)(2048 := 3, 0 := x)"

definition first_tables :: "mword \<Rightarrow> framemgr \<Rightarrow> paging" where
  "first_tables x fm = \<lparr>pm = first_mem x, cr3 = 0, pfm = fm\<rparr>"

lemma first_slots: "\<not> bit x 0 \<Longrightarrow> hw_slot (first_mem x) 0 d w = Some a \<Longrightarrow> frame_of a = 0"
proof (induction d arbitrary: a)
  case 0
  then show ?case using frame_of_slot [of 0 4 w] by simp
next
  case (Suc d)
  obtain b where b: "bit (first_mem x b) 0" "a = slot (first_mem x b AND bs_mask PE_ADDR) (3 - d) w"
    using Suc.prems(2) unfolding hw_slot_Suc by blast
  then have "b = 2048" using Suc.prems(1) by (auto simp: first_mem_def split: if_splits)
  then have "first_mem x b = 3" by (simp add: first_mem_def)
  moreover have "(3 :: mword) AND bs_mask PE_ADDR = 0" by code_simp
  ultimately show ?case using b(2) frame_of_slot [of 3 "3 - d" w] by simp
qed

lemma first_tables_inv: "fm_inv fm \<Longrightarrow> 0 \<notin> fm_free fm \<Longrightarrow> \<not> bit x 0 \<Longrightarrow> pt_inv (first_tables x fm)"
proof -
  assume *: "fm_inv fm" "0 \<notin> fm_free fm" "\<not> bit x 0"
  have "push_bit 3 recptindex = 2048" "(3 :: mword) AND bs_mask PE_ADDR = 0" "\<not> bit (3 :: mword) 7" "bit (3 :: mword) 0"
    by code_simp+
  then have "self_map (first_mem x) 0" by (simp add: self_map_def Let_def first_mem_def)
  with * first_slots show ?thesis by (auto simp: pt_inv_def first_tables_def is_free_def)
qed

lemma first_tables_unused: "hw_idx 4 va \<noteq> recptindex \<Longrightarrow> unused (pm (first_tables 0 fm)) (cr3 (first_tables 0 fm)) n va"
proof (rule unused_new [of _ _ 0])
  assume i: "hw_idx 4 va \<noteq> recptindex"
  show "hw_slot (pm (first_tables 0 fm)) (cr3 (first_tables 0 fm)) 0 va = Some (push_bit 3 (hw_idx 4 va))"
    by (simp add: first_tables_def slot_idx)
  have "push_bit 3 (hw_idx 4 va) \<noteq> 2048"
  proof
    assume e: "push_bit 3 (hw_idx 4 va) = 2048"
    have "drop_bit 3 (push_bit 3 (hw_idx 4 va)) = hw_idx 4 va"
      by (rule bit_word_eqI) (auto simp: bit_simps bit_hw_idx)
    moreover have "drop_bit 3 (2048 :: mword) = recptindex" by code_simp
    ultimately show False using e i by simp
  qed
  then show "\<not> bit (pm (first_tables 0 fm) (push_bit 3 (hw_idx 4 va))) 0" by (simp add: first_tables_def first_mem_def)
qed simp

text \<open>A frame manager with 1024 free frames from the third on.\<close>

lemma some_frames: "\<exists>fm. fm_inv fm \<and> fm_free fm = {2..<1026}"
proof -
  obtain fm0 where fm0: "fm_inv fm0" "fm_free fm0 = {}" "fm_cap fm0 = 3" using FM_init_inv [of 3] by auto
  have "\<exists>fm. region_loop fm0 8192 4194304 = Some fm \<and> fm_inv fm \<and> bitcount fm = bitcount fm0 \<and>
      fm_free fm = fm_free fm0 \<union> {2..<2 + 1024}"
    using fm0(2,3) by (intro region_loop_spec [OF fm0(1)]) simp_all
  with fm0(2) show ?thesis by auto
qed

lemma first_frames: "\<exists>fm. pt_inv (first_tables 0 fm) \<and> pt_inv (first_tables lazyPage fm) \<and>
    card (fm_free (pfm (first_tables 0 fm))) = 1024 \<and> fm_free fm \<noteq> {}"
proof -
  obtain fm where "fm_inv fm" "fm_free fm = {2..<1026}" using some_frames by blast
  moreover have "\<not> bit lazyPage 0" by code_simp
  ultimately show ?thesis by (intro exI [of _ fm]) (simp add: first_tables_inv, simp add: first_tables_def)
qed

theorem window_shows_entry_witness:
  "translate (first_mem 0) 0 (getEntry 4 0x400000) = Some 0"
proof -
  obtain fm where "pt_inv (first_tables 0 fm)" using first_frames by blast
  then have "self_map (first_mem 0) 0" using pt_invD(1) [of "first_tables 0 fm"] by (simp add: first_tables_def)
  moreover have "slot 0 4 0x400000 = 0" by code_simp
  ultimately show ?thesis by (intro window_shows_entry) simp_all
qed

lemma example_page:
  "hw_idx 4 0x400000 \<noteq> recptindex" "aligned (0x400000 :: vaddr) (pagesize 1)" "aligned (0x5000 :: paddr) (pagesize 1)"
  "(0x5000 :: paddr) AND NOT (bs_mask PE_ADDR) = 0" "(0x10 :: vaddr) < pagesize 1"
  by code_simp+

theorem map_installs_translation_witness:
  "\<exists>fm s'. pg_map 1 True 0x400000 0x5000 (PageType_bits Data) (first_tables 0 fm) = Some (s', True) \<and>
    vtop pagelevels 0x400010 s' = Some 0x5010"
proof -
  obtain fm where fm: "pt_inv (first_tables 0 fm)" "card (fm_free (pfm (first_tables 0 fm))) = 1024"
    using first_frames by blast
  have "\<exists>s'. pg_map 1 True 0x400000 0x5000 (PageType_bits Data) (first_tables 0 fm) = Some (s', True) \<and>
      vtop pagelevels (0x400000 + 0x10) s' = Some (0x5000 + 0x10) \<and>
      translate (pm s') (cr3 s') (0x400000 + 0x10) = Some (0x5000 + 0x10) \<and> keeps (first_tables 0 fm) s'"
    using fm(2) by (intro map_installs_translation [OF fm(1) _ _ example_page(2-4) first_tables_unused [OF example_page(1)] _ example_page(5)]) simp_all
  then show ?thesis by (auto simp del: One_nat_def)
qed

theorem unmap_returns_frame_witness:
  "\<exists>fm s' s''. pg_map 1 True 0x400000 0x5000 (PageType_bits Data) (first_tables 0 fm) = Some (s', True) \<and>
    unmap 1 0x400000 s' = Some (s'', 0x5000)"
proof -
  obtain fm where fm: "pt_inv (first_tables 0 fm)" "card (fm_free (pfm (first_tables 0 fm))) = 1024"
    using first_frames by blast
  have "\<exists>s' s''. pg_map 1 True 0x400000 0x5000 (PageType_bits Data) (first_tables 0 fm) = Some (s', True) \<and>
      unmap 1 0x400000 s' = Some (s'', 0x5000) \<and> translate (pm s'') (cr3 s'') (0x400000 + 0x10) = None"
    using fm(2) by (intro unmap_returns_frame [OF fm(1) _ _ example_page(2,4) first_tables_unused [OF example_page(1)] _ example_page(5)]) simp_all
  then show ?thesis by blast
qed


end
