(* ===== verification/AddressSpaces.thy ===== *)
theory AddressSpaces
  imports Paging
begin

unbundle bit_operations_syntax

text \<open>
  \<open>kernel/AddressSpace.h\<close>: address spaces with their virtual range, their page mappings and
  the list of page invalidations that the processors still have to run.  The physical
  memory, the installed page table and the frame manager are the \<open>paging\<close> state of
  \<open>Paging\<close>; an address space is the record \<open>aspace\<close>.  The list elements, which processors
  point to, carry a number in place of their address; the last element is the empty one the
  next invalidation will be written to.  The locks of the class serialise the operations
  modelled here; \<open>SpinLock\<close> itself is the subject of \<open>Locks\<close>.
\<close>

section \<open>State\<close>

record pageinv =
  pid :: nat
  pentry :: mword
  pvma :: vaddr
  psize :: mword
  pcount :: mword
  palloc :: bool

record aspace =
  activeCores :: mword
  invList :: "pageinv list"
  nextpid :: nat
  pagetable :: paddr
  mapBottom :: vaddr
  mapStart :: vaddr
  mapTop :: vaddr
  kernelAS :: bool

datatype MapCode = NoAlloc | Alloc | Guard | Lazy

definition new_pi :: "nat \<Rightarrow> pageinv" where
  "new_pi i = \<lparr>pid = i, pentry = 0, pvma = 0, psize = 0, pcount = 0, palloc = False\<rparr>"

definition push_pi :: "aspace \<Rightarrow> aspace" where
  "push_pi as = as\<lparr>invList := invList as @ [new_pi (nextpid as)], nextpid := Suc (nextpid as)\<rparr>"

section \<open>Mapping regions\<close>

definition map_source :: "MapCode \<Rightarrow> nat \<Rightarrow> paddr \<Rightarrow> paging \<Rightarrow> (paging \<times> paddr) option" where
  "map_source mc N pma s = (case mc of
      NoAlloc \<Rightarrow> Some (s, pma)
    | Alloc \<Rightarrow> pg_alloc N s
    | Guard \<Rightarrow> Some (s, guardPage)
    | Lazy \<Rightarrow> Some (s, lazyPage))"

fun map_loop :: "nat \<Rightarrow> MapCode \<Rightarrow> bool \<Rightarrow> nat \<Rightarrow> paddr \<Rightarrow> vaddr \<Rightarrow> mword \<Rightarrow> paging \<Rightarrow> paging option" where
  "map_loop N mc kern 0 pma vma type s = Some s"
| "map_loop N mc kern (Suc k) pma vma type s = do {
     (s1, pma1) \<leftarrow> map_source mc N pma s;
     kassert (pma1 \<noteq> topaddr);
     let type' = (if kern then type else type OR PageType_bits User);
     (s2, check) \<leftarrow> pg_map N (mc = NoAlloc \<or> mc = Alloc) vma pma1 type' s1;
     kassert check;
     map_loop N mc kern k (if mc = NoAlloc then pma1 + pagesize N else pma1) (vma + pagesize N) type' s2 }"

definition mapPageRegion :: "nat \<Rightarrow> MapCode \<Rightarrow> paddr \<Rightarrow> vaddr \<Rightarrow> mword \<Rightarrow> mword \<Rightarrow> aspace \<Rightarrow> paging \<Rightarrow> paging option" where
  "mapPageRegion N mc pma vma sz type as s = do {
     kassert (aligned vma (pagesize N));
     kassert (aligned sz (pagesize N));
     map_loop N mc (kernelAS as) (steps vma (vma + sz) N) pma vma type s }"

section \<open>Unmapping regions\<close>

definition post_inv :: "nat \<Rightarrow> bool \<Rightarrow> mword \<Rightarrow> vaddr \<Rightarrow> aspace \<Rightarrow> aspace" where
  "post_inv N alloc pe vma as = push_pi (as\<lparr>invList := butlast (invList as) @
     [(last (invList as))\<lparr>pentry := pe, pvma := vma, psize := pagesize N, pcount := activeCores as, palloc := alloc\<rparr>]\<rparr>)"

definition unmap_one :: "nat \<Rightarrow> bool \<Rightarrow> bool \<Rightarrow> vaddr \<Rightarrow> aspace \<times> paging \<Rightarrow> (aspace \<times> paging) option" where
  "unmap_one N alloc direct vma = (\<lambda>(as, s).
     if direct then do {
       (s1, pma) \<leftarrow> unmap N vma s;
       (if alloc \<and> pma \<noteq> lazyPage \<and> pma \<noteq> guardPage
        then do { s2 \<leftarrow> pg_release N s1 pma; Some (as, s2) } else Some (as, s1)) }
     else do {
       (s1, pe) \<leftarrow> unmap1 N True vma s;
       (case pe of
          None \<Rightarrow> Some (as, s1)
        | Some a \<Rightarrow>
            if activeCores as > 1 then do { kassert (invList as \<noteq> []); Some (post_inv N alloc a vma as, s1) }
            else do { (s2, _) \<leftarrow> unmap2 (Some a) s1; Some (as, s2) }) })"

fun unmap_loop :: "nat \<Rightarrow> bool \<Rightarrow> bool \<Rightarrow> nat \<Rightarrow> vaddr \<Rightarrow> aspace \<times> paging \<Rightarrow> (aspace \<times> paging) option" where
  "unmap_loop N alloc direct 0 vma st = Some st"
| "unmap_loop N alloc direct (Suc k) vma st = do {
     st1 \<leftarrow> unmap_one N alloc direct vma st;
     unmap_loop N alloc direct k (vma + pagesize N) st1 }"

definition unmapPageRegion :: "nat \<Rightarrow> bool \<Rightarrow> bool \<Rightarrow> vaddr \<Rightarrow> mword \<Rightarrow> aspace \<times> paging \<Rightarrow> (aspace \<times> paging) option" where
  "unmapPageRegion N alloc direct vma sz st = do {
     kassert (aligned vma (pagesize N));
     kassert (aligned sz (pagesize N));
     unmap_loop N alloc direct (steps vma (vma + sz) N) vma st }"

section \<open>The virtual range\<close>

definition getVmRange :: "nat \<Rightarrow> vaddr \<Rightarrow> mword \<Rightarrow> aspace \<Rightarrow> (aspace \<times> mword \<times> vaddr) option" where
  "getVmRange N addr sz as = do {
     kassert (mapBottom as < mapTop as);
     let end' = (if addr \<noteq> 0 then align_up (addr + sz) (pagesize N) else align_down (mapStart as) (pagesize N));
     let start = align_down (end' - sz) (pagesize N);
     (if start < mapBottom as then Some (as, sz, topaddr)
      else Some (if start < mapStart as then as\<lparr>mapStart := start\<rparr> else as, end' - start, start)) }"

text \<open>The loop of \<open>putVmRange\<close> looks for the first address in use; not returning is \<open>None\<close>.\<close>

partial_function (option) put_loop :: "paging \<Rightarrow> vaddr \<Rightarrow> vaddr \<Rightarrow> vaddr option" where
  "put_loop s top' end' =
    Option.bind (pg_test pagelevels end' (PageStatus_bits Available) s)
      (\<lambda>sz. if sz \<noteq> 0 \<and> end' + sz \<le> top' then put_loop s top' (end' + sz) else Some end')"

definition putVmRange :: "vaddr \<Rightarrow> mword \<Rightarrow> aspace \<times> paging \<Rightarrow> (aspace \<times> paging) option" where
  "putVmRange addr sz = (\<lambda>(as, s).
     if addr \<le> mapStart as \<and> addr + sz \<ge> mapStart as
     then do { e \<leftarrow> put_loop s (mapTop as) (addr + sz); Some (as\<lparr>mapStart := e\<rparr>, s) }
     else Some (as, s))"

section \<open>Invalidation\<close>

definition pg_releaseFrames :: "paging \<Rightarrow> paddr \<Rightarrow> mword \<Rightarrow> paging option" where
  "pg_releaseFrames s a sz = do { fm \<leftarrow> releaseFrames (pfm s) (unat a) (unat sz); Some (s\<lparr>pfm := fm\<rparr>) }"

definition finish_inv :: "pageinv \<Rightarrow> aspace \<times> paging \<Rightarrow> (aspace \<times> paging) option" where
  "finish_inv p = (\<lambda>(as, s). do {
     (s1, pma) \<leftarrow> unmap2 (Some (pentry p)) s;
     s2 \<leftarrow> (if palloc p \<and> pma \<noteq> lazyPage \<and> pma \<noteq> guardPage
           then pg_releaseFrames s1 pma (psize p) else Some s1);
     putVmRange (pvma p) (psize p) (as, s2) })"

text \<open>
  The loop runs over the elements from the processor's position up to the last one.  The
  result has the elements that stay, the state, and the addresses dropped from this
  processor's translation cache when \<open>invalidate\<close> is set.
\<close>

fun run_rest :: "pageinv list \<Rightarrow> aspace \<times> paging \<Rightarrow> (pageinv list \<times> (aspace \<times> paging)) option" where
  "run_rest [] st = None"
| "run_rest [l] st = Some ([l], st)"
| "run_rest (p # q # r) st = do {
     kassert (pcount p > 0);
     let p' = p\<lparr>pcount := pcount p - 1\<rparr>;
     (if pcount p' = 0 then do { st1 \<leftarrow> finish_inv p' st; run_rest (q # r) st1 }
      else do { (rest, st1) \<leftarrow> run_rest (q # r) st; Some (p' # rest, st1) }) }"

definition runInvalidation :: "nat \<Rightarrow> aspace \<times> paging \<Rightarrow> (aspace \<times> paging) option" where
  "runInvalidation pi = (\<lambda>(as, s).
     let before = takeWhile (\<lambda>p. pid p \<noteq> pi) (invList as);
         rest = dropWhile (\<lambda>p. pid p \<noteq> pi) (invList as)
     in do {
       (rest', (as', s')) \<leftarrow> run_rest rest (as, s);
       Some (as'\<lparr>invList := before @ rest'\<rparr>, s') })"

definition back_pi :: "aspace \<Rightarrow> nat" where
  "back_pi as = pid (last (invList as))"

section \<open>Operations\<close>

definition AS_init :: "bool \<Rightarrow> aspace" where
  "AS_init k = \<lparr>activeCores = 0, invList = [], nextpid = 0, pagetable = topaddr,
     mapBottom = 0, mapStart = 0, mapTop = 0, kernelAS = k\<rparr>"

definition AS_new :: "bool \<Rightarrow> paging \<Rightarrow> (aspace \<times> paging) option" where
  "AS_new k s = (if k then Some (AS_init True, s)
     else do { (s1, pt) \<leftarrow> cloneKernelPT s; Some (push_pi (AS_init False\<lparr>pagetable := pt\<rparr>), s1) })"

definition AS_destroy :: "aspace \<Rightarrow> paging \<Rightarrow> paging option" where
  "AS_destroy as s = do {
     kassert (\<not> kernelAS as);
     kassert (pagetable as \<noteq> topaddr);
     kassert (pagetable as \<noteq> cr3 s);
     kassert (length (invList as) = 1);
     pg_release pagetablepl s (pagetable as) }"

definition initKernel :: "vaddr \<Rightarrow> vaddr \<Rightarrow> paddr \<Rightarrow> aspace \<Rightarrow> aspace option" where
  "initKernel bot' top' pt as = do {
     kassert (kernelAS as);
     Some (push_pi (as\<lparr>pagetable := pt, mapBottom := bot', mapStart := top', mapTop := top'\<rparr>)) }"

definition initUser :: "vaddr \<Rightarrow> aspace \<Rightarrow> aspace option" where
  "initUser bssEnd as = do {
     kassert (\<not> kernelAS as);
     Some (as\<lparr>mapBottom := bssEnd, mapStart := usertop, mapTop := usertop\<rparr>) }"

definition initProcessor :: "aspace \<Rightarrow> (aspace \<times> nat) option" where
  "initProcessor as = do {
     kassert (kernelAS as);
     Some (as\<lparr>activeCores := activeCores as + 1\<rparr>, back_pi as) }"

definition runKernelInvalidation :: "nat \<Rightarrow> aspace \<times> paging \<Rightarrow> ((aspace \<times> paging) \<times> nat) option" where
  "runKernelInvalidation kernPI st = do {
     kassert (kernelAS (fst st));
     st' \<leftarrow> runInvalidation kernPI st;
     Some (st', back_pi (fst st')) }"

definition clearUserPaging :: "nat \<Rightarrow> aspace \<times> paging \<Rightarrow> ((aspace \<times> paging) \<times> nat) option" where
  "clearUserPaging userPI st = do {
     kassert (\<not> kernelAS (fst st));
     kassert (pagetable (fst st) \<noteq> topaddr);
     (as, s) \<leftarrow> runInvalidation userPI st;
     let start = align_down userbot (pagesize pagelevels);
     s' \<leftarrow> clearAll pagelevels (steps start (align_up usertop (pagesize pagelevels)) pagelevels) start s;
     Some ((as, s'), back_pi as) }"

text \<open>
  \<open>enter\<close>, for two different address spaces: the processor leaves \<open>prev\<close> and installs the
  page table of the other one; \<open>userPI\<close> is its position in the list of its address space.
\<close>

definition enter :: "aspace \<Rightarrow> aspace \<Rightarrow> nat \<Rightarrow> paging \<Rightarrow> (aspace \<times> aspace \<times> nat \<times> paging) option" where
  "enter prev as userPI s = do {
     kassert (pagetable prev = cr3 s);
     kassert (pagetable as \<noteq> topaddr);
     (prev', s1) \<leftarrow> (if kernelAS prev then Some (prev, s)
        else do { (p, s1) \<leftarrow> runInvalidation userPI (prev, s); Some (p\<lparr>activeCores := activeCores p - 1\<rparr>, s1) });
     let s2 = s1\<lparr>cr3 := pagetable as\<rparr>;
     Some (prev', if kernelAS as then as else as\<lparr>activeCores := activeCores as + 1\<rparr>,
           if kernelAS as then userPI else back_pi as, s2) }"

definition AS_map :: "nat \<Rightarrow> bool \<Rightarrow> vaddr \<Rightarrow> mword \<Rightarrow> mword \<Rightarrow> mword \<Rightarrow> mword \<Rightarrow> mword \<Rightarrow> paddr \<Rightarrow> aspace \<times> paging \<Rightarrow> ((aspace \<times> paging) \<times> vaddr) option" where
  "AS_map N alloc addr sz prot flags filedes off pma = (\<lambda>(as, s). do {
     kassert (prot = 0);
     kassert (flags = 0);
     kassert (filedes = -1);
     kassert (off = 0);
     (as1, sz1, start) \<leftarrow> getVmRange N addr sz as;
     s1 \<leftarrow> mapPageRegion N (if kernelAS as then if alloc then Alloc else NoAlloc else if alloc then Lazy else NoAlloc)
        pma start sz1 (PageType_bits Data) as1 s;
     Some ((as1, s1), start) })"

definition AS_unmap :: "nat \<Rightarrow> bool \<Rightarrow> vaddr \<Rightarrow> mword \<Rightarrow> aspace \<times> paging \<Rightarrow> (aspace \<times> paging) option" where
  "AS_unmap N alloc addr sz st = do {
     kassert (aligned addr (pagesize N));
     unmapPageRegion N alloc False addr (align_up sz (pagesize N)) st }"

definition kmap :: "nat \<Rightarrow> bool \<Rightarrow> vaddr \<Rightarrow> mword \<Rightarrow> paddr \<Rightarrow> aspace \<times> paging \<Rightarrow> ((aspace \<times> paging) \<times> vaddr) option" where
  "kmap N alloc addr sz pma = (\<lambda>(as, s). do {
     (as1, sz1, start) \<leftarrow> getVmRange N addr sz as;
     s1 \<leftarrow> mapPageRegion N (if alloc then Alloc else NoAlloc) pma start sz1 (PageType_bits KernelData) as1 s;
     Some ((as1, s1), start) })"

definition allocStack :: "mword \<Rightarrow> aspace \<times> paging \<Rightarrow> ((aspace \<times> paging) \<times> vaddr) option" where
  "allocStack ss = (\<lambda>(as, s). do {
     kassert (ss \<ge> minimumStack);
     (as1, sz, vma) \<leftarrow> getVmRange stackpl 0 (ss + stackGuardPage) as;
     kassert (vma \<noteq> topaddr);
     kassert (sz = ss + stackGuardPage);
     s1 \<leftarrow> mapPageRegion stackpl Guard 0 vma stackGuardPage (PageType_bits Data) as1 s;
     s2 \<leftarrow> mapPageRegion stackpl (if kernelAS as then Alloc else Lazy) 0 (vma + stackGuardPage) ss (PageType_bits Data) as1 s1;
     Some ((as1, s2), vma + stackGuardPage) })"

definition releaseStack :: "vaddr \<Rightarrow> mword \<Rightarrow> aspace \<times> paging \<Rightarrow> (aspace \<times> paging) option" where
  "releaseStack vma ss st = unmapPageRegion stackpl True False (vma - stackGuardPage) (ss + stackGuardPage) st"

definition direct_ok :: "bool \<Rightarrow> vaddr \<Rightarrow> aspace \<Rightarrow> bool" where
  "direct_ok check vma as \<longleftrightarrow> \<not> check \<or> vma < mapBottom as \<or> vma > mapTop as"

definition allocDirect :: "nat \<Rightarrow> bool \<Rightarrow> vaddr \<Rightarrow> mword \<Rightarrow> PageType \<Rightarrow> aspace \<Rightarrow> paging \<Rightarrow> paging option" where
  "allocDirect N check vma sz t as s = do {
     kassert (direct_ok check vma as); mapPageRegion N Alloc 0 vma sz (PageType_bits t) as s }"

definition releaseDirect :: "nat \<Rightarrow> bool \<Rightarrow> vaddr \<Rightarrow> mword \<Rightarrow> aspace \<times> paging \<Rightarrow> (aspace \<times> paging) option" where
  "releaseDirect N check vma sz st = do {
     kassert (direct_ok check vma (fst st)); unmapPageRegion N True True vma sz st }"

definition mapDirect :: "nat \<Rightarrow> bool \<Rightarrow> paddr \<Rightarrow> vaddr \<Rightarrow> mword \<Rightarrow> PageType \<Rightarrow> aspace \<Rightarrow> paging \<Rightarrow> paging option" where
  "mapDirect N check pma vma sz t as s = do {
     kassert (direct_ok check vma as); mapPageRegion N NoAlloc pma vma sz (PageType_bits t) as s }"

definition unmapDirect :: "nat \<Rightarrow> bool \<Rightarrow> vaddr \<Rightarrow> mword \<Rightarrow> aspace \<times> paging \<Rightarrow> (aspace \<times> paging) option" where
  "unmapDirect N check vma sz st = do {
     kassert (direct_ok check vma (fst st)); unmapPageRegion N False True vma sz st }"

section \<open>Properties\<close>

lemma unat_align_down_page:
  assumes "N \<le> 5"
  shows "unat (align_down x (pagesize N)) = unat x - unat x mod 2 ^ pagesizebits N"
    "align_down x (pagesize N) \<le> x" "aligned (align_down x (pagesize N)) (pagesize N)"
  using unat_align_down [of x "pagesizebits N"] aligned_align_down [of x "pagesizebits N"]
  by (simp_all add: pagesize_pow word_le_nat_alt)

text \<open>
  Without a requested address, \<open>getVmRange\<close> hands out the page-aligned range just below the
  lowest one in use: it covers the size asked for, lies inside the address space and below
  everything handed out before, so ranges never overlap; when there is no room it returns
  \<open>topaddr\<close> and changes nothing.  The size must not exceed the addresses below the start.
\<close>

theorem getVmRange_below:
  assumes "N \<le> 4" "mapBottom as < mapTop as" "sz \<le> align_down (mapStart as) (pagesize N)"
  shows "\<exists>as' sz' start. getVmRange N 0 sz as = Some (as', sz', start) \<and>
    (start = topaddr \<and> as' = as \<or>
     sz \<le> sz' \<and> mapBottom as \<le> start \<and> unat start + unat sz' \<le> unat (mapStart as) \<and>
     aligned start (pagesize N) \<and> (sz' \<noteq> 0 \<longrightarrow> as' = as\<lparr>mapStart := start\<rparr>))"
proof -
  define e where "e = align_down (mapStart as) (pagesize N)"
  define st where "st = align_down (e - sz) (pagesize N)"
  have N: "N \<le> 5" using assms(1) by simp
  note E = unat_align_down_page [OF N, of "mapStart as", folded e_def]
  note S = unat_align_down_page [OF N, of "e - sz", folded st_def]
  have sub: "unat (e - sz) = unat e - unat sz" using assms(3) by (simp add: e_def unat_sub)
  have "st \<le> e - sz" "sz \<le> e" using S(2) assms(3) by (simp_all add: e_def)
  then have le: "unat st + unat sz \<le> unat e" "st \<le> e" using sub by (simp_all add: word_le_nat_alt)
  have sz': "unat (e - st) = unat e - unat st" using le(2) by (simp add: unat_sub)
  have def: "getVmRange N 0 sz as =
      (if st < mapBottom as then Some (as, sz, topaddr)
       else Some (if st < mapStart as then as\<lparr>mapStart := st\<rparr> else as, e - st, st))"
    using assms(2) by (simp add: getVmRange_def e_def st_def Let_def)
  show ?thesis
  proof (cases "st < mapBottom as")
    case True
    with def show ?thesis by auto
  next
    case False
    have "sz \<le> e - st" using le sz' by (simp add: word_le_nat_alt)
    moreover have "unat st + unat (e - st) \<le> unat (mapStart as)"
      using le(2) sz' E(2) by (simp add: word_le_nat_alt)
    moreover have "st < mapStart as" if "e - st \<noteq> 0"
    proof -
      have "st \<noteq> e" using that by auto
      with le(2) E(2) show ?thesis by (meson order.not_eq_order_implies_strict order_less_le_trans)
    qed
    ultimately show ?thesis using def False S(3) by auto
  qed
qed

definition ex_space :: aspace where
  "ex_space = \<lparr>activeCores = 1, invList = [], nextpid = 0, pagetable = 0, mapBottom = userbot,
     mapStart = usertop, mapTop = usertop, kernelAS = False\<rparr>"

theorem getVmRange_below_witness:
  "getVmRange 1 0 5000 ex_space = Some (ex_space\<lparr>mapStart := usertop - 8192\<rparr>, 8192, usertop - 8192)"
proof -
  have "mapBottom ex_space < mapTop ex_space" "(5000 :: mword) \<le> align_down (mapStart ex_space) (pagesize 1)"
    by code_simp+
  then have "\<exists>as' sz' start. getVmRange 1 0 5000 ex_space = Some (as', sz', start)"
    using getVmRange_below [of 1 ex_space 5000] by fastforce
  moreover have "align_down (mapStart ex_space) (pagesize 1) = usertop" "align_down (usertop - 5000) (pagesize 1) = usertop - 8192"
    "mapBottom ex_space < mapTop ex_space" "\<not> usertop - 8192 < mapBottom ex_space" "usertop - 8192 < mapStart ex_space"
    by code_simp+
  ultimately show ?thesis by (simp add: getVmRange_def Let_def)
qed

text \<open>
  The check against the bottom of the address space does not catch a size larger than the
  addresses below the start: the difference wraps around, and a range above the top of
  the user address space is returned as if it were free.
\<close>

theorem getVmRange_wraps:
  "getVmRange 1 0 (usertop + 0x1000) ex_space = Some (ex_space, usertop + 0x1000, - 0x1000) \<and> usertop < - 0x1000"
proof -
  have "align_down (mapStart ex_space) (pagesize 1) = usertop" "align_down (usertop - (usertop + 0x1000)) (pagesize 1) = - 0x1000"
    "mapBottom ex_space < mapTop ex_space" "\<not> - 0x1000 < mapBottom ex_space" "\<not> - 0x1000 < mapStart ex_space"
    "usertop - - 0x1000 = usertop + 0x1000" "usertop < - 0x1000"
    by code_simp+
  then show ?thesis by (simp add: getVmRange_def Let_def del: diff_add_eq_diff_diff_swap add_diff_cancel_left')
qed

lemma unmap1_pfm: "unmap1 N async vma s = Some (s', pe) \<Longrightarrow> pfm s' = pfm s"
  unfolding unmap1_def Let_def setPE_def
  by (cases "pe_loc s N vma") (auto simp: kassert_def split: if_splits)

lemma unmap2_pfm: "unmap2 pe s = Some (s', a) \<Longrightarrow> pfm s' = pfm s"
  by (auto simp: unmap2_def setPE_def split: option.splits)

lemma unmap_one_single:
  assumes "\<not> activeCores as > 1" "unmap_one N alloc False vma (as, s) = Some (as', s')"
  shows "as' = as \<and> pfm s' = pfm s"
proof -
  obtain s1 pe where u: "unmap1 N True vma s = Some (s1, pe)"
    using assms(2) by (auto simp: unmap_one_def bind_eq_Some_conv)
  show ?thesis
  proof (cases pe)
    case None
    with assms(2) u unmap1_pfm [OF u] show ?thesis by (simp add: unmap_one_def)
  next
    case (Some a)
    with assms u obtain s2 p where "unmap2 (Some a) s1 = Some (s2, p)" "as' = as" "s' = s2"
      by (auto simp: unmap_one_def bind_eq_Some_conv)
    with unmap1_pfm [OF u] unmap2_pfm show ?thesis by metis
  qed
qed

lemma unmap_loop_single:
  "\<not> activeCores (fst st) > 1 \<Longrightarrow> unmap_loop N alloc False k vma st = Some st' \<Longrightarrow>
    fst st' = fst st \<and> pfm (snd st') = pfm (snd st)"
proof (induction k arbitrary: vma st)
  case (Suc k)
  then obtain st1 where st1: "unmap_one N alloc False vma st = Some st1" "unmap_loop N alloc False k (vma + pagesize N) st1 = Some st'"
    by (auto simp: bind_eq_Some_conv)
  have "fst st1 = fst st \<and> pfm (snd st1) = pfm (snd st)"
    using unmap_one_single [of "fst st" N alloc vma "snd st" "fst st1" "snd st1"] st1(1) Suc.prems(1) by simp
  with Suc.IH [OF _ st1(2)] Suc.prems(1) show ?case by simp
qed simp

text \<open>
  C40: Unmapping with at most one active core never returns memory: whatever \<open>alloc\<close> says, the
  frames stay allocated and the virtual range stays in use.
\<close>

theorem unmap_single_core_leaks:
  assumes "activeCores as \<le> 1" "AS_unmap N True addr sz (as, s) = Some (as', s')"
  shows "as' = as \<and> pfm s' = pfm s"
  using assms unmap_loop_single [of "(as, s)" N True _ addr "(as', s')"]
  by (auto simp: AS_unmap_def unmapPageRegion_def bind_eq_Some_conv not_less)

theorem unmap_single_core_leaks_witness:
  "\<exists>fm s' s''. pg_map 1 True 0x400000 0x5000 (PageType_bits Data) (first_tables 0 fm) = Some (s', True) \<and>
    AS_unmap 1 True 0x400000 0x1000 (ex_space, s') = Some (ex_space, s'') \<and> pfm s'' = pfm s'"
proof -
  obtain fm where fm: "pt_inv (first_tables 0 fm)" "card (fm_free (pfm (first_tables 0 fm))) = 1024"
    using first_frames by blast
  have "\<exists>s' a. pg_map 1 True 0x400000 0x5000 (PageType_bits Data) (first_tables 0 fm) = Some (s', True) \<and> keeps (first_tables 0 fm) s' \<and>
    self_map (pm s') (cr3 s') \<and> hw_slot (pm s') (cr3 s') (4 - 1) 0x400000 = Some a \<and>
    pm s' a = 0x5000 OR PageType_bits Data OR pageBit 1 OR bs_mask PE_P \<and> hw_slot ((pm s')(a := 0)) (cr3 s') (4 - 1) 0x400000 = Some a"
    using fm(2) by (intro pg_map_ok [OF fm(1) _ _ example_page(2,4) first_tables_unused [OF example_page(1)]]) simp_all
  then obtain s' a where M: "pg_map 1 True 0x400000 0x5000 (PageType_bits Data) (first_tables 0 fm) = Some (s', True)"
    "self_map (pm s') (cr3 s')" "hw_slot (pm s') (cr3 s') (4 - 1) 0x400000 = Some a"
    "pm s' a = 0x5000 OR PageType_bits Data OR pageBit 1 OR bs_mask PE_P" by (elim exE conjE)
  note E = page_entry [OF example_page(4) M(4)]
  have "pe_loc s' 1 0x400000 = Some a" using M(2,3) by (intro pe_loc_slot) simp_all
  moreover have "isPage 1 (pm s' a)" by (simp add: isPage_bit)
  moreover have "aligned (0x1000 :: mword) (pagesize 1)" "align_up 0x1000 (pagesize 1) = 0x1000" "\<not> activeCores ex_space > 1"
    by code_simp+
  moreover have "steps 0x400000 (0x400000 + 0x1000) 1 = 1" by (simp add: steps_def)
  ultimately have "\<exists>s''. AS_unmap 1 True 0x400000 0x1000 (ex_space, s') = Some (ex_space, s'')"
    using E(1) example_page(2) by (simp add: AS_unmap_def unmapPageRegion_def unmap_one_def unmap1_def unmap2_def)
  then obtain s'' where u: "AS_unmap 1 True 0x400000 0x1000 (ex_space, s') = Some (ex_space, s'')" by blast
  have "activeCores ex_space \<le> 1" by code_simp
  from unmap_single_core_leaks [OF this u] M(1) u show ?thesis by blast
qed

end
