(* ===== verification/Invalidation.thy ===== *)
theory Invalidation
  imports AddressSpaces
begin

text \<open>
  The page invalidation protocol of \<open>kernel/AddressSpace.h\<close>.  A core that unmaps a page
  clears its present bit and appends an element with the number of active cores; each core
  runs through the elements it has not seen, drops the address from its translation cache
  and counts the element down; the core that reaches zero clears the entry and frees the
  frame.  The steps use \<open>post_inv\<close> and the loop of \<open>runInvalidation\<close> on an address space;
  caches and the set of mapped pages are added to state what the protocol is for: an entry
  is cleared only when no core has it cached.  The elements of one address space are
  handled under its lock, so each operation is one step.
\<close>

section \<open>The list part of the loop\<close>

fun run_list :: "pageinv list \<Rightarrow> (pageinv list \<times> pageinv list) option" where
  "run_list [] = None"
| "run_list [l] = Some ([l], [])"
| "run_list (p # q # r) = do {
     kassert (pcount p > 0);
     (stay, fin) \<leftarrow> run_list (q # r);
     (let p' = p\<lparr>pcount := pcount p - 1\<rparr>
      in if pcount p' = 0 then Some (stay, p' # fin) else Some (p' # stay, fin)) }"

fun finish_all :: "pageinv list \<Rightarrow> aspace \<times> paging \<Rightarrow> (aspace \<times> paging) option" where
  "finish_all [] st = Some st"
| "finish_all (p # ps) st = Option.bind (finish_inv p st) (finish_all ps)"

text \<open>The loop of \<open>runInvalidation\<close> is its list part followed by the work on the finished elements.\<close>

lemma run_rest_list:
  "run_rest l st = Option.bind (run_list l) (\<lambda>(stay, fin). map_option (Pair stay) (finish_all fin st))"
proof (induction l arbitrary: st rule: run_list.induct)
  case (3 p q r)
  define p' where "p' = p\<lparr>pcount := pcount p - 1\<rparr>"
  show ?case
  proof (cases "pcount p > 0")
    case True
    show ?thesis
    proof (cases "pcount p' = 0")
      case z: True
      have "run_rest (p # q # r) st = Option.bind (finish_inv p' st) (run_rest (q # r))"
        using True z by (simp add: p'_def Let_def)
      then show ?thesis
        using True z 3
        by (cases "finish_inv p' st"; cases "run_list (q # r)") (auto simp: p'_def Let_def)
    next
      case False
      then show ?thesis
        using True 3
        by (cases "run_list (q # r)") (auto simp: p'_def Let_def map_option_case split: option.splits)
    qed
  next
    case False
    then have "kassert (0 < pcount p) = None" by (simp add: kassert_def)
    then show ?thesis by simp
  qed
qed simp_all


section \<open>Counts\<close>

text \<open>
  \<open>at p\<close> is the set of cores whose next element is \<open>p\<close>.  The count of an element is the
  number of cores at or before it, \<open>n\<close> of them before the list.  The last element is the
  empty one the next unmapping fills in.
\<close>

fun pre_ok :: "(nat \<Rightarrow> nat set) \<Rightarrow> nat \<Rightarrow> pageinv list \<Rightarrow> bool" where
  "pre_ok at n [] = True"
| "pre_ok at n (p # r) =
     (unat (pcount p) = n + card (at (pid p)) \<and> pcount p \<noteq> 0 \<and> pre_ok at (n + card (at (pid p))) r)"

definition counts_ok :: "(nat \<Rightarrow> nat set) \<Rightarrow> nat \<Rightarrow> pageinv list \<Rightarrow> bool" where
  "counts_ok at n l = (l \<noteq> [] \<and> pre_ok at n (butlast l))"

abbreviation "cores_in at l \<equiv> (\<Sum>x\<leftarrow>l. card (at (pid x)))"
abbreviation "keys l \<equiv> map (\<lambda>e. (pid e, pvma e)) l"

lemma pre_ok_append: "pre_ok at n (l @ r) \<longleftrightarrow> pre_ok at n l \<and> pre_ok at (n + cores_in at l) r"
  by (induction l arbitrary: n) (auto simp: add.assoc)

lemma counts_ok_append:
  "r \<noteq> [] \<Longrightarrow> counts_ok at n (l @ r) \<longleftrightarrow> pre_ok at n l \<and> counts_ok at (n + cores_in at l) r"
  by (simp add: counts_ok_def butlast_append pre_ok_append)

lemma pre_ok_cong:
  "(\<And>x. x \<in> set l \<Longrightarrow> at' (pid x) = at (pid x)) \<Longrightarrow> pre_ok at' n l = pre_ok at n l"
  by (induction l arbitrary: n) auto

lemma cores_in_cong:
  "(\<And>x. x \<in> set l \<Longrightarrow> at' (pid x) = at (pid x)) \<Longrightarrow> cores_in at' l = cores_in at l"
  by (induction l) auto

text \<open>
  A core that is counted in every element (it stands before the list) runs through it: no
  assertion fails, the counts are right for the remaining cores, and exactly a front part
  of the list, for which nobody else waits, is finished.
\<close>

definition ran_thru :: "(nat \<Rightarrow> nat set) \<Rightarrow> nat \<Rightarrow> pageinv list \<Rightarrow> pageinv list \<Rightarrow> pageinv list \<Rightarrow> bool" where
  "ran_thru at m l stay fin = (run_list l = Some (stay, fin) \<and> counts_ok at m stay \<and> last stay = last l \<and>
     keys l = keys fin @ keys stay \<and> (\<forall>e\<in>set fin. m = 0 \<and> at (pid e) = {}))"

lemma run_list_step:
  assumes "unat (pcount p) = Suc k" "k = m + card (at (pid p))" "finite (at (pid p))"
    and "ran_thru at k (q # r) stay fin"
  shows "\<exists>stay fin. ran_thru at m (p # q # r) stay fin"
proof -
  define p' where "p' = p\<lparr>pcount := pcount p - 1\<rparr>"
  have pos: "0 < pcount p" using assms(1) by (metis nat.discI unat_0 word_gt_0)
  then have u: "unat (pcount p') = k" using assms(1) by (simp add: p'_def unat_minus_one word_gt_0)
  then have z: "pcount p' = 0 \<longleftrightarrow> k = 0" by (metis unat_eq_zero)
  have s: "pid p' = pid p" "pvma p' = pvma p" by (simp_all add: p'_def)
  have r: "run_list (p # q # r) = (if k = 0 then Some (stay, p' # fin) else Some (p' # stay, fin))"
    using pos assms(4) z by (simp add: ran_thru_def p'_def Let_def)
  show ?thesis
  proof (cases "k = 0")
    case True
    with r assms s have "ran_thru at m (p # q # r) stay (p' # fin)" by (auto simp: ran_thru_def)
    then show ?thesis by blast
  next
    case False
    with assms(4) have f: "fin = []" and st: "stay \<noteq> []" by (cases fin; auto simp: ran_thru_def counts_ok_def)+
    have "counts_ok at m (p' # stay)"
      using assms(2,4) st u z False s by (simp add: ran_thru_def counts_ok_def)
    with r f st assms(4) False s have "ran_thru at m (p # q # r) (p' # stay) fin" by (simp add: ran_thru_def)
    then show ?thesis by blast
  qed
qed

lemma run_list_counts:
  assumes "counts_ok at (Suc m) l" "\<And>x. finite (at x)"
  shows "\<exists>stay fin. ran_thru at m l stay fin"
  using assms(1)
proof (induction l arbitrary: m rule: induct_list012)
  case (2 l)
  then show ?case by (auto simp: ran_thru_def counts_ok_def)
next
  case (3 p q r)
  let ?k = "m + card (at (pid p))"
  from "3.prems" have c: "unat (pcount p) = Suc ?k" "counts_ok at (Suc ?k) (q # r)"
    by (simp_all add: counts_ok_def)
  from 3(2) [OF c(2)] obtain stay fin where "ran_thru at ?k (q # r) stay fin" by blast
  then show ?case by (rule run_list_step [where k = ?k and m = m and at = at, OF c(1) refl assms(2)])
qed (simp add: counts_ok_def)

section \<open>The protocol\<close>

text \<open>
  \<open>ptr c\<close> is the position of an active core (\<open>userPI\<close> or \<open>kernPI\<close>); a core that is not active
  in the address space does not touch its addresses.  \<open>cache c\<close> are the addresses in its
  translation cache, \<open>mapped\<close> the pages whose present bit is set, \<open>cleared\<close> the pages whose
  entry has been cleared and whose frame may belong to somebody else.
\<close>

record invsys =
  space :: aspace
  ptr :: "nat \<Rightarrow> nat option"
  cache :: "nat \<Rightarrow> vaddr set"
  mapped :: "vaddr set"
  cleared :: "vaddr set"

abbreviation "from_pi pi l \<equiv> dropWhile (\<lambda>p. pid p \<noteq> pi) l"
abbreviation "upto_pi pi l \<equiv> takeWhile (\<lambda>p. pid p \<noteq> pi) l"
abbreviation "waiting l \<equiv> pvma ` set (butlast l)"

definition run_space :: "nat \<Rightarrow> aspace \<Rightarrow> (aspace \<times> vaddr set) option" where
  "run_space pi as = map_option (\<lambda>(stay, fin). (as\<lparr>invList := upto_pi pi (invList as) @ stay\<rparr>, pvma ` set fin))
     (run_list (from_pi pi (invList as)))"

definition seen_by :: "nat \<Rightarrow> aspace \<Rightarrow> vaddr set" where
  "seen_by pi as = waiting (from_pi pi (invList as))"

inductive inv_step :: "nat \<Rightarrow> invsys \<Rightarrow> invsys \<Rightarrow> bool" for n where
  i_map: "v \<notin> mapped \<sigma> \<Longrightarrow> v \<notin> waiting (invList (space \<sigma>)) \<Longrightarrow>
    inv_step n \<sigma> (\<sigma>\<lparr>mapped := insert v (mapped \<sigma>), cleared := cleared \<sigma> - {v}\<rparr>)"
| i_load: "ptr \<sigma> c = Some p \<Longrightarrow> v \<in> mapped \<sigma> \<Longrightarrow>
    inv_step n \<sigma> (\<sigma>\<lparr>cache := (cache \<sigma>)(c := insert v (cache \<sigma> c))\<rparr>)"
| i_post: "ptr \<sigma> c = Some p \<Longrightarrow> v \<in> mapped \<sigma> \<Longrightarrow> activeCores (space \<sigma>) > 1 \<Longrightarrow>
    inv_step n \<sigma> (\<sigma>\<lparr>space := post_inv N alloc pe v (space \<sigma>), mapped := mapped \<sigma> - {v}\<rparr>)"
| i_direct: "ptr \<sigma> c = Some p \<Longrightarrow> v \<in> mapped \<sigma> \<Longrightarrow> \<not> activeCores (space \<sigma>) > 1 \<Longrightarrow>
    inv_step n \<sigma> (\<sigma>\<lparr>mapped := mapped \<sigma> - {v}, cleared := insert v (cleared \<sigma>),
      cache := (cache \<sigma>)(c := cache \<sigma> c - {v})\<rparr>)"
| i_run: "ptr \<sigma> c = Some p \<Longrightarrow> run_space p (space \<sigma>) = Some (as, gone) \<Longrightarrow>
    inv_step n \<sigma> (\<sigma>\<lparr>space := as, ptr := (ptr \<sigma>)(c := Some (back_pi as)),
      cache := (cache \<sigma>)(c := cache \<sigma> c - seen_by p (space \<sigma>)), cleared := cleared \<sigma> \<union> gone\<rparr>)"
| i_leave: "ptr \<sigma> c = Some p \<Longrightarrow> run_space p (space \<sigma>) = Some (as, gone) \<Longrightarrow>
    inv_step n \<sigma> (\<sigma>\<lparr>space := as\<lparr>activeCores := activeCores as - 1\<rparr>, ptr := (ptr \<sigma>)(c := None),
      cache := (cache \<sigma>)(c := {}), cleared := cleared \<sigma> \<union> gone\<rparr>)"
| i_join: "ptr \<sigma> c = None \<Longrightarrow> c < n \<Longrightarrow>
    inv_step n \<sigma> (\<sigma>\<lparr>space := (space \<sigma>)\<lparr>activeCores := activeCores (space \<sigma>) + 1\<rparr>,
      ptr := (ptr \<sigma>)(c := Some (back_pi (space \<sigma>))), cache := (cache \<sigma>)(c := {})\<rparr>)"

definition inv_start :: "invsys \<Rightarrow> bool" where
  "inv_start \<sigma> = (length (invList (space \<sigma>)) = 1 \<and> pid (hd (invList (space \<sigma>))) < nextpid (space \<sigma>) \<and>
     activeCores (space \<sigma>) = 0 \<and> ptr \<sigma> = (\<lambda>_. None) \<and> cache \<sigma> = (\<lambda>_. {}) \<and> mapped \<sigma> \<inter> cleared \<sigma> = {})"

section \<open>Invariant\<close>

definition at_pi :: "(nat \<Rightarrow> nat option) \<Rightarrow> nat \<Rightarrow> nat set" where
  "at_pi f p = {c. f c = Some p}"

definition list_inv :: "nat \<Rightarrow> aspace \<Rightarrow> (nat \<Rightarrow> nat option) \<Rightarrow> bool" where
  "list_inv n as f = (counts_ok (at_pi f) 0 (invList as) \<and> distinct (map pid (invList as)) \<and>
     (\<forall>e\<in>set (invList as). pid e < nextpid as) \<and> distinct (map pvma (butlast (invList as))) \<and>
     ran f \<subseteq> pid ` set (invList as) \<and> dom f \<subseteq> {..<n} \<and> activeCores as = of_nat (card (dom f)))"

definition view_inv :: "invsys \<Rightarrow> bool" where
  "view_inv \<sigma> = (mapped \<sigma> \<inter> waiting (invList (space \<sigma>)) = {} \<and> mapped \<sigma> \<inter> cleared \<sigma> = {} \<and>
     cleared \<sigma> \<inter> waiting (invList (space \<sigma>)) = {} \<and>
     (\<forall>c v. v \<in> cache \<sigma> c \<longrightarrow> (\<exists>p. ptr \<sigma> c = Some p \<and> (v \<in> mapped \<sigma> \<or> v \<in> seen_by p (space \<sigma>)))))"

lemma view_invI:
  assumes "mapped \<sigma> \<inter> waiting (invList (space \<sigma>)) = {}" "mapped \<sigma> \<inter> cleared \<sigma> = {}" "cleared \<sigma> \<inter> waiting (invList (space \<sigma>)) = {}"
    and "\<And>c v. v \<in> cache \<sigma> c \<Longrightarrow> \<exists>p. ptr \<sigma> c = Some p \<and> (v \<in> mapped \<sigma> \<or> v \<in> seen_by p (space \<sigma>))"
  shows "view_inv \<sigma>"
  using assms unfolding view_inv_def by simp

lemma view_invD:
  assumes "view_inv \<sigma>"
  shows "mapped \<sigma> \<inter> waiting (invList (space \<sigma>)) = {}" "mapped \<sigma> \<inter> cleared \<sigma> = {}" "cleared \<sigma> \<inter> waiting (invList (space \<sigma>)) = {}"
    and "\<And>c v. v \<in> cache \<sigma> c \<Longrightarrow> \<exists>p. ptr \<sigma> c = Some p \<and> (v \<in> mapped \<sigma> \<or> v \<in> seen_by p (space \<sigma>))"
  using assms unfolding view_inv_def by simp_all

lemma view_cached:
  assumes "view_inv \<sigma>" "v \<in> cache \<sigma> c"
  obtains p where "ptr \<sigma> c = Some p" "v \<in> mapped \<sigma> \<or> v \<in> seen_by p (space \<sigma>)"
  using view_invD(4) [OF assms] by blast

lemma view_cache: "view_inv \<sigma> \<Longrightarrow> ptr \<sigma> c = Some p \<Longrightarrow> v \<in> cache \<sigma> c \<Longrightarrow> v \<in> mapped \<sigma> \<or> v \<in> seen_by p (space \<sigma>)"
  by (erule (1) view_cached) simp

lemma finite_at: "dom f \<subseteq> {..<n} \<Longrightarrow> finite (at_pi f p)"
  by (rule finite_subset [of _ "{..<n}"]) (auto simp: at_pi_def)

lemma cores_in_card:
  assumes "distinct (map pid l)" "finite (dom f)"
  shows "cores_in (at_pi f) l = card {c. \<exists>p \<in> pid ` set l. f c = Some p}"
  using assms(1)
proof (induction l)
  case (Cons e l)
  have "{c. \<exists>p \<in> pid ` set (e # l). f c = Some p} = at_pi f (pid e) \<union> {c. \<exists>p \<in> pid ` set l. f c = Some p}"
    by (auto simp: at_pi_def)
  moreover have "at_pi f (pid e) \<inter> {c. \<exists>p \<in> pid ` set l. f c = Some p} = {}"
    using Cons.prems by (auto simp: at_pi_def) (metis image_eqI)
  moreover have "finite (at_pi f (pid e))" "finite {c. \<exists>p \<in> pid ` set l. f c = Some p}"
    by (rule finite_subset [OF _ assms(2)], auto simp: at_pi_def)+
  ultimately show ?case using Cons by (simp add: card_Un_disjoint)
qed simp

lemma split_at:
  assumes "p \<in> pid ` set l" "distinct (map pid l)"
  obtains a e b where "l = a @ e # b" "pid e = p" "upto_pi p l = a" "from_pi p l = e # b"
    "p \<notin> pid ` set a" "p \<notin> pid ` set b"
proof -
  from assms(1) obtain e where "e \<in> set l" "pid e = p" by auto
  then obtain a b where l: "l = a @ e # b" "pid e = p" by (auto dest: split_list)
  with assms(2) have n: "p \<notin> pid ` set a" "p \<notin> pid ` set b" by auto
  then have "upto_pi p l = a" "from_pi p l = e # b"
    using l by (auto simp: takeWhile_append dropWhile_append takeWhile_eq_all_conv image_iff dest: sym)
  with that l n show ?thesis by blast
qed

text \<open>Addresses and positions of a list only depend on its keys.\<close>

lemma seen_by_keys: "seen_by q as = snd ` set (butlast (dropWhile (\<lambda>x. fst x \<noteq> q) (keys (invList as))))"
  by (simp add: seen_by_def dropWhile_map o_def map_butlast [symmetric] image_image)

lemma waiting_keys: "map pvma (butlast l) = map snd (butlast (keys l))"
  by (simp add: map_butlast o_def)

lemma pids_keys: "map pid l = map fst (keys l)"
  by simp

lemma run_pointer:
  assumes inv: "list_inv n as f" and c: "f c = Some p" and l: "invList as = a @ e # b" "pid e = p" "p \<notin> pid ` set b"
    and f': "f' = f(c := Some (pid (last (e # b))))"
  shows "\<exists>stay fin. ran_thru (at_pi f') (cores_in (at_pi f) a) (e # b) stay fin"
proof (cases b)
  case Nil
  then show ?thesis by (auto simp: ran_thru_def counts_ok_def)
next
  case (Cons b1 bs)
  let ?at = "at_pi f" and ?at' = "at_pi f'" and ?N = "cores_in (at_pi f) a"
  have fin: "finite (?at x)" "finite (?at' x)" for x
    using inv c finite_at [of f n] finite_at [of f' n] by (auto simp: list_inv_def f')
  have ps: "distinct (map pid (a @ e # b))" using inv l(1) by (simp add: list_inv_def)
  have ne: "p \<noteq> pid (last b)" using l(3) Cons last_in_set [of b] by auto
  have "?at p = insert c (?at' p)" "c \<notin> ?at' p" using c ne Cons by (auto simp: at_pi_def f')
  then have card: "card (?at p) = Suc (card (?at' p))" using fin by simp
  have "counts_ok ?at ?N (e # b)" using inv l(1) counts_ok_append [of "e # b" ?at 0 a] by (simp add: list_inv_def)
  then have e: "unat (pcount e) = ?N + card (?at p)" and b: "counts_ok ?at (?N + card (?at p)) b"
    using Cons l(2) by (simp_all add: counts_ok_def)
  have bne: "b \<noteq> []" using Cons by simp
  have "distinct (map pid b)" using ps by simp
  then have "distinct (map pid (butlast b @ [last b]))" unfolding append_butlast_last_id [OF bne] .
  then have "pid (last b) \<notin> pid ` set (butlast b)" by auto
  then have "?at' (pid x) = ?at (pid x)" if "x \<in> set (butlast b)" for x
    using that l(3) in_set_butlastD [OF that] Cons c by (auto simp: at_pi_def f')
  then have "counts_ok ?at' (Suc (?N + card (?at' p))) b"
    using b card pre_ok_cong [of "butlast b" ?at' ?at] by (simp add: counts_ok_def)
  from run_list_counts [OF this] obtain stay fin where
    r: "ran_thru ?at' (?N + card (?at' p)) (b1 # bs) stay fin"
    using fin(2) unfolding Cons by blast
  have "unat (pcount e) = Suc (?N + card (?at' p))" using e card by simp
  from run_list_step [of e "?N + card (?at' p)" ?N ?at' b1 bs stay fin, OF this _ fin(2) r]
  show ?thesis unfolding l(2) Cons by blast
qed

lemma run_space_ok:
  assumes inv: "list_inv n as f" and c: "f c = Some p"
  obtains as' gone where "run_space p as = Some (as', gone)" "list_inv n as' (f(c := Some (back_pi as')))"
    "activeCores as' = activeCores as" "back_pi as' = back_pi as"
    "gone \<subseteq> seen_by p as" "waiting (invList as') = waiting (invList as) - gone" "gone \<subseteq> waiting (invList as)"
    "\<And>c' q. c' \<noteq> c \<Longrightarrow> f c' = Some q \<Longrightarrow> seen_by q as' = seen_by q as"
proof -
  let ?l = "invList as"
  have ps: "distinct (map pid ?l)" "p \<in> pid ` set ?l" using inv c by (auto simp: list_inv_def intro: ranI)
  from split_at [OF ps(2,1)] obtain a e b where l: "?l = a @ e # b" "pid e = p" "upto_pi p ?l = a" "from_pi p ?l = e # b"
    "p \<notin> pid ` set a" "p \<notin> pid ` set b" .
  define z where "z = pid (last (e # b))"
  define f' where "f' = f(c := Some z)"
  obtain stay fin where r: "ran_thru (at_pi f') (cores_in (at_pi f) a) (e # b) stay fin"
    using run_pointer [OF inv c l(1,2,6) f'_def [unfolded z_def]] by blast
  then have run: "run_list (e # b) = Some (stay, fin)" and cnt: "counts_ok (at_pi f') (cores_in (at_pi f) a) stay"
    and last: "last stay = last (e # b)" and k: "keys (e # b) = keys fin @ keys stay"
    and fd: "\<And>x. x \<in> set fin \<Longrightarrow> cores_in (at_pi f) a = 0 \<and> at_pi f' (pid x) = {}" and ne: "stay \<noteq> []"
    by (auto simp: ran_thru_def counts_ok_def)
  have z_in: "z \<in> pid ` set (e # b)" unfolding z_def by (intro imageI last_in_set) simp
  have a_same: "at_pi f' (pid x) = at_pi f (pid x)" if "x \<in> set a" for x
  proof -
    have "pid x \<noteq> p" "pid x \<noteq> z" using that l(5) z_in ps(1) unfolding l(1) by (auto simp: image_iff)
    then show ?thesis using c by (auto simp: at_pi_def f'_def)
  qed
  define as' where "as' = as\<lparr>invList := a @ stay\<rparr>"
  have K: "keys ?l = keys a @ keys fin @ keys stay" using k l(1) by simp
  have run': "run_space p as = Some (as', pvma ` set fin)" using run l(3,4) by (simp add: run_space_def as'_def)
  have bk: "back_pi as' = z" "back_pi as = z" using ne last l(1) by (simp_all add: back_pi_def as'_def z_def)
  have fin': "finite (at_pi f x)" for x using inv finite_at [of f n] by (simp add: list_inv_def)
  show ?thesis
  proof (rule that [OF run'])
    have "counts_ok (at_pi f') 0 (a @ stay)"
      using inv cnt a_same l(1) pre_ok_cong [of a "at_pi f'" "at_pi f"] cores_in_cong [of a "at_pi f'" "at_pi f"]
      by (simp add: counts_ok_append [OF ne] counts_ok_append [of "e # b"] list_inv_def)
    moreover have "distinct (map pid (a @ stay))"
      using ps(1) unfolding pids_keys [of ?l] pids_keys [of "a @ stay"] K by auto
    moreover have "\<forall>x\<in>set (a @ stay). pid x < nextpid as"
    proof -
      have "pid ` set (a @ stay) \<subseteq> pid ` set ?l"
        unfolding image_set pids_keys [of ?l] pids_keys [of "a @ stay"] K by auto
      then show ?thesis using inv by (fastforce simp: list_inv_def)
    qed
    moreover have "distinct (map pvma (butlast (a @ stay)))"
      using inv ne unfolding list_inv_def waiting_keys K by (auto simp: butlast_append)
    moreover have "ran f' \<subseteq> pid ` set (a @ stay)"
    proof
      fix q assume "q \<in> ran f'"
      then obtain c' where c': "f' c' = Some q" by (auto simp: ran_def)
      show "q \<in> pid ` set (a @ stay)"
      proof (cases "c' = c")
        case True
        then have "q = pid (last stay)" using c' last by (simp add: f'_def z_def)
        with ne show ?thesis by simp
      next
        case False
        then have "q \<in> pid ` set ?l" using c' inv by (auto simp: f'_def list_inv_def ran_def)
        moreover have "q \<notin> pid ` set fin" using fd c' by (force simp: at_pi_def)
        ultimately show ?thesis
          unfolding image_set pids_keys [of ?l] pids_keys [of "a @ stay"] K by auto
      qed
    qed
    moreover have "dom f' = dom f" using c by (auto simp: f'_def)
    ultimately show "list_inv n as' (f(c := Some (back_pi as')))"
      using inv unfolding bk f'_def [symmetric] by (simp add: list_inv_def as'_def)
  next
    show "activeCores as' = activeCores as" "back_pi as' = back_pi as" using bk by (simp_all add: as'_def)
  next
    have w: "map pvma (butlast ?l) = map pvma a @ map pvma fin @ map pvma (butlast stay)"
      unfolding waiting_keys [of ?l] K using ne by (simp add: butlast_append waiting_keys o_def)
    have "map pvma (butlast (e # b)) = map pvma fin @ map pvma (butlast stay)"
      unfolding waiting_keys [of "e # b"] k using ne by (simp add: butlast_append waiting_keys o_def)
    then have "set (map pvma (butlast (e # b))) = pvma ` set fin \<union> waiting stay" by simp
    then show "pvma ` set fin \<subseteq> seen_by p as" using l(4) by (simp add: seen_by_def)
    have "set (map pvma (butlast ?l)) = pvma ` set a \<union> pvma ` set fin \<union> waiting stay" unfolding w by auto
    moreover have "distinct (map pvma a @ map pvma fin @ map pvma (butlast stay))" using inv w by (simp add: list_inv_def)
    ultimately show "waiting (invList as') = waiting ?l - pvma ` set fin" "pvma ` set fin \<subseteq> waiting ?l"
      using ne by (auto simp: as'_def butlast_append)
  next
    fix c' q assume q: "c' \<noteq> c" "f c' = Some q"
    show "seen_by q as' = seen_by q as"
    proof (cases "fin = []")
      case True
      then show ?thesis unfolding seen_by_keys K by (simp add: as'_def)
    next
      case False
      then obtain x where "x \<in> set fin" by (cases fin) auto
      then have "cores_in (at_pi f) a = 0" using fd by blast
      then have "\<forall>x\<in>set a. at_pi f (pid x) = {}" using fin' by simp
      then have "q \<notin> pid ` set a" using q by (force simp: at_pi_def)
      moreover have "c' \<in> at_pi f' q" using q by (simp add: at_pi_def f'_def)
      then have "q \<notin> pid ` set fin" using fd by blast
      ultimately have d: "dropWhile (\<lambda>x. fst x \<noteq> q) (keys a) = []" "dropWhile (\<lambda>x. fst x \<noteq> q) (keys fin) = []"
        by (auto simp: dropWhile_eq_Nil_conv)
      then show ?thesis unfolding seen_by_keys K
        by (auto simp: as'_def dropWhile_append dropWhile_eq_Nil_conv)
    qed
  qed
qed


text \<open>Every step keeps both invariants.\<close>

definition inv_ok :: "nat \<Rightarrow> invsys \<Rightarrow> bool" where
  "inv_ok n \<sigma> = (list_inv n (space \<sigma>) (ptr \<sigma>) \<and> view_inv \<sigma>)"

lemma start_ok: "inv_start \<sigma> \<Longrightarrow> inv_ok n \<sigma>"
  by (auto simp: inv_start_def inv_ok_def list_inv_def view_inv_def counts_ok_def length_Suc_conv)

lemma set_butlast_dropWhile: "set (butlast (dropWhile P l)) \<subseteq> set (butlast l)"
  by (induction l) auto

lemma seen_by_waiting: "seen_by q as \<subseteq> waiting (invList as)"
  unfolding seen_by_def by (intro image_mono set_butlast_dropWhile)

lemma post_list_inv:
  assumes "list_inv n as f" "v \<notin> waiting (invList as)" "activeCores as > 1" "n < 2 ^ 64"
  shows "list_inv n (post_inv N alloc pe v as) f"
    and "waiting (invList (post_inv N alloc pe v as)) = insert v (waiting (invList as))"
    and "f c = Some q \<Longrightarrow> seen_by q (post_inv N alloc pe v as) = insert v (seen_by q as)"
proof -
  obtain xs x where l: "invList as = xs @ [x]"
    using assms(1) by (cases "invList as" rule: rev_cases) (auto simp: list_inv_def counts_ok_def)
  define y where "y = x\<lparr>pentry := pe, pvma := v, psize := pagesize N, pcount := activeCores as, palloc := alloc\<rparr>"
  let ?as = "post_inv N alloc pe v as"
  have l': "invList ?as = xs @ [y, new_pi (nextpid as)]" "nextpid ?as = Suc (nextpid as)" "activeCores ?as = activeCores as"
    using l by (simp_all add: post_inv_def push_pi_def y_def)
  have y: "pid y = pid x" "pvma y = v" "pcount y = activeCores as" by (simp_all add: y_def)
  have fin: "finite (dom f)" using assms(1) finite_subset [of "dom f" "{..<n}"] by (simp add: list_inv_def)
  have r: "ran f \<subseteq> pid ` set (xs @ [x])" using assms(1) l by (simp add: list_inv_def)
  have "{c. \<exists>p \<in> pid ` set (xs @ [x]). f c = Some p} = dom f" using r by (auto simp: ran_def dom_def)
  then have "cores_in (at_pi f) (xs @ [x]) = card (dom f)"
    using cores_in_card [OF _ fin, of "xs @ [x]"] assms(1) l by (simp add: list_inv_def)
  moreover have "card (dom f) \<le> n" using assms(1) card_mono [of "{..<n}" "dom f"] by (simp add: list_inv_def)
  ultimately have cnt: "unat (activeCores as) = cores_in (at_pi f) xs + card (at_pi f (pid x))"
    using assms(1,4) by (simp add: list_inv_def unat_of_nat)
  have "activeCores as \<noteq> 0" using assms(3) by auto
  then show "list_inv n ?as f"
    using assms(1,2) cnt r unfolding list_inv_def l l'
    by (auto simp: counts_ok_def butlast_append pre_ok_append y new_pi_def)
  show "waiting (invList ?as) = insert v (waiting (invList as))"
    unfolding l l' by (simp add: butlast_append y)
  assume "f c = Some q"
  then have "q \<in> pid ` set (xs @ [x])" using r by (auto simp: ran_def)
  moreover have "distinct (map pid (xs @ [x]))" using assms(1) l by (simp add: list_inv_def)
  ultimately obtain a e b where s: "xs @ [x] = a @ e # b" "pid e = q" "q \<notin> pid ` set a"
    by (metis split_at)
  then have nq: "\<forall>x\<in>set a. pid x \<noteq> q" by (metis imageI)
  have da: "dropWhile (\<lambda>p. pid p \<noteq> q) (a @ e # w) = e # w" for w
    using s(2) nq by (auto simp: dropWhile_append)
  show "seen_by q ?as = insert v (seen_by q as)"
  proof (cases b rule: rev_cases)
    case Nil
    then have "xs = a" "x = e" using s(1) by auto
    moreover have "dropWhile (\<lambda>p. pid p \<noteq> q) (a @ [y, new_pi (nextpid as)]) = [y, new_pi (nextpid as)]"
      using s(2) nq y \<open>x = e\<close> by (auto simp: dropWhile_append)
    ultimately show ?thesis using da [of "[]"] unfolding seen_by_def l l' by (simp add: y)
  next
    case (snoc b' w)
    then have "xs = a @ e # b'" "x = w" using s(1) by auto
    then show ?thesis using da [of "b' @ [x]"] da [of "b' @ [y, new_pi (nextpid as)]"]
      unfolding seen_by_def l l' by (simp add: y butlast_append insert_commute)
  qed
qed

lemma counts_at_back:
  assumes "distinct (map pid l)" "l \<noteq> []" "f c \<in> {None, Some (pid (last l))}" "y \<in> {None, Some (pid (last l))}"
  shows "counts_ok (at_pi (f(c := y))) k l = counts_ok (at_pi f) k l"
proof -
  have "distinct (map pid (butlast l @ [last l]))" unfolding append_butlast_last_id [OF assms(2)] by (rule assms)
  then have "pid (last l) \<notin> pid ` set (butlast l)" by auto
  then have "at_pi (f(c := y)) (pid x) = at_pi f (pid x)" if "x \<in> set (butlast l)" for x
    using that assms(3,4) by (auto simp: at_pi_def)
  from pre_ok_cong [of "butlast l" "at_pi (f(c := y))" "at_pi f", OF this] show ?thesis by (simp add: counts_ok_def)
qed

lemma leave_list_inv:
  assumes "list_inv n as f" "f c = Some (back_pi as)"
  shows "list_inv n (as\<lparr>activeCores := activeCores as - 1\<rparr>) (f(c := None))"
proof -
  have "finite (dom f)" "c \<in> dom f" using assms finite_subset [of "dom f" "{..<n}"] by (auto simp: list_inv_def)
  then have "card (dom f) = Suc (card (dom f - {c}))" by (metis card.remove)
  moreover have "counts_ok (at_pi (f(c := None))) 0 (invList as)"
    using assms counts_at_back [of "invList as" f c None 0] by (auto simp: list_inv_def back_pi_def counts_ok_def)
  ultimately show ?thesis using assms(1) by (auto simp: list_inv_def ran_def)
qed

lemma join_list_inv:
  assumes "list_inv n as f" "f c = None" "c < n"
  shows "list_inv n (as\<lparr>activeCores := activeCores as + 1\<rparr>) (f(c := Some (back_pi as)))"
proof -
  have "finite (dom f)" "c \<notin> dom f" using assms finite_subset [of "dom f" "{..<n}"] by (auto simp: list_inv_def)
  then have "card (insert c (dom f)) = Suc (card (dom f))" by simp
  moreover have "counts_ok (at_pi (f(c := Some (back_pi as)))) 0 (invList as)"
    using assms counts_at_back [of "invList as" f c "Some (back_pi as)" 0] by (auto simp: list_inv_def back_pi_def counts_ok_def)
  moreover have "back_pi as \<in> pid ` set (invList as)" using assms(1) by (simp add: list_inv_def back_pi_def counts_ok_def)
  ultimately show ?thesis using assms(1,3) by (auto simp: list_inv_def ran_def)
qed

lemma single_core:
  assumes "list_inv n as f" "\<not> activeCores as > 1" "f c = Some p" "n < 2 ^ 64"
  shows "c' \<noteq> c \<Longrightarrow> f c' = None"
proof -
  have d: "dom f \<subseteq> {..<n}" using assms(1) by (simp add: list_inv_def)
  then have card: "card (dom f) \<le> n" "finite (dom f)" using card_mono [of "{..<n}" "dom f"] finite_subset [OF d] by simp_all
  then have "unat (activeCores as) = card (dom f)" using assms(1,4) by (simp add: list_inv_def unat_of_nat)
  with assms(2) have "card (dom f) \<le> Suc 0" by (simp add: word_less_nat_alt)
  then have "\<forall>x\<in>dom f. \<forall>y\<in>dom f. x = y" using card_le_Suc0_iff_eq [OF card(2)] by blast
  moreover assume "c' \<noteq> c"
  ultimately show ?thesis using assms(3) by blast
qed

lemma post_view:
  assumes "inv_ok n \<sigma>" "v \<in> mapped \<sigma>" "activeCores (space \<sigma>) > 1" "n < 2 ^ 64"
  shows "inv_ok n (\<sigma>\<lparr>space := post_inv N alloc pe v (space \<sigma>), mapped := mapped \<sigma> - {v}\<rparr>)"
proof -
  have inv: "list_inv n (space \<sigma>) (ptr \<sigma>)" "v \<notin> waiting (invList (space \<sigma>))"
    using assms(1,2) by (auto simp: inv_ok_def view_inv_def)
  note P = post_list_inv [OF inv assms(3,4), where N = N and alloc = alloc and pe = pe]
  have "\<exists>q. ptr \<sigma> c = Some q \<and> (w \<in> mapped \<sigma> \<and> w \<noteq> v \<or> w \<in> seen_by q (post_inv N alloc pe v (space \<sigma>)))"
    if w: "w \<in> cache \<sigma> c" for w c
  proof -
    from assms(1) w obtain q where q: "ptr \<sigma> c = Some q" "w \<in> mapped \<sigma> \<or> w \<in> seen_by q (space \<sigma>)"
      unfolding inv_ok_def by (blast elim: view_cached)
    with P(3) [OF q(1)] show ?thesis by auto
  qed
  with P(2) assms(2) view_invD(1-3) [of \<sigma>] assms(1) have "view_inv (\<sigma>\<lparr>space := post_inv N alloc pe v (space \<sigma>), mapped := mapped \<sigma> - {v}\<rparr>)"
    by (intro view_invI) (simp_all add: inv_ok_def, blast+)
  with P(1) show ?thesis by (simp add: inv_ok_def)
qed

lemma run_view:
  assumes "inv_ok n \<sigma>" "ptr \<sigma> c = Some p" "run_space p (space \<sigma>) = Some (as, gone)"
  shows "list_inv n as ((ptr \<sigma>)(c := Some (back_pi as)))"
    and "view_inv (\<sigma>\<lparr>space := as, ptr := (ptr \<sigma>)(c := Some (back_pi as)),
      cache := (cache \<sigma>)(c := cache \<sigma> c - seen_by p (space \<sigma>)), cleared := cleared \<sigma> \<union> gone\<rparr>)"
proof -
  have inv: "list_inv n (space \<sigma>) (ptr \<sigma>)" using assms(1) by (simp add: inv_ok_def)
  from run_space_ok [OF inv assms(2)] assms(3) have R: "list_inv n as ((ptr \<sigma>)(c := Some (back_pi as)))"
    "waiting (invList as) = waiting (invList (space \<sigma>)) - gone" "gone \<subseteq> waiting (invList (space \<sigma>))"
    "\<And>c' q. c' \<noteq> c \<Longrightarrow> ptr \<sigma> c' = Some q \<Longrightarrow> seen_by q as = seen_by q (space \<sigma>)"
    by (metis option.inject prod.inject)+
  show "list_inv n as ((ptr \<sigma>)(c := Some (back_pi as)))" by (rule R)
  have V: "mapped \<sigma> \<inter> waiting (invList (space \<sigma>)) = {}" "mapped \<sigma> \<inter> cleared \<sigma> = {}"
    "cleared \<sigma> \<inter> waiting (invList (space \<sigma>)) = {}"
    using assms(1) view_invD(1-3) [of \<sigma>] by (simp_all add: inv_ok_def)
  have v: "view_inv \<sigma>" using assms(1) by (simp add: inv_ok_def)
  have C: "\<exists>q. ((ptr \<sigma>)(c := Some (back_pi as))) d = Some q \<and> (w \<in> mapped \<sigma> \<or> w \<in> seen_by q as)"
    if "w \<in> ((cache \<sigma>)(c := cache \<sigma> c - seen_by p (space \<sigma>))) d" for d w
  proof (cases "d = c")
    case True
    with that view_cache [OF v assms(2)] show ?thesis by auto
  next
    case False
    then have "w \<in> cache \<sigma> d" using that by simp
    with v obtain q where "ptr \<sigma> d = Some q" "w \<in> mapped \<sigma> \<or> w \<in> seen_by q (space \<sigma>)" by (rule view_cached)
    with False R(4) [OF False] show ?thesis by auto
  qed
  show "view_inv (\<sigma>\<lparr>space := as, ptr := (ptr \<sigma>)(c := Some (back_pi as)),
      cache := (cache \<sigma>)(c := cache \<sigma> c - seen_by p (space \<sigma>)), cleared := cleared \<sigma> \<union> gone\<rparr>)"
    (is "view_inv ?\<sigma>")
  proof (rule view_invI)
    show "mapped ?\<sigma> \<inter> waiting (invList (space ?\<sigma>)) = {}" using V(1) R(2) by auto
    show "mapped ?\<sigma> \<inter> cleared ?\<sigma> = {}" using V(1,2) R(3) by auto
    show "cleared ?\<sigma> \<inter> waiting (invList (space ?\<sigma>)) = {}" using V(3) R(2) by auto
  qed (use C in simp)
qed

lemma seen_by_active: "seen_by p (as\<lparr>activeCores := k\<rparr>) = seen_by p as"
  by (simp add: seen_by_def)

lemma inv_step_ok:
  assumes "inv_step n \<sigma> \<sigma>'" "inv_ok n \<sigma>" "n < 2 ^ 64"
  shows "inv_ok n \<sigma>'"
  using assms(1)
proof cases
  have L: "list_inv n (space \<sigma>) (ptr \<sigma>)" and V: "view_inv \<sigma>" using assms(2) by (simp_all add: inv_ok_def)
  note D = view_invD [OF V]
  {
    case (i_map v)
    have "view_inv \<sigma>'" unfolding i_map(1)
    proof (rule view_invI)
      fix c w assume "w \<in> cache (\<sigma>\<lparr>mapped := insert v (mapped \<sigma>), cleared := cleared \<sigma> - {v}\<rparr>) c"
      then show "\<exists>p. ptr (\<sigma>\<lparr>mapped := insert v (mapped \<sigma>), cleared := cleared \<sigma> - {v}\<rparr>) c = Some p \<and>
          (w \<in> mapped (\<sigma>\<lparr>mapped := insert v (mapped \<sigma>), cleared := cleared \<sigma> - {v}\<rparr>) \<or>
           w \<in> seen_by p (space (\<sigma>\<lparr>mapped := insert v (mapped \<sigma>), cleared := cleared \<sigma> - {v}\<rparr>)))"
        using D(4) [of w c] by auto
    qed (use D(1-3) i_map(3) in auto)
    with i_map L show ?thesis by (simp add: inv_ok_def)
  next
    case (i_load c p v)
    have "view_inv \<sigma>'" unfolding i_load(1)
      by (rule view_invI) (use D(1-3) i_load(2,3) in \<open>auto dest: D(4) split: if_splits\<close>)
    with i_load L show ?thesis by (simp add: inv_ok_def)
  next
    case (i_post c p v N alloc pe)
    then show ?thesis using post_view assms(2,3) by simp
  next
    case (i_direct c p v)
    have one: "c' \<noteq> c \<Longrightarrow> ptr \<sigma> c' = None" for c' using single_core [OF L i_direct(4,2) assms(3)] .
    have "cache \<sigma> c' = {}" if "c' \<noteq> c" for c' using one [OF that] D(4) [of _ c'] by auto
    moreover have "v \<notin> waiting (invList (space \<sigma>))" using D(1) i_direct(3) by blast
    ultimately have "view_inv \<sigma>'" unfolding i_direct(1)
      by (intro view_invI) (use D(1-3) i_direct(2,3) in \<open>auto dest: D(4) split: if_splits\<close>)
    with i_direct L show ?thesis by (simp add: inv_ok_def)
  next
    case (i_run c p as gone)
    then show ?thesis using run_view [OF assms(2) i_run(2,3)] by (simp add: inv_ok_def)
  next
    case (i_leave c p as gone)
    note R = run_view [OF assms(2) i_leave(2,3)]
    note W = view_invD [OF R(2)]
    have "view_inv \<sigma>'"
    proof (rule view_invI)
      fix d w assume "w \<in> cache \<sigma>' d"
      then show "\<exists>p. ptr \<sigma>' d = Some p \<and> (w \<in> mapped \<sigma>' \<or> w \<in> seen_by p (space \<sigma>'))"
        using W(4) [of w d] unfolding i_leave(1) by (auto simp: seen_by_active split: if_splits)
    qed (use W(1-3) i_leave(1) in simp_all)
    with leave_list_inv [OF R(1), of c] show ?thesis unfolding i_leave(1) by (simp add: inv_ok_def)
  next
    case (i_join c)
    have "view_inv \<sigma>'" unfolding i_join(1)
      by (rule view_invI) (use D(1-3) in \<open>auto simp: seen_by_active dest: D(4) split: if_splits\<close>)
    with join_list_inv [OF L i_join(2,3)] show ?thesis unfolding i_join(1) by (simp add: inv_ok_def)
  }
qed

lemma inv_reachable:
  "(inv_step n)\<^sup>*\<^sup>* \<sigma> \<sigma>' \<Longrightarrow> inv_ok n \<sigma> \<Longrightarrow> n < 2 ^ 64 \<Longrightarrow> inv_ok n \<sigma>'"
  by (induction rule: rtranclp_induct) (auto intro: inv_step_ok)

section \<open>Properties\<close>


lemma all_at_back:
  assumes "list_inv n as f" "ran f \<subseteq> {back_pi as}"
  shows "waiting (invList as) = {}"
proof (cases "butlast (invList as)")
  case (Cons e r)
  have "e \<in> set (butlast (invList as))" using Cons by simp
  moreover have ne: "invList as \<noteq> []" using Cons by auto
  have "distinct (map pid (butlast (invList as) @ [last (invList as)]))"
    unfolding append_butlast_last_id [OF ne] using assms(1) by (simp add: list_inv_def)
  ultimately have "pid e \<noteq> back_pi as" by (auto simp: back_pi_def) (metis imageI)
  then have "at_pi f (pid e) = {}" using assms(2) by (auto simp: at_pi_def ran_def)
  moreover have "unat (pcount e) = card (at_pi f (pid e))" "pcount e \<noteq> 0"
    using assms(1) Cons by (simp_all add: list_inv_def counts_ok_def)
  ultimately show ?thesis by (simp add: unat_eq_zero)
qed simp

lemma drain:
  assumes "inv_ok n \<sigma>" "n < 2 ^ 64" "k = card {c. \<exists>p. ptr \<sigma> c = Some p \<and> p \<noteq> back_pi (space \<sigma>)}"
  shows "\<exists>\<sigma>'. (inv_step n)\<^sup>*\<^sup>* \<sigma> \<sigma>' \<and> dom (ptr \<sigma>') = dom (ptr \<sigma>) \<and> waiting (invList (space \<sigma>')) = {} \<and>
    waiting (invList (space \<sigma>)) \<union> cleared \<sigma> \<subseteq> cleared \<sigma>'"
  using assms(1,3)
proof (induction k arbitrary: \<sigma>)
  case 0
  let ?A = "{c. \<exists>p. ptr \<sigma> c = Some p \<and> p \<noteq> back_pi (space \<sigma>)}"
  have "finite (dom (ptr \<sigma>))" using 0(1) finite_subset [of "dom (ptr \<sigma>)" "{..<n}"] by (simp add: inv_ok_def list_inv_def)
  then have "finite ?A" by (rule rev_finite_subset) auto
  then have "ran (ptr \<sigma>) \<subseteq> {back_pi (space \<sigma>)}" using 0(2) by (auto simp: ran_def)
  then have "waiting (invList (space \<sigma>)) = {}"
    using all_at_back [of n "space \<sigma>" "ptr \<sigma>"] 0(1) by (simp add: inv_ok_def)
  then show ?case by (intro exI [of _ \<sigma>]) simp
next
  case (Suc k)
  let ?A = "\<lambda>\<sigma>. {c. \<exists>p. ptr \<sigma> c = Some p \<and> p \<noteq> back_pi (space \<sigma>)}"
  have inv: "list_inv n (space \<sigma>) (ptr \<sigma>)" using Suc.prems(1) by (simp add: inv_ok_def)
  have "card (?A \<sigma>) \<noteq> 0" using Suc.prems(2) by linarith
  then have "?A \<sigma> \<noteq> {}" by (intro notI) (simp only: card.empty)
  then obtain c where "c \<in> ?A \<sigma>" by blast
  then obtain p where c: "ptr \<sigma> c = Some p" "p \<noteq> back_pi (space \<sigma>)" by blast
  obtain as gone where R: "run_space p (space \<sigma>) = Some (as, gone)"
    "back_pi as = back_pi (space \<sigma>)" "waiting (invList as) = waiting (invList (space \<sigma>)) - gone"
    by (rule run_space_ok [OF inv c(1)])
  define \<tau> where "\<tau> = \<sigma>\<lparr>space := as, ptr := (ptr \<sigma>)(c := Some (back_pi as)),
      cache := (cache \<sigma>)(c := cache \<sigma> c - seen_by p (space \<sigma>)), cleared := cleared \<sigma> \<union> gone\<rparr>"
  have st: "inv_step n \<sigma> \<tau>" unfolding \<tau>_def by (rule i_run [OF c(1) R(1)])
  have "?A \<tau> = ?A \<sigma> - {c}" using R(2) by (auto simp: \<tau>_def)
  then have "k = card (?A \<tau>)" using Suc.prems(2) \<open>c \<in> ?A \<sigma>\<close> by simp
  from Suc.IH [OF inv_step_ok [OF st Suc.prems(1) assms(2)] this] obtain \<sigma>' where
    F: "(inv_step n)\<^sup>*\<^sup>* \<tau> \<sigma>'" "dom (ptr \<sigma>') = dom (ptr \<tau>)" "waiting (invList (space \<sigma>')) = {}"
      "waiting (invList (space \<tau>)) \<union> cleared \<tau> \<subseteq> cleared \<sigma>'" by (elim exE conjE)
  have "(inv_step n)\<^sup>*\<^sup>* \<sigma> \<sigma>'" by (rule converse_rtranclp_into_rtranclp [where r = "inv_step n", OF st F(1)])
  moreover have "dom (ptr \<tau>) = dom (ptr \<sigma>)" using c(1) by (auto simp: \<tau>_def)
  moreover have "waiting (invList (space \<sigma>)) \<union> cleared \<sigma> \<subseteq> waiting (invList (space \<tau>)) \<union> cleared \<tau>"
    using R(3) by (auto simp: \<tau>_def)
  then have "waiting (invList (space \<sigma>)) \<union> cleared \<sigma> \<subseteq> cleared \<sigma>'" using F(4) by (rule subset_trans)
  ultimately show ?case using F(2,3) by (intro exI [of _ \<sigma>'] conjI) (simp_all only:)
qed


text \<open>Two cores share a page; one unmaps it, and each of them runs.\<close>

definition ex_sys :: invsys where
  "ex_sys = \<lparr>space = push_pi (AS_init True), ptr = (\<lambda>_. None), cache = (\<lambda>_. {}), mapped = {0x1000}, cleared = {}\<rparr>"

lemma ex_sys_start: "inv_start ex_sys"
  by (simp add: inv_start_def ex_sys_def push_pi_def AS_init_def new_pi_def)

lemma ex_sys_post:
  "\<exists>\<sigma>'. (inv_step 2)\<^sup>*\<^sup>* ex_sys \<sigma>' \<and> ptr \<sigma>' 1 = Some 0 \<and> 0x1000 \<in> cache \<sigma>' 1 \<and> waiting (invList (space \<sigma>')) = {0x1000}"
proof -
  let ?j = "\<lambda>\<sigma> c. \<sigma>\<lparr>space := (space \<sigma>)\<lparr>activeCores := activeCores (space \<sigma>) + 1\<rparr>,
      ptr := (ptr \<sigma>)(c := Some (back_pi (space \<sigma>))), cache := (cache \<sigma>)(c := {})\<rparr>"
  define s1 where "s1 = ?j ex_sys 0"
  define s2 where "s2 = ?j s1 1"
  define s3 where "s3 = s2\<lparr>cache := (cache s2)(1 := insert 0x1000 (cache s2 1))\<rparr>"
  define s4 where "s4 = s3\<lparr>space := post_inv 1 True 0 0x1000 (space s3), mapped := mapped s3 - {0x1000}\<rparr>"
  note d = s1_def s2_def s3_def s4_def ex_sys_def push_pi_def AS_init_def new_pi_def back_pi_def post_inv_def
  have "inv_step 2 ex_sys s1" unfolding s1_def by (rule i_join) (simp_all add: ex_sys_def)
  moreover have "inv_step 2 s1 s2" unfolding s2_def by (rule i_join) (simp_all add: d)
  moreover have "inv_step 2 s2 s3" unfolding s3_def by (rule i_load [where p = 0]) (simp_all add: d)
  moreover have "inv_step 2 s3 s4" unfolding s4_def by (rule i_post [where c = 0 and p = 0]) (simp_all add: d)
  ultimately have "(inv_step 2)\<^sup>*\<^sup>* ex_sys s4" by (meson converse_rtranclp_into_rtranclp rtranclp.rtrancl_refl)
  moreover have "ptr s4 1 = Some 0" "0x1000 \<in> cache s4 1" "waiting (invList (space s4)) = {0x1000}" by (simp_all add: d)
  ultimately show ?thesis by blast
qed



end
