(* ===== verification/Scheduling.thy ===== *)
theory Scheduling
  imports Locks "HOL-Library.Multiset"
begin

text \<open>
  Threads and schedulers: \<open>runtime/Thread.h\<close>, \<open>runtime/Thread.cc\<close>, \<open>runtime/Scheduler.cc\<close> and
  the thread part of \<open>runtime/RuntimeImpl.h\<close>.

  A thread is named by a number, a scheduler by the number of its processor.  \<open>threads\<close> holds
  the thread objects that exist, \<open>curr\<close> the current thread of each processor.  The ready
  queues are the lists that \<open>EmbeddedContainers\<close> shows the embedded lists to implement; the
  lock count and interrupt flag of each processor are those of \<open>Locks\<close>, so that the checks
  \<open>CHECK_LOCK_MIN\<close> and \<open>CHECK_LOCK_COUNT\<close> are part of the model.  One call of an operation
  is one step: the queues are only changed under \<open>readyLock\<close>, and the processor that switches
  has interrupts disabled.  The assembly routine \<open>stackSwitch\<close> continues the next thread where
  it called \<open>stackSwitch\<close> itself, or in \<open>invokeThread\<close> when it has not run yet (\<open>fresh\<close>).
\<close>

section \<open>Data\<close>

definition topPriority :: nat where "topPriority = 0"
definition defPriority :: nat where "defPriority = 1"
definition idlePriority :: nat where "idlePriority = 2"
definition maxPriority :: nat where "maxPriority = 3"

lemmas prio_defs = topPriority_def defPriority_def idlePriority_def maxPriority_def

datatype State = Running | Blocked | Cancelled | Finishing

text \<open>
  What a blocked thread waits for: a timeout, a place in a blocking queue (with the lock
  that guards it), or both.
\<close>

datatype UnblockInfo = TimeoutInfo | BlockingInfo nat nat | TimeoutBlockingInfo nat nat

record thread =
  priority :: nat
  affinity :: bool
  affinityMask :: mword
  nextScheduler :: "nat option"
  tstate :: State
  unblockInfo :: "UnblockInfo option"
  timedOut :: bool
  fresh :: bool
  stackBottom :: vaddr
  stackSize :: mword

record sched =
  readyCount :: mword
  readyQueue :: "nat list list"
  preemption :: mword
  resumption :: mword
  partner :: nat

record rt =
  nproc :: nat
  cpus :: "nat \<Rightarrow> cpu"
  curr :: "nat \<Rightarrow> nat"
  threads :: "nat \<Rightarrow> thread option"
  scheds :: "nat \<Rightarrow> sched"
  waitq :: "nat \<Rightarrow> nat list"
  timeouts :: "(mword \<times> nat) list"
  locks :: "nat \<Rightarrow> bool"
  ipis :: "nat list"

definition set_th :: "nat \<Rightarrow> thread \<Rightarrow> rt \<Rightarrow> rt" where
  "set_th t x \<sigma> = \<sigma>\<lparr>threads := (threads \<sigma>)(t \<mapsto> x)\<rparr>"

definition set_sched :: "nat \<Rightarrow> sched \<Rightarrow> rt \<Rightarrow> rt" where
  "set_sched s x \<sigma> = \<sigma>\<lparr>scheds := (scheds \<sigma>)(s := x)\<rparr>"

definition set_cpu :: "nat \<Rightarrow> cpu \<Rightarrow> rt \<Rightarrow> rt" where
  "set_cpu p x \<sigma> = \<sigma>\<lparr>cpus := (cpus \<sigma>)(p := x)\<rparr>"

lemmas set_defs = set_th_def set_sched_def set_cpu_def

definition th_new :: "vaddr \<Rightarrow> mword \<Rightarrow> thread" where
  "th_new sb ss = \<lparr>priority = defPriority, affinity = False, affinityMask = 0, nextScheduler = None,
     tstate = Running, unblockInfo = None, timedOut = False, fresh = True, stackBottom = sb, stackSize = ss\<rparr>"

definition setPriority :: "nat \<Rightarrow> thread \<Rightarrow> thread" where
  "setPriority p th = th\<lparr>priority := p\<rparr>"

definition setAffinity :: "nat option \<Rightarrow> thread \<Rightarrow> thread" where
  "setAffinity s th = th\<lparr>nextScheduler := s, affinity := (s \<noteq> None)\<rparr>"

definition getAffinity :: "thread \<Rightarrow> nat option" where
  "getAffinity th = (if affinity th then nextScheduler th else None)"

definition setAffinityMask :: "mword \<Rightarrow> thread \<Rightarrow> thread" where
  "setAffinityMask m th = th\<lparr>affinityMask := m\<rparr>"

section \<open>Locks of the runtime\<close>

text \<open>
  \<open>BasicLock\<close> is \<open>SpinLock\<close>.  A lock that is held when a step wants it is never released
  within the step: the processor spins forever.
\<close>

definition rt_acquire :: "nat \<Rightarrow> nat \<Rightarrow> rt \<Rightarrow> rt option" where
  "rt_acquire p l \<sigma> = do {
     c \<leftarrow> lp_lock False (cpus \<sigma> p);
     kassert (\<not> locks \<sigma> l);
     Some ((set_cpu p c \<sigma>)\<lparr>locks := (locks \<sigma>)(l := True)\<rparr>) }"

definition rt_release :: "nat \<Rightarrow> nat \<Rightarrow> rt \<Rightarrow> rt option" where
  "rt_release p l \<sigma> = do {
     kassert (locks \<sigma> l);
     c \<leftarrow> lp_unlock False (cpus \<sigma> p);
     Some ((set_cpu p c \<sigma>)\<lparr>locks := (locks \<sigma>)(l := False)\<rparr>) }"

fun rt_unlock :: "nat \<Rightarrow> nat list \<Rightarrow> rt \<Rightarrow> rt option" where
  "rt_unlock p [] \<sigma> = Some \<sigma>"
| "rt_unlock p (l # ls) \<sigma> = do { \<sigma>1 \<leftarrow> rt_release p l \<sigma>; rt_unlock p ls \<sigma>1 }"

definition CHECK_LOCK_MIN :: "nat \<Rightarrow> nat \<Rightarrow> rt \<Rightarrow> unit option" where
  "CHECK_LOCK_MIN p x \<sigma> = do { n \<leftarrow> lp_checkLock (cpus \<sigma> p); kassert (n > of_nat x) }"

definition CHECK_LOCK_COUNT :: "nat \<Rightarrow> nat \<Rightarrow> rt \<Rightarrow> unit option" where
  "CHECK_LOCK_COUNT p x \<sigma> = do { n \<leftarrow> lp_checkLock (cpus \<sigma> p); kassert (n = of_nat x) }"

definition lock_cpu :: "nat \<Rightarrow> rt \<Rightarrow> rt option" where
  "lock_cpu p \<sigma> = do { c \<leftarrow> lp_lock True (cpus \<sigma> p); Some (set_cpu p c \<sigma>) }"

definition fake_cpu :: "nat \<Rightarrow> rt \<Rightarrow> rt option" where
  "fake_cpu p \<sigma> = do { c \<leftarrow> lp_lockFake (cpus \<sigma> p); Some (set_cpu p c \<sigma>) }"

definition unlock_cpu :: "nat \<Rightarrow> rt \<Rightarrow> rt option" where
  "unlock_cpu p \<sigma> = do { c \<leftarrow> lp_unlock True (cpus \<sigma> p); Some (set_cpu p c \<sigma>) }"

section \<open>\<open>Scheduler\<close>\<close>

definition enqueue :: "nat \<Rightarrow> nat \<Rightarrow> rt \<Rightarrow> rt option" where
  "enqueue s t \<sigma> = do {
     th \<leftarrow> threads \<sigma> t;
     kassert (priority th < maxPriority);
     let sc = scheds \<sigma> s;
         q = readyQueue sc;
         wake = (readyCount sc = 0);
         sc' = sc\<lparr>readyQueue := q[priority th := q ! priority th @ [t]], readyCount := readyCount sc + 1\<rparr>;
         \<sigma>' = set_sched s sc' \<sigma>
     in Some (if wake then \<sigma>'\<lparr>ipis := ipis \<sigma>' @ [s]\<rparr> else \<sigma>') }"

definition rt_resume :: "nat \<Rightarrow> nat \<Rightarrow> rt \<Rightarrow> rt option" where
  "rt_resume p t \<sigma> = do {
     kassert (t \<noteq> curr \<sigma> p);
     th \<leftarrow> threads \<sigma> t;
     (case nextScheduler th of Some s \<Rightarrow> enqueue s t \<sigma> | None \<Rightarrow> enqueue p t \<sigma>) }"

text \<open>The search of the ready queues from the highest priority.\<close>

fun find_ready :: "nat \<Rightarrow> nat list list \<Rightarrow> (nat \<times> nat list list) option" where
  "find_ready 0 qs = None"
| "find_ready (Suc k) [] = None"
| "find_ready (Suc k) ([] # qs) = map_option (\<lambda>(n, qs'). (n, [] # qs')) (find_ready k qs)"
| "find_ready (Suc k) ((n # q) # qs) = Some (n, q # qs)"

definition postSwitch :: "nat \<Rightarrow> nat \<Rightarrow> nat option \<Rightarrow> rt \<Rightarrow> rt option" where
  "postSwitch p prev target \<sigma> = do {
     CHECK_LOCK_COUNT p 1 \<sigma>;
     (if target \<noteq> None then rt_resume p prev \<sigma> else Some \<sigma>) }"

text \<open>
  The part of \<open>postResume\<close> that concerns threads: a finishing thread is destroyed; its
  object is gone.
\<close>

definition th_destroy :: "nat \<Rightarrow> rt \<Rightarrow> rt option" where
  "th_destroy t \<sigma> = do {
     th \<leftarrow> threads \<sigma> t;
     kassert (tstate th = Finishing);
     Some (\<sigma>\<lparr>threads := (threads \<sigma>)(t := None)\<rparr>) }"

definition postResume :: "nat \<Rightarrow> nat \<Rightarrow> rt \<Rightarrow> rt option" where
  "postResume p prev \<sigma> = do {
     CHECK_LOCK_COUNT p 1 \<sigma>;
     th \<leftarrow> threads \<sigma> prev;
     (if tstate th = Finishing then th_destroy prev \<sigma> else Some \<sigma>) }"

text \<open>
  One pass through \<open>switchThread\<close>, from the choice of the next thread to the end of
  \<open>postResume\<close> on its stack.  The flag says that the thread switched to was cancelled and
  calls \<open>switchThread\<close> again to finish.
\<close>

definition switch_to :: "nat \<Rightarrow> nat option \<Rightarrow> nat list \<Rightarrow> nat \<Rightarrow> nat list list \<Rightarrow> rt \<Rightarrow> (rt \<times> bool) option" where
  "switch_to p target ls n qs \<sigma> = do {
     let sc = scheds \<sigma> p;
     let \<sigma>1 = set_sched p (sc\<lparr>readyQueue := qs, readyCount := readyCount sc - 1, resumption := resumption sc + 1\<rparr>) \<sigma>;
     let c = curr \<sigma> p;
     kassert (n \<noteq> c);
     th \<leftarrow> threads \<sigma>1 c;
     let \<sigma>2 = set_th c (th\<lparr>nextScheduler := Some (case target of Some s \<Rightarrow> s | None \<Rightarrow> p)\<rparr>) \<sigma>1;
     \<sigma>3 \<leftarrow> rt_unlock p ls \<sigma>2;
     CHECK_LOCK_COUNT p 1 \<sigma>3;
     let \<sigma>4 = \<sigma>3\<lparr>curr := (curr \<sigma>3)(p := n)\<rparr>;
     \<sigma>5 \<leftarrow> postSwitch p c target \<sigma>4;
     \<sigma>6 \<leftarrow> postResume p c \<sigma>5;
     nt \<leftarrow> threads \<sigma>6 n;
     (if fresh nt then Some (set_th n (nt\<lparr>fresh := False\<rparr>) \<sigma>6, False)
      else if tstate nt = Cancelled then Some (set_th n (nt\<lparr>tstate := Finishing\<rparr>) \<sigma>6, True)
      else Some (\<sigma>6, False)) }"

definition switch_pass :: "nat \<Rightarrow> nat option \<Rightarrow> nat list \<Rightarrow> rt \<Rightarrow> (rt \<times> bool) option" where
  "switch_pass p target ls \<sigma> = do {
     let \<sigma>1 = set_sched p ((scheds \<sigma> p)\<lparr>preemption := preemption (scheds \<sigma> p) + 1\<rparr>) \<sigma>;
     CHECK_LOCK_MIN p (length ls) \<sigma>1;
     (case find_ready (if target = Some p then idlePriority else maxPriority) (readyQueue (scheds \<sigma>1 p)) of
        Some (n, qs) \<Rightarrow> switch_to p target ls n qs \<sigma>1
      | None \<Rightarrow> do { kassert (target \<noteq> None); kassert (ls = []); Some (\<sigma>1, False) }) }"

definition ready_size :: "nat \<Rightarrow> rt \<Rightarrow> nat" where
  "ready_size s \<sigma> = length (concat (readyQueue (scheds \<sigma> s)))"

text \<open>
  A cancelled thread finishes with \<open>switchThread(nullptr)\<close>, which takes a thread out of the
  ready queues and puts none in: the recursion ends.
\<close>

lemma find_ready_size: "find_ready k qs = Some (n, qs') \<Longrightarrow> length (concat qs) = Suc (length (concat qs'))"
  by (induction k qs arbitrary: qs' rule: find_ready.induct) auto

lemma rt_unlock_keeps: "rt_unlock p ls \<sigma> = Some \<sigma>' \<Longrightarrow>
    scheds \<sigma>' = scheds \<sigma> \<and> threads \<sigma>' = threads \<sigma> \<and> curr \<sigma>' = curr \<sigma> \<and> nproc \<sigma>' = nproc \<sigma> \<and>
    waitq \<sigma>' = waitq \<sigma> \<and> timeouts \<sigma>' = timeouts \<sigma> \<and> ipis \<sigma>' = ipis \<sigma>"
  by (induction ls arbitrary: \<sigma>) (fastforce simp: rt_release_def set_cpu_def bind_eq_Some_conv)+

lemma postResume_keeps: "postResume p c \<sigma> = Some \<sigma>' \<Longrightarrow>
    scheds \<sigma>' = scheds \<sigma> \<and> curr \<sigma>' = curr \<sigma> \<and> nproc \<sigma>' = nproc \<sigma> \<and> cpus \<sigma>' = cpus \<sigma> \<and> locks \<sigma>' = locks \<sigma> \<and>
    waitq \<sigma>' = waitq \<sigma> \<and> timeouts \<sigma>' = timeouts \<sigma> \<and> ipis \<sigma>' = ipis \<sigma>"
  by (auto simp: postResume_def th_destroy_def bind_eq_Some_conv split: if_splits)

lemma switch_pass_smaller:
  assumes "switch_pass p None ls \<sigma> = Some (\<sigma>', True)"
  shows "ready_size p \<sigma>' < ready_size p \<sigma>"
proof -
  obtain n qs \<sigma>1 where f: "find_ready maxPriority (readyQueue (scheds \<sigma> p)) = Some (n, qs)"
    and s: "switch_to p None ls n qs \<sigma>1 = Some (\<sigma>', True)"
    using assms by (auto simp: switch_pass_def Let_def set_sched_def bind_eq_Some_conv split: option.splits)
  from s have "readyQueue (scheds \<sigma>' p) = qs"
    by (auto simp: switch_to_def Let_def set_defs postSwitch_def bind_eq_Some_conv
        dest!: rt_unlock_keeps postResume_keeps split: if_splits)
  with find_ready_size [OF f] show ?thesis by (simp add: ready_size_def)
qed

function (sequential) switchThread :: "nat \<Rightarrow> nat option \<Rightarrow> nat list \<Rightarrow> rt \<Rightarrow> rt option" where
  "switchThread p target ls \<sigma> = (case switch_pass p target ls \<sigma> of
     None \<Rightarrow> None
   | Some (\<sigma>', again) \<Rightarrow> if again then switchThread p None [] \<sigma>' else Some \<sigma>')"
  by pat_completeness auto
termination
  by (relation "measures [\<lambda>(p, t, ls, \<sigma>). if t = None then 0 else 1, \<lambda>(p, t, ls, \<sigma>). ready_size p \<sigma>]")
    (auto dest: switch_pass_smaller)

declare switchThread.simps [simp del]

definition preempt :: "nat \<Rightarrow> rt \<Rightarrow> rt option" where
  "preempt p \<sigma> = do {
     th \<leftarrow> threads \<sigma> (curr \<sigma> p);
     let wish = (if affinityMask th = 0 then getAffinity th else None);
     let target = (case wish of Some s \<Rightarrow> s
        | None \<Rightarrow> if readyCount (scheds \<sigma> (partner (scheds \<sigma> p))) + 2 < readyCount (scheds \<sigma> p)
                 then partner (scheds \<sigma> p) else p);
     switchThread p (Some target) [] \<sigma> }"

text \<open>The constructor of a scheduler creates its idle thread \<open>it\<close> and makes it ready.\<close>

definition sched_init :: "nat \<Rightarrow> nat \<Rightarrow> vaddr \<Rightarrow> mword \<Rightarrow> rt \<Rightarrow> rt" where
  "sched_init s it idleStack sz \<sigma> = set_sched s
     \<lparr>readyCount = 1, readyQueue = [[], [], [it]], preemption = 0, resumption = 0, partner = s\<rparr>
     (set_th it (setPriority idlePriority (setAffinity (Some s) (th_new idleStack sz))) \<sigma>)"

definition setPartner :: "nat \<Rightarrow> nat \<Rightarrow> rt \<Rightarrow> rt" where
  "setPartner s s' \<sigma> = set_sched s ((scheds \<sigma> s)\<lparr>partner := s'\<rparr>) \<sigma>"

definition rt_suspend :: "nat \<Rightarrow> nat list \<Rightarrow> rt \<Rightarrow> rt option" where
  "rt_suspend p ls \<sigma> = do {
     \<sigma>1 \<leftarrow> fake_cpu p \<sigma>;
     \<sigma>2 \<leftarrow> switchThread p None ls \<sigma>1;
     unlock_cpu p \<sigma>2 }"

definition terminate :: "nat \<Rightarrow> rt \<Rightarrow> rt option" where
  "terminate p \<sigma> = do {
     \<sigma>1 \<leftarrow> lock_cpu p \<sigma>;
     th \<leftarrow> threads \<sigma>1 (curr \<sigma>1 p);
     kassert (tstate th \<noteq> Blocked);
     \<sigma>2 \<leftarrow> switchThread p None [] (set_th (curr \<sigma>1 p) (th\<lparr>tstate := Finishing\<rparr>) \<sigma>1);
     unlock_cpu p \<sigma>2 }"

definition rt_yield :: "nat \<Rightarrow> rt \<Rightarrow> rt option" where
  "rt_yield p \<sigma> = do {
     \<sigma>1 \<leftarrow> lock_cpu p \<sigma>;
     \<sigma>2 \<leftarrow> preempt p \<sigma>1;
     unlock_cpu p \<sigma>2 }"

section \<open>\<open>Thread\<close>\<close>

definition th_create :: "nat \<Rightarrow> vaddr \<Rightarrow> mword \<Rightarrow> rt \<Rightarrow> rt" where
  "th_create t mem ss = set_th t (th_new mem ss)"

definition th_start :: "nat \<Rightarrow> nat \<Rightarrow> rt \<Rightarrow> rt option" where
  "th_start p t \<sigma> = do {
     th \<leftarrow> threads \<sigma> t;
     rt_resume p t (set_th t (th\<lparr>fresh := True\<rparr>) \<sigma>) }"

definition th_block :: "nat \<Rightarrow> UnblockInfo \<Rightarrow> rt \<Rightarrow> (rt \<times> bool) option" where
  "th_block p ubi \<sigma> = do {
     th \<leftarrow> threads \<sigma> (curr \<sigma> p);
     kassert (tstate th \<noteq> Blocked);
     let th1 = th\<lparr>unblockInfo := Some ubi\<rparr>;
     Some (if tstate th = Running then (set_th (curr \<sigma> p) (th1\<lparr>tstate := Blocked\<rparr>) \<sigma>, True)
           else (set_th (curr \<sigma> p) th1 \<sigma>, False)) }"

definition th_unblock :: "nat \<Rightarrow> nat \<Rightarrow> rt \<Rightarrow> (rt \<times> bool) option" where
  "th_unblock p t \<sigma> = do {
     kassert (t \<noteq> curr \<sigma> p);
     th \<leftarrow> threads \<sigma> t;
     Some (if tstate th = Blocked then (set_th t (th\<lparr>tstate := Running\<rparr>) \<sigma>, True) else (\<sigma>, False)) }"

section \<open>Invariant\<close>

text \<open>
  Where the threads are: \<open>placed\<close> counts for each thread the ready queues it is in and the
  processors it runs on.  A thread that is not blocked is in exactly one place, a blocked
  thread in none; \<open>X\<close> are blocked or finishing threads that are still current while they are
  being switched out, \<open>Y\<close> are threads that are on their way to a ready queue.
\<close>

definition placed :: "rt \<Rightarrow> nat multiset" where
  "placed \<sigma> = (\<Sum>s<nproc \<sigma>. mset (concat (readyQueue (scheds \<sigma> s)))) + (\<Sum>p<nproc \<sigma>. {#curr \<sigma> p#})"

definition active :: "rt \<Rightarrow> nat \<Rightarrow> bool" where
  "active \<sigma> t = (\<exists>th. threads \<sigma> t = Some th \<and> tstate th \<in> {Running, Cancelled})"

definition place_inv :: "nat set \<Rightarrow> nat set \<Rightarrow> rt \<Rightarrow> bool" where
  "place_inv X Y \<sigma> = (\<forall>t. count (placed \<sigma>) t = (if (active \<sigma> t \<or> t \<in> X) \<and> t \<notin> Y then 1 else 0))"

definition sched_ok :: "rt \<Rightarrow> bool" where
  "sched_ok \<sigma> = (\<forall>s<nproc \<sigma>. length (readyQueue (scheds \<sigma> s)) = maxPriority \<and>
     readyCount (scheds \<sigma> s) = of_nat (ready_size s \<sigma>) \<and> partner (scheds \<sigma> s) < nproc \<sigma> \<and>
     (\<forall>i<maxPriority. \<forall>t\<in>set (readyQueue (scheds \<sigma> s) ! i). \<exists>th. threads \<sigma> t = Some th \<and> priority th = i))"

definition thread_ok :: "rt \<Rightarrow> bool" where
  "thread_ok \<sigma> = (\<forall>t th. threads \<sigma> t = Some th \<longrightarrow> priority th < maxPriority \<and>
     (\<forall>s. nextScheduler th = Some s \<longrightarrow> s < nproc \<sigma>) \<and> (affinity th \<longrightarrow> nextScheduler th \<noteq> None))"

definition is_idle :: "nat \<Rightarrow> thread \<Rightarrow> bool" where
  "is_idle s th = (tstate th = Running \<and> priority th = idlePriority \<and> affinity th \<and> affinityMask th = 0 \<and> nextScheduler th = Some s)"

definition idle_ok :: "(nat \<Rightarrow> nat) \<Rightarrow> nat set \<Rightarrow> rt \<Rightarrow> bool" where
  "idle_ok idle Y \<sigma> = (\<forall>s<nproc \<sigma>. (\<exists>th. threads \<sigma> (idle s) = Some th \<and> is_idle s th) \<and>
     (idle s \<in> Y \<or> curr \<sigma> s = idle s \<or> idle s \<in> set (readyQueue (scheds \<sigma> s) ! idlePriority)))"

definition fin_ok :: "nat set \<Rightarrow> rt \<Rightarrow> bool" where
  "fin_ok X \<sigma> = (\<forall>t th. threads \<sigma> t = Some th \<and> tstate th = Finishing \<longrightarrow> t \<in> X)"

definition core_ok :: "(nat \<Rightarrow> nat) \<Rightarrow> nat set \<Rightarrow> nat set \<Rightarrow> rt \<Rightarrow> bool" where
  "core_ok idle X Y \<sigma> = (place_inv X Y \<sigma> \<and> sched_ok \<sigma> \<and> thread_ok \<sigma> \<and> idle_ok idle Y \<sigma> \<and> fin_ok X \<sigma>)"

abbreviation free_cpu :: cpu where "free_cpu \<equiv> \<lparr>lockCount = 0, intr = True\<rparr>"
abbreviation held_cpu :: "nat \<Rightarrow> cpu" where "held_cpu k \<equiv> \<lparr>lockCount = of_nat k, intr = False\<rparr>"

subsection \<open>Effect of the queue operations\<close>

lemma sum_upd:
  fixes f :: "'a \<Rightarrow> nat multiset"
  assumes "s < n"
  shows "(\<Sum>i<n. f ((g(s := x)) i)) + f (g s) = (\<Sum>i<(n::nat). f (g i)) + f x"
proof -
  have "(\<Sum>i<n. f ((g(s := x)) i)) = f x + (\<Sum>i\<in>{..<n} - {s}. f (g i))"
    using assms sum.remove [of "{..<n}" s "\<lambda>i. f ((g(s := x)) i)"] by simp
  moreover have "(\<Sum>i<n. f (g i)) = f (g s) + (\<Sum>i\<in>{..<n} - {s}. f (g i))"
    using assms sum.remove [of "{..<n}" s "\<lambda>i. f (g i)"] by simp
  ultimately show ?thesis by (simp add: ac_simps)
qed

lemma placed_sched:
  "s < nproc \<sigma> \<Longrightarrow> scheds \<sigma>' = (scheds \<sigma>)(s := x) \<Longrightarrow> curr \<sigma>' = curr \<sigma> \<Longrightarrow> nproc \<sigma>' = nproc \<sigma> \<Longrightarrow>
    placed \<sigma>' + mset (concat (readyQueue (scheds \<sigma> s))) = placed \<sigma> + mset (concat (readyQueue x))"
  using sum_upd [of s "nproc \<sigma>" "\<lambda>x. mset (concat (readyQueue x))" "scheds \<sigma>" x]
  by (simp add: placed_def ac_simps)

lemma placed_curr:
  "p < nproc \<sigma> \<Longrightarrow> curr \<sigma>' = (curr \<sigma>)(p := n) \<Longrightarrow> scheds \<sigma>' = scheds \<sigma> \<Longrightarrow> nproc \<sigma>' = nproc \<sigma> \<Longrightarrow>
    placed \<sigma>' + {#curr \<sigma> p#} = placed \<sigma> + {#n#}"
  using sum_upd [of p "nproc \<sigma>" "\<lambda>x. {#x#}" "curr \<sigma>" n]
  by (simp add: placed_def ac_simps)

lemma mset_concat_push: "i < length qs \<Longrightarrow> mset (concat (qs[i := qs ! i @ [t]])) = mset (concat qs) + {#t#}"
proof (induction qs arbitrary: i)
  case (Cons q qs)
  then show ?case by (cases i) (auto simp: ac_simps)
qed simp

lemma find_ready_mset: "find_ready k qs = Some (n, qs') \<Longrightarrow> mset (concat qs) = mset (concat qs') + {#n#}"
  by (induction k qs arbitrary: qs' rule: find_ready.induct) auto

text \<open>
  The search takes the first thread of the first non-empty queue: the highest priority
  class, first in first out.
\<close>

lemma find_ready_Some:
  "find_ready k qs = Some (n, qs') \<longleftrightarrow>
    (\<exists>i q. i < k \<and> i < length qs \<and> (\<forall>j<i. qs ! j = []) \<and> qs ! i = n # q \<and> qs' = qs[i := q])"
proof (induction k qs arbitrary: qs' rule: find_ready.induct)
  case (3 k qs)
  have "find_ready (Suc k) ([] # qs) = Some (n, qs') \<longleftrightarrow> (\<exists>r. qs' = [] # r \<and> find_ready k qs = Some (n, r))" by auto
  also have "\<dots> \<longleftrightarrow> (\<exists>r i q. qs' = [] # r \<and> i < k \<and> i < length qs \<and> (\<forall>j<i. qs ! j = []) \<and> qs ! i = n # q \<and> r = qs[i := q])"
    using 3 by blast
  also have "\<dots> \<longleftrightarrow> (\<exists>i q. i < Suc k \<and> i < length ([] # qs) \<and> (\<forall>j<i. ([] # qs) ! j = []) \<and> ([] # qs) ! i = n # q \<and> qs' = ([] # qs)[i := q])"
    (is "?L \<longleftrightarrow> ?R")
  proof
    assume ?L
    then obtain r i q where "qs' = [] # r" "i < k" "i < length qs" "\<forall>j<i. qs ! j = []" "qs ! i = n # q" "r = qs[i := q]" by blast
    then show ?R by (intro exI [of _ "Suc i"] exI [of _ q]) (auto simp: nth_Cons split: nat.splits)
  next
    assume ?R
    then obtain i q where *: "i < Suc k" "i < length ([] # qs)" "\<forall>j<i. ([] # qs) ! j = []" "([] # qs) ! i = n # q" "qs' = ([] # qs)[i := q]" by blast
    then obtain i' where "i = Suc i'" by (cases i) auto
    with * show ?L by (intro exI [of _ "qs[i' := q]"] exI [of _ i'] exI [of _ q]) auto
  qed
  finally show ?case .
next
  case (4 k m q qs)
  show ?case
  proof
    assume "find_ready (Suc k) ((m # q) # qs) = Some (n, qs')"
    then show "\<exists>i q'. i < Suc k \<and> i < length ((m # q) # qs) \<and> (\<forall>j<i. ((m # q) # qs) ! j = []) \<and>
        ((m # q) # qs) ! i = n # q' \<and> qs' = ((m # q) # qs)[i := q']"
      by (intro exI [of _ 0] exI [of _ q]) auto
  next
    assume "\<exists>i q'. i < Suc k \<and> i < length ((m # q) # qs) \<and> (\<forall>j<i. ((m # q) # qs) ! j = []) \<and>
        ((m # q) # qs) ! i = n # q' \<and> qs' = ((m # q) # qs)[i := q']"
    then obtain i q' where *: "\<forall>j<i. ((m # q) # qs) ! j = []" "((m # q) # qs) ! i = n # q'" "qs' = ((m # q) # qs)[i := q']" by blast
    then have "i = 0" by (cases i) auto
    with * show "find_ready (Suc k) ((m # q) # qs) = Some (n, qs')" by simp
  qed
qed auto

lemma find_ready_None: "find_ready k qs = None \<longleftrightarrow> (\<forall>i<min k (length qs). qs ! i = [])"
  by (induction k qs rule: find_ready.induct) (auto simp: All_less_Suc2 min_def split: if_splits)

subsection \<open>Locks and checks\<close>

lemma rt_unlock_ok:
  assumes "cpus \<sigma> p = held_cpu (Suc (length ls))" "Suc (length ls) < 2 ^ 64" "distinct ls" "\<forall>l\<in>set ls. locks \<sigma> l"
  shows "rt_unlock p ls \<sigma> = Some (\<sigma>\<lparr>cpus := (cpus \<sigma>)(p := held_cpu 1), locks := (\<lambda>l. locks \<sigma> l \<and> l \<notin> set ls)\<rparr>)"
  using assms
proof (induction ls arbitrary: \<sigma>)
  case Nil
  then have "(cpus \<sigma>)(p := held_cpu 1) = cpus \<sigma>" by (simp add: fun_upd_idem)
  then show ?case by simp
next
  case (Cons l ls)
  let ?\<sigma> = "\<sigma>\<lparr>cpus := (cpus \<sigma>)(p := held_cpu (Suc (length ls))), locks := (locks \<sigma>)(l := False)\<rparr>"
  have "unat (of_nat (Suc (length ls)) :: mword) = Suc (length ls)"
    using Cons.prems(2) by (simp add: unat_of_nat del: of_nat_Suc)
  then have "(of_nat (Suc (length ls)) :: mword) \<noteq> 0" by (metis nat.distinct(1) unat_0)
  then have "rt_release p l \<sigma> = Some ?\<sigma>"
    using Cons.prems by (simp add: rt_release_def lp_unlock_def set_cpu_def Let_def)
  moreover have "rt_unlock p ls ?\<sigma> = Some (?\<sigma>\<lparr>cpus := (cpus ?\<sigma>)(p := held_cpu 1), locks := (\<lambda>x. locks ?\<sigma> x \<and> x \<notin> set ls)\<rparr>)"
    using Cons.prems by (intro Cons.IH) auto
  moreover have "(\<lambda>x. locks ?\<sigma> x \<and> x \<notin> set ls) = (\<lambda>x. locks \<sigma> x \<and> x \<notin> set (l # ls))" by auto
  ultimately show ?case by (simp add: fun_upd_def cong: if_cong)
qed

lemma check_min: "cpus \<sigma> p = held_cpu k \<Longrightarrow> k < 2 ^ 64 \<Longrightarrow> x < k \<Longrightarrow> CHECK_LOCK_MIN p x \<sigma> = Some ()"
proof -
  assume a: "cpus \<sigma> p = held_cpu k" "k < 2 ^ 64" "x < k"
  then have "unat (of_nat k :: mword) = k" "unat (of_nat x :: mword) = x" by (simp_all add: unat_of_nat)
  moreover from this a(3) have "(of_nat k :: mword) \<noteq> 0" by (metis not_less_zero unat_0)
  ultimately show ?thesis using a by (simp add: CHECK_LOCK_MIN_def lp_checkLock_def word_less_nat_alt)
qed

lemma check_one: "cpus \<sigma> p = held_cpu 1 \<Longrightarrow> CHECK_LOCK_COUNT p 1 \<sigma> = Some ()"
  by (simp add: CHECK_LOCK_COUNT_def lp_checkLock_def)

subsection \<open>The view of blocked threads\<close>

definition blocked_view :: "rt \<Rightarrow> nat \<Rightarrow> UnblockInfo option option" where
  "blocked_view \<sigma> t = (case threads \<sigma> t of Some th \<Rightarrow> if tstate th = Blocked then Some (unblockInfo th) else None | None \<Rightarrow> None)"

text \<open>A thread switched to leaves \<open>stackSwitch\<close>; it finishes at once when it was cancelled.\<close>

definition arrive :: "thread \<Rightarrow> thread" where
  "arrive nt = (if fresh nt then nt\<lparr>fresh := False\<rparr> else if tstate nt = Cancelled then nt\<lparr>tstate := Finishing\<rparr> else nt)"

abbreviation "must_finish nt \<equiv> \<not> fresh nt \<and> tstate nt = Cancelled"

lemma place_member:
  assumes "place_inv X Y \<sigma>" "s < nproc \<sigma>" "t \<in> set (concat (readyQueue (scheds \<sigma> s)))"
  shows "active \<sigma> t \<or> t \<in> X" "t \<notin> Y" "p < nproc \<sigma> \<Longrightarrow> curr \<sigma> p \<noteq> t"
proof -
  have "t \<in># placed \<sigma>"
  proof -
    have "mset (concat (readyQueue (scheds \<sigma> s))) \<subseteq># (\<Sum>s<nproc \<sigma>. mset (concat (readyQueue (scheds \<sigma> s))))"
      using assms(2) sum.remove [of "{..<nproc \<sigma>}" s "\<lambda>s. mset (concat (readyQueue (scheds \<sigma> s)))"] by simp
    with assms(3) show ?thesis unfolding placed_def by (metis in_multiset_in_set mset_subset_eqD union_iff)
  qed
  then have "count (placed \<sigma>) t \<noteq> 0" by simp
  with assms(1) show "active \<sigma> t \<or> t \<in> X" "t \<notin> Y" unfolding place_inv_def by metis+
  assume p: "p < nproc \<sigma>"
  show "curr \<sigma> p \<noteq> t"
  proof
    assume c: "curr \<sigma> p = t"
    have "count (\<Sum>s<nproc \<sigma>. mset (concat (readyQueue (scheds \<sigma> s)))) t \<ge> count (mset (concat (readyQueue (scheds \<sigma> s)))) t"
      using assms(2) sum.remove [of "{..<nproc \<sigma>}" s "\<lambda>s. mset (concat (readyQueue (scheds \<sigma> s)))"] by simp
    moreover have "count (mset (concat (readyQueue (scheds \<sigma> s)))) t \<ge> 1" using assms(3) by (metis One_nat_def Suc_leI count_greater_zero_iff set_mset_mset)
    moreover have "count (\<Sum>p<nproc \<sigma>. {#curr \<sigma> p#}) t \<ge> 1"
      using p c sum.remove [of "{..<nproc \<sigma>}" p "\<lambda>p. {#curr \<sigma> p#}"] by simp
    ultimately have "count (placed \<sigma>) t \<ge> 2" unfolding placed_def count_union by linarith
    moreover have "count (placed \<sigma>) t \<le> 1" using assms(1) by (simp add: place_inv_def)
    ultimately show False by simp
  qed
qed

lemma place_curr_distinct:
  assumes "place_inv X Y \<sigma>" "p < nproc \<sigma>" "q < nproc \<sigma>" "p \<noteq> q"
  shows "curr \<sigma> p \<noteq> curr \<sigma> q"
proof
  assume c: "curr \<sigma> p = curr \<sigma> q"
  have "(\<Sum>p<nproc \<sigma>. {#curr \<sigma> p#}) = {#curr \<sigma> p#} + (\<Sum>p\<in>{..<nproc \<sigma>} - {p}. {#curr \<sigma> p#})"
    using assms(2) by (intro sum.remove) simp_all
  also have "(\<Sum>p\<in>{..<nproc \<sigma>} - {p}. {#curr \<sigma> p#}) = {#curr \<sigma> q#} + (\<Sum>p\<in>{..<nproc \<sigma>} - {p} - {q}. {#curr \<sigma> p#})"
    using assms(3,4) by (intro sum.remove) simp_all
  finally have "count (placed \<sigma>) (curr \<sigma> p) \<ge> 2" using c by (simp add: placed_def)
  moreover have "count (placed \<sigma>) (curr \<sigma> p) \<le> 1" using assms(1) by (simp add: place_inv_def)
  ultimately show False by simp
qed

subsection \<open>Switching a thread out for good\<close>

lemma switch_to_None:
  assumes p: "threads \<sigma> (curr \<sigma> p) = Some th" "n \<noteq> curr \<sigma> p" "threads \<sigma> n = Some nt"
    and lk: "cpus \<sigma> p = held_cpu (Suc (length ls))" "Suc (length ls) < 2 ^ 64" "distinct ls" "\<forall>l\<in>set ls. locks \<sigma> l"
  shows "switch_to p None ls n qs \<sigma> = Some (\<sigma>\<lparr>
      scheds := (scheds \<sigma>)(p := (scheds \<sigma> p)\<lparr>readyQueue := qs, readyCount := readyCount (scheds \<sigma> p) - 1, resumption := resumption (scheds \<sigma> p) + 1\<rparr>),
      cpus := (cpus \<sigma>)(p := held_cpu 1), locks := (\<lambda>l. locks \<sigma> l \<and> l \<notin> set ls), curr := (curr \<sigma>)(p := n),
      threads := (threads \<sigma>)(curr \<sigma> p := (if tstate th = Finishing then None else Some (th\<lparr>nextScheduler := Some p\<rparr>)),
                             n \<mapsto> arrive nt)\<rparr>, must_finish nt)"
proof -
  let ?c = "curr \<sigma> p" and ?sc = "(scheds \<sigma> p)\<lparr>readyQueue := qs, readyCount := readyCount (scheds \<sigma> p) - 1, resumption := resumption (scheds \<sigma> p) + 1\<rparr>"
  let ?\<sigma>2 = "set_th ?c (th\<lparr>nextScheduler := Some p\<rparr>) (set_sched p ?sc \<sigma>)"
  have u: "rt_unlock p ls ?\<sigma>2 = Some (?\<sigma>2\<lparr>cpus := (cpus \<sigma>)(p := held_cpu 1), locks := (\<lambda>l. locks \<sigma> l \<and> l \<notin> set ls)\<rparr>)"
    using rt_unlock_ok [of ?\<sigma>2 p ls] lk by (simp add: set_defs)
  have "(threads \<sigma>)(n \<mapsto> nt) = threads \<sigma>" using p(3) by (simp add: fun_upd_idem)
  then show ?thesis
    using p u by (simp add: switch_to_def Let_def check_one [unfolded One_nat_def] postSwitch_def postResume_def th_destroy_def
        arrive_def set_defs fun_upd_twist)
qed


text \<open>
  The invariants only depend on some fields; these lemmas give them for the state after a
  switch from the state before.
\<close>

lemma ready_in:
  assumes "sched_ok \<sigma>" "s < nproc \<sigma>" "i < maxPriority" "t \<in> set (readyQueue (scheds \<sigma> s) ! i)"
  shows "t \<in> set (concat (readyQueue (scheds \<sigma> s)))"
  using assms by (auto simp: sched_ok_def intro!: bexI [of _ "readyQueue (scheds \<sigma> s) ! i"])

lemma ready_prio:
  "sched_ok \<sigma> \<Longrightarrow> s < nproc \<sigma> \<Longrightarrow> i < maxPriority \<Longrightarrow> t \<in> set (readyQueue (scheds \<sigma> s) ! i) \<Longrightarrow>
    \<exists>th. threads \<sigma> t = Some th \<and> priority th = i"
  unfolding sched_ok_def by blast

lemma find_ready_keeps:
  assumes "find_ready k qs = Some (n, qs')" "i < length qs"
  shows "set (qs' ! i) \<subseteq> set (qs ! i)" "t \<noteq> n \<Longrightarrow> t \<in> set (qs ! i) \<Longrightarrow> t \<in> set (qs' ! i)" "length qs' = length qs"
  using assms by (auto simp: find_ready_Some nth_list_update split: if_splits)

lemma find_ready_found:
  assumes "core_ok idle X Y \<sigma>" "p < nproc \<sigma>" "curr \<sigma> p \<noteq> idle p" "idle p \<notin> Y"
  shows "find_ready maxPriority (readyQueue (scheds \<sigma> p)) \<noteq> None"
proof
  assume "find_ready maxPriority (readyQueue (scheds \<sigma> p)) = None"
  then have "readyQueue (scheds \<sigma> p) ! idlePriority = []"
    using assms(1,2) by (auto simp: find_ready_None core_ok_def sched_ok_def prio_defs)
  with assms show False by (auto simp: core_ok_def idle_ok_def)
qed

lemma idle_thread:
  assumes "core_ok idle X Y \<sigma>" "s < nproc \<sigma>"
  obtains th where "threads \<sigma> (idle s) = Some th" "is_idle s th" "active \<sigma> (idle s)"
  using assms by (auto simp: core_ok_def idle_ok_def is_idle_def active_def)

text \<open>An idle thread stays with its processor.\<close>

lemma idle_home:
  assumes "core_ok idle X Y \<sigma>" "s < nproc \<sigma>" "p < nproc \<sigma>" "curr \<sigma> p = idle s" "idle s \<notin> Y"
  shows "p = s"
proof (rule ccontr)
  assume "p \<noteq> s"
  from assms(1,2,5) consider "curr \<sigma> s = idle s" | "idle s \<in> set (readyQueue (scheds \<sigma> s) ! idlePriority)"
    by (auto simp: core_ok_def idle_ok_def)
  then show False
  proof cases
    case 1
    then show ?thesis using place_curr_distinct [of X Y \<sigma> p s] assms \<open>p \<noteq> s\<close> by (simp add: core_ok_def)
  next
    case 2
    then have "idle s \<in> set (concat (readyQueue (scheds \<sigma> s)))"
      using ready_in [of \<sigma> s idlePriority] assms(1,2) by (simp add: core_ok_def prio_defs)
    then show ?thesis using place_member(3) [of X Y \<sigma> s "idle s" p] assms by (simp add: core_ok_def)
  qed
qed

text \<open>
  The current thread \<open>c\<close> of processor \<open>p\<close> is replaced by \<open>n\<close>, which was taken out of the ready
  queues; a blocked or finishing \<open>c\<close> is gone, another one is on its way to a ready queue.
\<close>

lemma switch_core:
  assumes core: "core_ok idle X {} \<sigma>" and p: "p < nproc \<sigma>"
    and c: "threads \<sigma> (curr \<sigma> p) = Some th" "X = (if tstate th \<in> {Running, Cancelled} then {} else {curr \<sigma> p})"
    and f: "find_ready k (readyQueue (scheds \<sigma> p)) = Some (n, qs)" and nt: "threads \<sigma> n = Some nt" "n \<noteq> curr \<sigma> p"
    and r: "r < nproc \<sigma>" "curr \<sigma> p = idle p \<Longrightarrow> r = p"
    and s': "nproc \<sigma>' = nproc \<sigma>" "curr \<sigma>' = (curr \<sigma>)(p := n)" "scheds \<sigma>' = (scheds \<sigma>)(p := sc)"
      "readyQueue sc = qs" "readyCount sc = readyCount (scheds \<sigma> p) - 1" "partner sc = partner (scheds \<sigma> p)"
      "threads \<sigma>' = (threads \<sigma>)(curr \<sigma> p := (if tstate th = Finishing then None else Some (th\<lparr>nextScheduler := Some r\<rparr>)), n \<mapsto> arrive nt)"
    and act: "active \<sigma> n"
  shows "core_ok idle (if must_finish nt then {n} else {}) (if X = {} then {curr \<sigma> p} else {}) \<sigma>'"
proof -
  let ?c = "curr \<sigma> p" and ?X = "if must_finish nt then {n} else {}" and ?Y = "if X = {} then {curr \<sigma> p} else {}"
  have inv: "place_inv X {} \<sigma>" "sched_ok \<sigma>" "thread_ok \<sigma>" "idle_ok idle {} \<sigma>" "fin_ok X \<sigma>" using core by (simp_all add: core_ok_def)
  have "placed (\<sigma>\<lparr>scheds := (scheds \<sigma>)(p := sc)\<rparr>) + mset (concat (readyQueue (scheds \<sigma> p))) = placed \<sigma> + mset (concat (readyQueue sc))"
    using p by (intro placed_sched) simp_all
  moreover have "placed \<sigma>' + {#?c#} = placed (\<sigma>\<lparr>scheds := (scheds \<sigma>)(p := sc)\<rparr>) + {#n#}"
    using placed_curr [of p "\<sigma>\<lparr>scheds := (scheds \<sigma>)(p := sc)\<rparr>" \<sigma>' n] p s' by simp
  ultimately have pl: "placed \<sigma>' + {#?c#} = placed \<sigma>"
    using find_ready_mset [OF f] s'(4) by (simp add: ac_simps)
  have cnt: "count (placed \<sigma>) t = count (placed \<sigma>') t + (if t = ?c then 1 else 0)" for t
    using arg_cong [OF pl, of "\<lambda>M. count M t"] by (auto split: if_splits)
  have an: "active \<sigma>' t = (if t = n then \<not> must_finish nt else if t = ?c then X = {} else active \<sigma> t)" for t
    using c nt act s'(7) by (auto simp: active_def arrive_def)
  have "place_inv ?X ?Y \<sigma>'"
    unfolding place_inv_def
  proof
    fix t
    have "count (placed \<sigma>) t = (if active \<sigma> t \<or> t \<in> X then 1 else 0)" using inv(1) by (simp add: place_inv_def)
    then show "count (placed \<sigma>') t = (if (active \<sigma>' t \<or> t \<in> ?X) \<and> t \<notin> ?Y then 1 else 0)"
      using cnt [of t] an [of t] c act nt(2) by (auto simp: active_def split: if_splits)
  qed
  moreover have "sched_ok \<sigma>'"
    unfolding sched_ok_def s'(1)
  proof (intro allI impI conjI ballI)
    fix s assume s: "s < nproc \<sigma>"
    have len: "length (readyQueue (scheds \<sigma> s)) = maxPriority" "readyCount (scheds \<sigma> s) = of_nat (ready_size s \<sigma>)"
      and partner: "partner (scheds \<sigma> s) < nproc \<sigma>" using inv(2) s by (simp_all add: sched_ok_def)
    note K = find_ready_keeps [OF f]
    show "length (readyQueue (scheds \<sigma>' s)) = maxPriority"
      using len K(3) [of 0] s' by (cases "s = p") (auto simp: prio_defs)
    show "readyCount (scheds \<sigma>' s) = of_nat (ready_size s \<sigma>')"
      using len s' find_ready_size [OF f] by (cases "s = p") (auto simp: ready_size_def)
    show "partner (scheds \<sigma>' s) < nproc \<sigma>" using partner s' by auto
    fix i t assume it: "i < maxPriority" "t \<in> set (readyQueue (scheds \<sigma>' s) ! i)"
    then have old: "t \<in> set (readyQueue (scheds \<sigma> s) ! i)"
      using K(1) [of i] len s' by (cases "s = p") auto
    then obtain x where x: "threads \<sigma> t = Some x" "priority x = i" using ready_prio [OF inv(2) s it(1)] by blast
    have "t \<noteq> ?c" using place_member(3) [OF inv(1) s ready_in [OF inv(2) s it(1) old] p] by simp
    then show "\<exists>th. threads \<sigma>' t = Some th \<and> priority th = i"
      using x nt s'(7) by (auto simp: arrive_def)
  qed
  moreover have "thread_ok \<sigma>'"
    using inv(3) s'(1,7) c(1) nt r(1) by (auto simp: thread_ok_def arrive_def split: if_splits)
  moreover have "idle_ok idle ?Y \<sigma>'"
    unfolding idle_ok_def s'(1)
  proof (intro allI impI conjI)
    fix s assume s: "s < nproc \<sigma>"
    obtain x where x: "threads \<sigma> (idle s) = Some x" "is_idle s x" "active \<sigma> (idle s)" using idle_thread [OF core s] .
    have cs: "?c = idle s \<Longrightarrow> s = p" using idle_home [OF core s p] by simp
    have "tstate th = Running" if "?c = idle s" using that c(1) x(1,2) by (simp add: is_idle_def)
    then show "\<exists>th. threads \<sigma>' (idle s) = Some th \<and> is_idle s th"
      using x(1,2) nt s'(7) c(1) r cs by (auto simp: arrive_def is_idle_def)
    from inv(4) s consider "curr \<sigma> s = idle s" | "idle s \<in> set (readyQueue (scheds \<sigma> s) ! idlePriority)"
      by (auto simp: idle_ok_def)
    then show "idle s \<in> ?Y \<or> curr \<sigma>' s = idle s \<or> idle s \<in> set (readyQueue (scheds \<sigma>' s) ! idlePriority)"
    proof cases
      case 1
      then show ?thesis using s' c x by (auto simp: active_def)
    next
      case 2
      have "idlePriority < length (readyQueue (scheds \<sigma> p))" using inv(2) p by (simp add: sched_ok_def prio_defs)
      with 2 show ?thesis using s' find_ready_keeps(2) [OF f, of idlePriority "idle s"] by (cases "s = p"; cases "idle s = n") auto
    qed
  qed
  moreover have "fin_ok ?X \<sigma>'"
    using inv(5) s'(7) c nt act by (auto simp: fin_ok_def arrive_def active_def split: if_splits)
  ultimately show ?thesis by (simp add: core_ok_def)
qed

lemma enqueue_ok:
  assumes "threads \<sigma> t = Some th" "priority th < maxPriority"
  obtains i where "enqueue s t \<sigma> = Some (\<sigma>\<lparr>ipis := i, scheds := (scheds \<sigma>)(s := (scheds \<sigma> s)\<lparr>
      readyQueue := (readyQueue (scheds \<sigma> s))[priority th := readyQueue (scheds \<sigma> s) ! priority th @ [t]],
      readyCount := readyCount (scheds \<sigma> s) + 1\<rparr>)\<rparr>)"
proof -
  have "enqueue s t \<sigma> = Some (\<sigma>\<lparr>ipis := (if readyCount (scheds \<sigma> s) = 0 then ipis \<sigma> @ [s] else ipis \<sigma>), scheds := (scheds \<sigma>)(s := (scheds \<sigma> s)\<lparr>
      readyQueue := (readyQueue (scheds \<sigma> s))[priority th := readyQueue (scheds \<sigma> s) ! priority th @ [t]],
      readyCount := readyCount (scheds \<sigma> s) + 1\<rparr>)\<rparr>)"
    using assms by (simp add: enqueue_def Let_def set_sched_def)
  then show ?thesis by (rule that)
qed

text \<open>Putting a thread that is on its way into a ready queue restores the invariant.\<close>

lemma enqueue_core:
  assumes core: "core_ok idle X (insert t Y) \<sigma>" and t: "threads \<sigma> t = Some th" "active \<sigma> t \<or> t \<in> X" "t \<notin> Y"
    and s: "s < nproc \<sigma>" and home: "\<And>r. r < nproc \<sigma> \<Longrightarrow> idle r = t \<Longrightarrow> r = s"
  obtains i sc where "enqueue s t \<sigma> = Some (\<sigma>\<lparr>ipis := i, scheds := (scheds \<sigma>)(s := sc)\<rparr>)"
    "core_ok idle X Y (\<sigma>\<lparr>ipis := i, scheds := (scheds \<sigma>)(s := sc)\<rparr>)"
proof -
  have inv: "place_inv X (insert t Y) \<sigma>" "sched_ok \<sigma>" "thread_ok \<sigma>" "idle_ok idle (insert t Y) \<sigma>" "fin_ok X \<sigma>" using core by (simp_all add: core_ok_def)
  have pr: "priority th < maxPriority" using inv(3) t(1) by (simp add: thread_ok_def)
  let ?q = "readyQueue (scheds \<sigma> s)"
  define sc where "sc = (scheds \<sigma> s)\<lparr>readyQueue := ?q[priority th := ?q ! priority th @ [t]], readyCount := readyCount (scheds \<sigma> s) + 1\<rparr>"
  obtain i where e: "enqueue s t \<sigma> = Some (\<sigma>\<lparr>ipis := i, scheds := (scheds \<sigma>)(s := sc)\<rparr>)"
    using enqueue_ok [OF t(1) pr, of s] unfolding sc_def by blast
  let ?\<sigma>' = "\<sigma>\<lparr>ipis := i, scheds := (scheds \<sigma>)(s := sc)\<rparr>"
  have len: "length ?q = maxPriority" using inv(2) s by (simp add: sched_ok_def)
  have m: "mset (concat (readyQueue sc)) = mset (concat ?q) + {#t#}" using mset_concat_push [of "priority th" ?q t] pr len by (simp add: sc_def)
  have "placed ?\<sigma>' + mset (concat ?q) = placed \<sigma> + mset (concat (readyQueue sc))" using s by (intro placed_sched) simp_all
  then have pl: "placed ?\<sigma>' = placed \<sigma> + {#t#}" unfolding m by (simp add: ac_simps)
  have "place_inv X Y ?\<sigma>'" unfolding place_inv_def
  proof
    fix u
    show "count (placed ?\<sigma>') u = (if (active ?\<sigma>' u \<or> u \<in> X) \<and> u \<notin> Y then 1 else 0)"
      using inv(1) t(2,3) unfolding pl by (auto simp: place_inv_def active_def)
  qed
  moreover have "sched_ok ?\<sigma>'"
  proof -
    have "size (mset (concat (readyQueue sc))) = Suc (size (mset (concat ?q)))" unfolding m by simp
    then have "length (concat (readyQueue sc)) = Suc (length (concat ?q))" by (simp only: size_mset)
    then show ?thesis
      using inv(2) t(1) pr len by (auto simp: sched_ok_def sc_def ready_size_def nth_list_update)
  qed
  moreover have "thread_ok ?\<sigma>'" "fin_ok X ?\<sigma>'" using inv(3,5) by (simp_all add: thread_ok_def fin_ok_def)
  moreover have "idle_ok idle Y ?\<sigma>'"
    unfolding idle_ok_def
  proof (intro allI impI conjI)
    fix r assume "r < nproc ?\<sigma>'"
    then have r: "r < nproc \<sigma>" by simp
    then obtain x where x: "threads \<sigma> (idle r) = Some x" "is_idle r x" using idle_thread [OF core] by blast
    then show "\<exists>th. threads ?\<sigma>' (idle r) = Some th \<and> is_idle r th" by simp
    have l: "idlePriority < length ?q" using len by (simp add: prio_defs)
    have sub: "set (readyQueue (scheds \<sigma> r) ! idlePriority) \<subseteq> set (readyQueue (scheds ?\<sigma>' r) ! idlePriority)"
      using pr len by (auto simp: sc_def nth_list_update)
    have new: "t \<in> set (readyQueue (scheds ?\<sigma>' s) ! idlePriority)" if "priority th = idlePriority"
      using l that by (simp add: sc_def)
    from inv(4) r consider "idle r = t" | "idle r \<in> Y" | "curr \<sigma> r = idle r" | "idle r \<in> set (readyQueue (scheds \<sigma> r) ! idlePriority)"
      by (auto simp: idle_ok_def)
    then show "idle r \<in> Y \<or> curr ?\<sigma>' r = idle r \<or> idle r \<in> set (readyQueue (scheds ?\<sigma>' r) ! idlePriority)"
    proof cases
      case 1
      then have "r = s" "priority th = idlePriority" using home [OF r] x t(1) by (auto simp: is_idle_def)
      with 1 new show ?thesis by simp
    next
      case 2
      then show ?thesis by simp
    next
      case 3
      then show ?thesis by simp
    next
      case 4
      with sub show ?thesis by blast
    qed
  qed
  ultimately show ?thesis using e by (intro that [of sc i]) (simp_all add: core_ok_def)
qed

lemma enqueue_set_th: "n \<noteq> t \<Longrightarrow> enqueue s t (set_th n x \<sigma>) = map_option (set_th n x) (enqueue s t \<sigma>)"
  by (cases "threads \<sigma> t") (auto simp: enqueue_def set_defs Let_def kassert_def)

lemma enqueue_keeps: "enqueue s t \<sigma> = Some \<sigma>' \<Longrightarrow>
    threads \<sigma>' = threads \<sigma> \<and> curr \<sigma>' = curr \<sigma> \<and> nproc \<sigma>' = nproc \<sigma> \<and> cpus \<sigma>' = cpus \<sigma> \<and> locks \<sigma>' = locks \<sigma> \<and>
    waitq \<sigma>' = waitq \<sigma> \<and> timeouts \<sigma>' = timeouts \<sigma>"
  by (auto simp: enqueue_def Let_def set_sched_def bind_eq_Some_conv)

lemma set_th_idem: "threads \<sigma> n = Some x \<Longrightarrow> set_th n x \<sigma> = \<sigma>"
  by (simp add: set_th_def fun_upd_idem)

lemma core_preemption:
  "core_ok idle X Y (set_sched p ((scheds \<sigma> p)\<lparr>preemption := x\<rparr>) \<sigma>) = core_ok idle X Y \<sigma>"
proof -
  let ?\<sigma> = "set_sched p ((scheds \<sigma> p)\<lparr>preemption := x\<rparr>) \<sigma>"
  have q: "readyQueue (scheds ?\<sigma> s) = readyQueue (scheds \<sigma> s)" "readyCount (scheds ?\<sigma> s) = readyCount (scheds \<sigma> s)"
    "partner (scheds ?\<sigma> s) = partner (scheds \<sigma> s)" for s by (simp_all add: set_sched_def)
  have f: "nproc ?\<sigma> = nproc \<sigma>" "threads ?\<sigma> = threads \<sigma>" "curr ?\<sigma> = curr \<sigma>" by (simp_all add: set_sched_def)
  show ?thesis
    by (simp only: core_ok_def place_inv_def placed_def active_def sched_ok_def ready_size_def thread_ok_def idle_ok_def fin_ok_def q f)
qed

definition switched :: "nat \<Rightarrow> rt \<Rightarrow> rt \<Rightarrow> bool" where
  "switched p \<sigma> \<sigma>' = (nproc \<sigma>' = nproc \<sigma> \<and> waitq \<sigma>' = waitq \<sigma> \<and> timeouts \<sigma>' = timeouts \<sigma> \<and>
     cpus \<sigma>' = (cpus \<sigma>)(p := held_cpu 1) \<and> (\<forall>q. q \<noteq> p \<longrightarrow> curr \<sigma>' q = curr \<sigma> q) \<and> blocked_view \<sigma>' = blocked_view \<sigma> \<and>
     (\<forall>t th'. threads \<sigma>' t = Some th' \<longrightarrow> (\<exists>th. threads \<sigma> t = Some th \<and> timedOut th' = timedOut th \<and> unblockInfo th' = unblockInfo th)))"

lemma switched_trans: "switched p \<sigma> \<sigma>1 \<Longrightarrow> switched p \<sigma>1 \<sigma>2 \<Longrightarrow> switched p \<sigma> \<sigma>2"
  unfolding switched_def by (clarsimp, metis)


lemma arrive_keeps:
  "timedOut (arrive nt) = timedOut nt" "unblockInfo (arrive nt) = unblockInfo nt" "priority (arrive nt) = priority nt"
  "tstate nt \<in> {Running, Cancelled} \<Longrightarrow> tstate (arrive nt) \<noteq> Blocked"
  "must_finish nt \<Longrightarrow> tstate (arrive nt) = Finishing"
  by (auto simp: arrive_def)

lemma ready_thread:
  assumes core: "core_ok idle X {} \<sigma>" and p: "p < nproc \<sigma>"
    and f: "find_ready k (readyQueue (scheds \<sigma> p)) = Some (n, qs)" and X: "X \<subseteq> {curr \<sigma> p}"
  obtains nt where "threads \<sigma> n = Some nt" "n \<noteq> curr \<sigma> p" "active \<sigma> n" "tstate nt \<in> {Running, Cancelled}"
proof -
  have "n \<in># mset (concat (readyQueue (scheds \<sigma> p)))" unfolding find_ready_mset [OF f] by simp
  then have n: "n \<in> set (concat (readyQueue (scheds \<sigma> p)))" by (simp only: set_mset_mset)
  have pl: "place_inv X {} \<sigma>" using core by (simp add: core_ok_def)
  have c: "n \<noteq> curr \<sigma> p" using place_member(3) [OF pl p n p] by simp
  with place_member(1) [OF pl p n] X have "active \<sigma> n" by blast
  with c that show ?thesis unfolding active_def by blast
qed

lemma pass_None:
  assumes core: "core_ok idle {curr \<sigma> p} {} \<sigma>" and p: "p < nproc \<sigma>"
    and c: "threads \<sigma> (curr \<sigma> p) = Some th" "tstate th \<in> {Blocked, Finishing}"
    and lk: "cpus \<sigma> p = held_cpu (Suc (length ls))" "Suc (length ls) < 2 ^ 64" "distinct ls" "\<forall>l\<in>set ls. locks \<sigma> l"
  obtains \<sigma>' again where "switch_pass p None ls \<sigma> = Some (\<sigma>', again)" "switched p \<sigma> \<sigma>'"
    "locks \<sigma>' = (\<lambda>l. locks \<sigma> l \<and> l \<notin> set ls)" "core_ok idle (if again then {curr \<sigma>' p} else {}) {} \<sigma>'"
    "again \<longrightarrow> (\<exists>th. threads \<sigma>' (curr \<sigma>' p) = Some th \<and> tstate th = Finishing)"
proof -
  define \<sigma>1 where "\<sigma>1 = set_sched p ((scheds \<sigma> p)\<lparr>preemption := preemption (scheds \<sigma> p) + 1\<rparr>) \<sigma>"
  have f1: "nproc \<sigma>1 = nproc \<sigma>" "curr \<sigma>1 = curr \<sigma>" "threads \<sigma>1 = threads \<sigma>" "cpus \<sigma>1 = cpus \<sigma>" "locks \<sigma>1 = locks \<sigma>"
    "waitq \<sigma>1 = waitq \<sigma>" "timeouts \<sigma>1 = timeouts \<sigma>" by (simp_all add: \<sigma>1_def set_sched_def)
  have core1: "core_ok idle {curr \<sigma>1 p} {} \<sigma>1" using core unfolding \<sigma>1_def core_preemption by (simp add: set_sched_def)
  have p1: "p < nproc \<sigma>1" using p f1 by simp
  have "idle p \<noteq> curr \<sigma>1 p" using idle_thread [OF core1 p1] c f1 by (force simp: is_idle_def)
  then obtain n qs where f: "find_ready maxPriority (readyQueue (scheds \<sigma>1 p)) = Some (n, qs)"
    using find_ready_found [OF core1 p1] by auto
  obtain nt where nt: "threads \<sigma>1 n = Some nt" "n \<noteq> curr \<sigma>1 p" "active \<sigma>1 n" "tstate nt \<in> {Running, Cancelled}"
    by (rule ready_thread [OF core1 p1 f]) simp_all
  define sc where "sc = (scheds \<sigma>1 p)\<lparr>readyQueue := qs, readyCount := readyCount (scheds \<sigma>1 p) - 1, resumption := resumption (scheds \<sigma>1 p) + 1\<rparr>"
  define \<sigma>' where "\<sigma>' = \<sigma>1\<lparr>scheds := (scheds \<sigma>1)(p := sc),
      cpus := (cpus \<sigma>1)(p := held_cpu 1), locks := (\<lambda>l. locks \<sigma>1 l \<and> l \<notin> set ls), curr := (curr \<sigma>1)(p := n),
      threads := (threads \<sigma>1)(curr \<sigma>1 p := (if tstate th = Finishing then None else Some (th\<lparr>nextScheduler := Some p\<rparr>)), n \<mapsto> arrive nt)\<rparr>"
  have st: "switch_to p None ls n qs \<sigma>1 = Some (\<sigma>', must_finish nt)"
    unfolding \<sigma>'_def sc_def by (rule switch_to_None) (use c nt lk f1 in simp_all)
  have core': "core_ok idle (if must_finish nt then {n} else {}) {} \<sigma>'"
  proof -
    have cn: "tstate th \<noteq> Running" "tstate th \<noteq> Cancelled" using c(2) by auto
    have "core_ok idle (if must_finish nt then {n} else {}) (if {curr \<sigma>1 p} = {} then {curr \<sigma>1 p} else {}) \<sigma>'"
      by (rule switch_core [OF core1 p1 _ _ f nt(1,2), where r = p and sc = sc and th = th])
        (use c cn nt f1 p1 in \<open>simp_all add: \<sigma>'_def sc_def\<close>)
    then show ?thesis by simp
  qed
  have "switch_pass p None ls \<sigma> = Some (\<sigma>', must_finish nt)"
    using st f check_min [of \<sigma>1 p "Suc (length ls)" "length ls"] lk f1 by (simp add: switch_pass_def Let_def \<sigma>1_def [symmetric])
  moreover have "switched p \<sigma> \<sigma>'"
    using c nt arrive_keeps [of nt] f1 by (auto simp: switched_def \<sigma>'_def blocked_view_def fun_eq_iff)
  moreover have "curr \<sigma>' p = n" "locks \<sigma>' = (\<lambda>l. locks \<sigma> l \<and> l \<notin> set ls)" "threads \<sigma>' n = Some (arrive nt)"
    by (simp_all add: \<sigma>'_def f1)
  ultimately show ?thesis using core' arrive_keeps(5) [of nt]
    by (intro that [of \<sigma>' "must_finish nt"]) (auto split: if_splits)
qed

lemma switchThread_None:
  assumes "core_ok idle {curr \<sigma> p} {} \<sigma>" "p < nproc \<sigma>"
    and "threads \<sigma> (curr \<sigma> p) = Some th" "tstate th \<in> {Blocked, Finishing}"
    and "cpus \<sigma> p = held_cpu (Suc (length ls))" "Suc (length ls) < 2 ^ 64" "distinct ls" "\<forall>l\<in>set ls. locks \<sigma> l"
  shows "\<exists>\<sigma>'. switchThread p None ls \<sigma> = Some \<sigma>' \<and> switched p \<sigma> \<sigma>' \<and>
    locks \<sigma>' = (\<lambda>l. locks \<sigma> l \<and> l \<notin> set ls) \<and> core_ok idle {} {} \<sigma>'"
  using assms
proof (induction "ready_size p \<sigma>" arbitrary: \<sigma> ls th rule: less_induct)
  case less
  obtain \<sigma>1 again where 1: "switch_pass p None ls \<sigma> = Some (\<sigma>1, again)" "switched p \<sigma> \<sigma>1"
    "locks \<sigma>1 = (\<lambda>l. locks \<sigma> l \<and> l \<notin> set ls)" "core_ok idle (if again then {curr \<sigma>1 p} else {}) {} \<sigma>1"
    "again \<longrightarrow> (\<exists>th. threads \<sigma>1 (curr \<sigma>1 p) = Some th \<and> tstate th = Finishing)"
    by (rule pass_None [OF less.prems])
  show ?case
  proof (cases again)
    case False
    with 1 have "switchThread p None ls \<sigma> = Some \<sigma>1" by (simp add: switchThread.simps)
    with 1 False show ?thesis by auto
  next
    case True
    with 1 obtain th1 where th1: "threads \<sigma>1 (curr \<sigma>1 p) = Some th1" "tstate th1 = Finishing" by blast
    have "ready_size p \<sigma>1 < ready_size p \<sigma>" using switch_pass_smaller [of p ls \<sigma> \<sigma>1] 1(1) True by simp
    from less.hyps [OF this, of th1 "[]"] 1 th1 True less.prems(2) obtain \<sigma>2 where
      2: "switchThread p None [] \<sigma>1 = Some \<sigma>2" "switched p \<sigma>1 \<sigma>2" "locks \<sigma>2 = locks \<sigma>1" "core_ok idle {} {} \<sigma>2"
      by (auto simp: switched_def)
    with 1 True have "switchThread p None ls \<sigma> = Some \<sigma>2" by (simp add: switchThread.simps [of p None ls \<sigma>])
    with 1(2,3) 2 show ?thesis using switched_trans by auto
  qed
qed

subsection \<open>Switching to another processor or back to the queue\<close>

lemma pass_Some:
  assumes core: "core_ok idle {} {} \<sigma>" and p: "p < nproc \<sigma>" and s: "s < nproc \<sigma>" "curr \<sigma> p = idle p \<Longrightarrow> s = p"
    and lk: "cpus \<sigma> p = held_cpu 1"
  obtains \<sigma>' again where "switch_pass p (Some s) [] \<sigma> = Some (\<sigma>', again)" "switched p \<sigma> \<sigma>'"
    "locks \<sigma>' = locks \<sigma>" "core_ok idle (if again then {curr \<sigma>' p} else {}) {} \<sigma>'"
    "again \<longrightarrow> (\<exists>th. threads \<sigma>' (curr \<sigma>' p) = Some th \<and> tstate th = Finishing)"
proof -
  define \<sigma>1 where "\<sigma>1 = set_sched p ((scheds \<sigma> p)\<lparr>preemption := preemption (scheds \<sigma> p) + 1\<rparr>) \<sigma>"
  have f1: "nproc \<sigma>1 = nproc \<sigma>" "curr \<sigma>1 = curr \<sigma>" "threads \<sigma>1 = threads \<sigma>" "cpus \<sigma>1 = cpus \<sigma>" "locks \<sigma>1 = locks \<sigma>"
    "waitq \<sigma>1 = waitq \<sigma>" "timeouts \<sigma>1 = timeouts \<sigma>" by (simp_all add: \<sigma>1_def set_sched_def)
  have core1: "core_ok idle {} {} \<sigma>1" using core unfolding \<sigma>1_def core_preemption .
  have p1: "p < nproc \<sigma>1" using p f1 by simp
  have min: "CHECK_LOCK_MIN p 0 \<sigma>1 = Some ()" using check_min [of \<sigma>1 p 1 0] lk f1 by simp
  let ?k = "if Some s = Some p then idlePriority else maxPriority"
  let ?c = "curr \<sigma> p"
  have "count (placed \<sigma>) ?c \<noteq> 0"
  proof -
    have "(\<Sum>p<nproc \<sigma>. {#curr \<sigma> p#}) = {#?c#} + (\<Sum>p\<in>{..<nproc \<sigma>} - {p}. {#curr \<sigma> p#})"
      using p by (intro sum.remove) simp_all
    then show ?thesis by (simp add: placed_def)
  qed
  then have "active \<sigma> ?c" using core by (auto simp: core_ok_def place_inv_def split: if_splits)
  then obtain th where c: "threads \<sigma> ?c = Some th" "tstate th \<in> {Running, Cancelled}" by (auto simp: active_def)
  show ?thesis
  proof (cases "find_ready ?k (readyQueue (scheds \<sigma>1 p))")
    case None
    then have "switch_pass p (Some s) [] \<sigma> = Some (\<sigma>1, False)"
      using min by (simp add: switch_pass_def Let_def \<sigma>1_def [symmetric])
    moreover have "switched p \<sigma> \<sigma>1" using f1 lk by (auto simp: switched_def blocked_view_def fun_eq_iff)
    ultimately show ?thesis using core1 f1 by (intro that [of \<sigma>1 False]) simp_all
  next
    case (Some x)
    then obtain n qs where f: "find_ready ?k (readyQueue (scheds \<sigma>1 p)) = Some (n, qs)" by (cases x) auto
    obtain nt where nt: "threads \<sigma>1 n = Some nt" "n \<noteq> curr \<sigma>1 p" "active \<sigma>1 n" "tstate nt \<in> {Running, Cancelled}"
      by (rule ready_thread [OF core1 p1 f]) simp_all
    define sc where "sc = (scheds \<sigma>1 p)\<lparr>readyQueue := qs, readyCount := readyCount (scheds \<sigma>1 p) - 1, resumption := resumption (scheds \<sigma>1 p) + 1\<rparr>"
    define \<sigma>4 where "\<sigma>4 = \<sigma>1\<lparr>scheds := (scheds \<sigma>1)(p := sc), threads := (threads \<sigma>1)(?c \<mapsto> th\<lparr>nextScheduler := Some s\<rparr>),
      curr := (curr \<sigma>1)(p := n)\<rparr>"
    let ?m = "set_th n (arrive nt) \<sigma>4"
    have mid: "core_ok idle (if must_finish nt then {n} else {}) {?c} ?m"
    proof -
      have "core_ok idle (if must_finish nt then {n} else {}) (if ({} :: nat set) = {} then {curr \<sigma>1 p} else {}) ?m"
        by (rule switch_core [OF core1 p1 _ _ f nt(1,2), where r = s and sc = sc and th = th])
          (use c nt f1 p1 s in \<open>auto simp: \<sigma>4_def sc_def set_th_def\<close>)
      then show ?thesis by (simp add: f1)
    qed
    have cm: "threads ?m ?c = Some (th\<lparr>nextScheduler := Some s\<rparr>)" using nt(2) f1 by (simp add: \<sigma>4_def set_th_def)
    have home: "r = s" if "r < nproc ?m" "idle r = ?c" for r
      using that idle_home [OF core _ p, of r] s(2) by (simp add: \<sigma>4_def set_th_def f1)
    have act: "active ?m ?c \<or> ?c \<in> (if must_finish nt then {n} else {})" using cm c(2) by (simp add: active_def)
    have sm: "s < nproc ?m" using s(1) by (simp add: \<sigma>4_def set_th_def f1)
    obtain i sc' where e: "enqueue s ?c ?m = Some (?m\<lparr>ipis := i, scheds := (scheds ?m)(s := sc')\<rparr>)"
      "core_ok idle (if must_finish nt then {n} else {}) {} (?m\<lparr>ipis := i, scheds := (scheds ?m)(s := sc')\<rparr>)"
      by (rule enqueue_core [OF mid cm act _ sm home]) simp
    let ?f = "?m\<lparr>ipis := i, scheds := (scheds ?m)(s := sc')\<rparr>"
    have "n \<noteq> ?c" using nt(2) f1 by simp
    with e(1) obtain \<sigma>5 where e5: "enqueue s ?c \<sigma>4 = Some \<sigma>5" "set_th n (arrive nt) \<sigma>5 = ?f"
      unfolding enqueue_set_th [OF \<open>n \<noteq> ?c\<close>] by (cases "enqueue s ?c \<sigma>4") auto
    note K = enqueue_keeps [OF e5(1)]
    have f4: "threads \<sigma>4 ?c = Some (th\<lparr>nextScheduler := Some s\<rparr>)" "threads \<sigma>4 n = Some nt" "curr \<sigma>4 p = n" "cpus \<sigma>4 = cpus \<sigma>"
      using nt(1,2) f1 by (simp_all add: \<sigma>4_def)
    have st: "switch_to p (Some s) [] n qs \<sigma>1 = Some (?f, must_finish nt)"
    proof -
      have "switch_to p (Some s) [] n qs \<sigma>1 = do {
         CHECK_LOCK_COUNT p 1 (\<sigma>1\<lparr>scheds := (scheds \<sigma>1)(p := sc), threads := (threads \<sigma>1)(?c \<mapsto> th\<lparr>nextScheduler := Some s\<rparr>)\<rparr>);
         \<sigma>5 \<leftarrow> postSwitch p ?c (Some s) \<sigma>4;
         \<sigma>6 \<leftarrow> postResume p ?c \<sigma>5;
         nt \<leftarrow> threads \<sigma>6 n;
         (if fresh nt then Some (set_th n (nt\<lparr>fresh := False\<rparr>) \<sigma>6, False)
          else if tstate nt = Cancelled then Some (set_th n (nt\<lparr>tstate := Finishing\<rparr>) \<sigma>6, True)
          else Some (\<sigma>6, False)) }"
        using c nt f1 by (simp add: switch_to_def Let_def set_defs \<sigma>4_def sc_def)
      moreover have "CHECK_LOCK_COUNT p 1 (\<sigma>1\<lparr>scheds := (scheds \<sigma>1)(p := sc), threads := (threads \<sigma>1)(?c \<mapsto> th\<lparr>nextScheduler := Some s\<rparr>)\<rparr>) = Some ()"
        using f1 lk by (intro check_one) simp
      moreover have "postSwitch p ?c (Some s) \<sigma>4 = Some \<sigma>5"
        using check_one [of \<sigma>4 p] f4 lk e5(1) nt(2) f1 by (simp add: postSwitch_def rt_resume_def)
      moreover have "postResume p ?c \<sigma>5 = Some \<sigma>5"
        using check_one [of \<sigma>5 p] K f4 lk c(2) by (auto simp: postResume_def)
      ultimately show ?thesis
        using K f4 e5(2) set_th_idem [of \<sigma>5 n nt] by (simp add: arrive_def split: if_splits)
    qed
    have "switch_pass p (Some s) [] \<sigma> = Some (?f, must_finish nt)"
      using st f min by (simp add: switch_pass_def Let_def \<sigma>1_def [symmetric])
    moreover have "switched p \<sigma> ?f"
      using c nt arrive_keeps [of nt] f1 lk by (auto simp: switched_def \<sigma>4_def set_th_def blocked_view_def fun_eq_iff)
    moreover have "curr ?f p = n" "locks ?f = locks \<sigma>" "threads ?f n = Some (arrive nt)"
      by (simp_all add: \<sigma>4_def set_th_def f1)
    ultimately show ?thesis using e(2) arrive_keeps(5) [of nt]
      by (intro that [of ?f "must_finish nt"]) (auto split: if_splits)
  qed
qed

lemma switchThread_Some:
  assumes "core_ok idle {} {} \<sigma>" "p < nproc \<sigma>" "s < nproc \<sigma>" "curr \<sigma> p = idle p \<Longrightarrow> s = p" "cpus \<sigma> p = held_cpu 1"
  shows "\<exists>\<sigma>'. switchThread p (Some s) [] \<sigma> = Some \<sigma>' \<and> switched p \<sigma> \<sigma>' \<and> locks \<sigma>' = locks \<sigma> \<and> core_ok idle {} {} \<sigma>'"
proof -
  obtain \<sigma>1 again where 1: "switch_pass p (Some s) [] \<sigma> = Some (\<sigma>1, again)" "switched p \<sigma> \<sigma>1"
    "locks \<sigma>1 = locks \<sigma>" "core_ok idle (if again then {curr \<sigma>1 p} else {}) {} \<sigma>1"
    "again \<longrightarrow> (\<exists>th. threads \<sigma>1 (curr \<sigma>1 p) = Some th \<and> tstate th = Finishing)"
    by (rule pass_Some [OF assms])
  show ?thesis
  proof (cases again)
    case False
    with 1 have "switchThread p (Some s) [] \<sigma> = Some \<sigma>1" by (simp add: switchThread.simps)
    with 1 False show ?thesis by auto
  next
    case True
    with 1 obtain th where th: "threads \<sigma>1 (curr \<sigma>1 p) = Some th" "tstate th = Finishing" by blast
    have "p < nproc \<sigma>1" "cpus \<sigma>1 p = held_cpu 1" using 1(2) assms(2) by (simp_all add: switched_def)
    with switchThread_None [of idle \<sigma>1 p th "[]"] 1(4) th True obtain \<sigma>2 where
      2: "switchThread p None [] \<sigma>1 = Some \<sigma>2" "switched p \<sigma>1 \<sigma>2" "locks \<sigma>2 = locks \<sigma>1" "core_ok idle {} {} \<sigma>2" by auto
    with 1 True have "switchThread p (Some s) [] \<sigma> = Some \<sigma>2" by (simp add: switchThread.simps [of p "Some s" "[]" \<sigma>])
    with 1(2,3) 2 show ?thesis using switched_trans by auto
  qed
qed

end
