(* ===== verification/BlockingSync.thy ===== *)
theory BlockingSync
  imports Scheduling
begin

text \<open>
  Blocking, timeouts and cancellation: \<open>runtime/BlockingSync.h\<close> and \<open>Thread::cancel\<close>.

  A blocking queue and the lock that guards it are named by numbers; \<open>waitq\<close> of the runtime
  state holds the queues, \<open>timeouts\<close> the entries of \<open>Timeout::queue\<close> in the order of the
  multimap.  The information objects on the stack of a blocked thread (\<open>TimeoutInfo\<close>,
  \<open>BlockingInfo\<close>, \<open>TimeoutBlockingInfo\<close>) are the \<open>unblockInfo\<close> and \<open>timedOut\<close> of the thread.
  An operation that suspends its caller gives \<open>Suspended\<close>; what the call returns when the
  thread runs again is \<open>block_result\<close>.
\<close>

definition timeout_lock :: nat where "timeout_lock = 0"

datatype outcome = Returned bool | Suspended

definition block_result :: "thread \<Rightarrow> bool" where
  "block_result th = (\<not> timedOut th)"

section \<open>Timeouts\<close>

text \<open>\<open>multimap::insert\<close> puts a new entry behind those with the same key.\<close>

fun tmo_insert :: "mword \<Rightarrow> nat \<Rightarrow> (mword \<times> nat) list \<Rightarrow> (mword \<times> nat) list" where
  "tmo_insert k t [] = [(k, t)]"
| "tmo_insert k t ((k', t') # xs) = (if k < k' then (k, t) # (k', t') # xs else (k', t') # tmo_insert k t xs)"

definition tmo_erase :: "nat \<Rightarrow> (mword \<times> nat) list \<Rightarrow> (mword \<times> nat) list" where
  "tmo_erase t xs = filter (\<lambda>(k, t'). t' \<noteq> t) xs"

definition ti_suspend :: "nat \<Rightarrow> mword \<Rightarrow> rt \<Rightarrow> rt option" where
  "ti_suspend p timeout \<sigma> = do {
     \<sigma>1 \<leftarrow> rt_acquire p timeout_lock \<sigma>;
     (\<sigma>2, b) \<leftarrow> th_block p TimeoutInfo \<sigma>1;
     (if b then rt_suspend p [timeout_lock] (\<sigma>2\<lparr>timeouts := tmo_insert timeout (curr \<sigma>2 p) (timeouts \<sigma>2)\<rparr>)
      else rt_release p timeout_lock \<sigma>2) }"

definition tmo_sleep :: "nat \<Rightarrow> mword \<Rightarrow> rt \<Rightarrow> rt option" where
  "tmo_sleep p timeout \<sigma> = ti_suspend p timeout \<sigma>"

definition cancelTimeout :: "nat \<Rightarrow> nat \<Rightarrow> rt \<Rightarrow> rt option" where
  "cancelTimeout p t \<sigma> = do {
     th \<leftarrow> threads \<sigma> t;
     ubi \<leftarrow> unblockInfo th;
     (case ubi of BlockingInfo _ _ \<Rightarrow> Some \<sigma>
      | _ \<Rightarrow> do {
          \<sigma>1 \<leftarrow> rt_acquire p timeout_lock \<sigma>;
          rt_release p timeout_lock (\<sigma>1\<lparr>timeouts := tmo_erase t (timeouts \<sigma>1)\<rparr>) }) }"

section \<open>Blocking queues\<close>

definition dequeue :: "nat \<Rightarrow> nat \<Rightarrow> rt \<Rightarrow> rt" where
  "dequeue q t \<sigma> = \<sigma>\<lparr>waitq := (waitq \<sigma>)(q := remove1 t (waitq \<sigma> q))\<rparr>"

definition cancelBlocking :: "nat \<Rightarrow> nat \<Rightarrow> rt \<Rightarrow> rt option" where
  "cancelBlocking p t \<sigma> = do {
     th \<leftarrow> threads \<sigma> t;
     ubi \<leftarrow> unblockInfo th;
     (case ubi of TimeoutInfo \<Rightarrow> Some \<sigma>
      | BlockingInfo l q \<Rightarrow> do {
          \<sigma>1 \<leftarrow> rt_acquire p l (set_th t (th\<lparr>timedOut := True\<rparr>) \<sigma>);
          rt_release p l (dequeue q t \<sigma>1) }
      | TimeoutBlockingInfo l q \<Rightarrow> do {
          \<sigma>1 \<leftarrow> rt_acquire p l (set_th t (th\<lparr>timedOut := True\<rparr>) \<sigma>);
          rt_release p l (dequeue q t \<sigma>1) }) }"

text \<open>The constructor of \<open>BlockingInfo\<close> checks that the lock is held and clears \<open>timedOut\<close>.\<close>

definition bi_new :: "nat \<Rightarrow> nat \<Rightarrow> rt \<Rightarrow> rt option" where
  "bi_new p l \<sigma> = do {
     kassert (locks \<sigma> l);
     th \<leftarrow> threads \<sigma> (curr \<sigma> p);
     Some (set_th (curr \<sigma> p) (th\<lparr>timedOut := False\<rparr>) \<sigma>) }"

definition bi_suspend :: "nat \<Rightarrow> nat \<Rightarrow> nat \<Rightarrow> rt \<Rightarrow> (rt \<times> outcome) option" where
  "bi_suspend p l q \<sigma> = do {
     \<sigma>1 \<leftarrow> bi_new p l \<sigma>;
     (\<sigma>2, b) \<leftarrow> th_block p (BlockingInfo l q) \<sigma>1;
     (if b then do {
        \<sigma>3 \<leftarrow> rt_suspend p [l] (\<sigma>2\<lparr>waitq := (waitq \<sigma>2)(q := waitq \<sigma>2 q @ [curr \<sigma>2 p])\<rparr>);
        Some (\<sigma>3, Suspended) }
      else do { \<sigma>3 \<leftarrow> rt_release p l \<sigma>2; Some (\<sigma>3, Returned False) }) }"

definition tbi_suspend :: "nat \<Rightarrow> nat \<Rightarrow> nat \<Rightarrow> mword \<Rightarrow> rt \<Rightarrow> (rt \<times> outcome) option" where
  "tbi_suspend p l q timeout \<sigma> = do {
     \<sigma>0 \<leftarrow> bi_new p l \<sigma>;
     \<sigma>1 \<leftarrow> rt_acquire p timeout_lock \<sigma>0;
     (\<sigma>2, b) \<leftarrow> th_block p (TimeoutBlockingInfo l q) \<sigma>1;
     (if b then do {
        \<sigma>3 \<leftarrow> rt_suspend p [l, timeout_lock]
          (\<sigma>2\<lparr>waitq := (waitq \<sigma>2)(q := waitq \<sigma>2 q @ [curr \<sigma>2 p]),
              timeouts := tmo_insert timeout (curr \<sigma>2 p) (timeouts \<sigma>2)\<rparr>);
        Some (\<sigma>3, Suspended) }
      else do {
        \<sigma>3 \<leftarrow> rt_release p timeout_lock \<sigma>2;
        \<sigma>4 \<leftarrow> rt_release p l \<sigma>3;
        Some (\<sigma>4, Returned False) }) }"

definition bq_block :: "nat \<Rightarrow> nat \<Rightarrow> nat \<Rightarrow> mword \<Rightarrow> rt \<Rightarrow> (rt \<times> outcome) option" where
  "bq_block p l q timeout \<sigma> =
     (if timeout = - 1 then bi_suspend p l q \<sigma>
      else if timeout > 0 then tbi_suspend p l q timeout \<sigma>
      else do { \<sigma>1 \<leftarrow> rt_release p l \<sigma>; Some (\<sigma>1, Returned False) })"

definition bq_empty :: "nat \<Rightarrow> rt \<Rightarrow> bool" where
  "bq_empty q \<sigma> = (waitq \<sigma> q = [])"

fun resume_loop :: "nat \<Rightarrow> nat \<Rightarrow> nat \<Rightarrow> nat list \<Rightarrow> rt \<Rightarrow> (rt \<times> nat option) option" where
  "resume_loop p l q [] \<sigma> = Some (\<sigma>, None)"
| "resume_loop p l q (t # ts) \<sigma> = do {
     (\<sigma>1, b) \<leftarrow> th_unblock p t \<sigma>;
     (if b then do {
        \<sigma>2 \<leftarrow> rt_release p l (dequeue q t \<sigma>1);
        \<sigma>3 \<leftarrow> cancelTimeout p t \<sigma>2;
        \<sigma>4 \<leftarrow> rt_resume p t \<sigma>3;
        Some (\<sigma>4, Some t) }
      else resume_loop p l q ts \<sigma>1) }"

definition bq_resume :: "nat \<Rightarrow> nat \<Rightarrow> nat \<Rightarrow> rt \<Rightarrow> (rt \<times> nat option) option" where
  "bq_resume p l q \<sigma> = resume_loop p l q (waitq \<sigma> q) \<sigma>"

section \<open>Expiry and cancellation\<close>

fun expiry_loop :: "nat \<Rightarrow> mword \<Rightarrow> (mword \<times> nat) list \<Rightarrow> rt \<Rightarrow> ((mword \<times> nat) list \<times> nat list \<times> rt) option" where
  "expiry_loop p now [] \<sigma> = Some ([], [], \<sigma>)"
| "expiry_loop p now ((k, t) # xs) \<sigma> = (if k \<le> now then do {
       (\<sigma>1, b) \<leftarrow> th_unblock p t \<sigma>;
       (kept, fired, \<sigma>2) \<leftarrow> expiry_loop p now xs \<sigma>1;
       Some (if b then (kept, t # fired, \<sigma>2) else ((k, t) # kept, fired, \<sigma>2)) }
     else Some ((k, t) # xs, [], \<sigma>))"

fun fire_loop :: "nat \<Rightarrow> nat list \<Rightarrow> rt \<Rightarrow> rt option" where
  "fire_loop p [] \<sigma> = Some \<sigma>"
| "fire_loop p (t # ts) \<sigma> = do {
     \<sigma>1 \<leftarrow> cancelBlocking p t \<sigma>;
     \<sigma>2 \<leftarrow> rt_resume p t \<sigma>1;
     fire_loop p ts \<sigma>2 }"

definition checkExpiry :: "nat \<Rightarrow> mword \<Rightarrow> rt \<Rightarrow> rt option" where
  "checkExpiry p now \<sigma> = do {
     \<sigma>1 \<leftarrow> rt_acquire p timeout_lock \<sigma>;
     (kept, fired, \<sigma>2) \<leftarrow> expiry_loop p now (timeouts \<sigma>1) \<sigma>1;
     \<sigma>3 \<leftarrow> rt_release p timeout_lock (\<sigma>2\<lparr>timeouts := kept\<rparr>);
     fire_loop p fired \<sigma>3 }"

definition th_cancel :: "nat \<Rightarrow> nat \<Rightarrow> rt \<Rightarrow> rt option" where
  "th_cancel p t \<sigma> = do {
     kassert (t \<noteq> curr \<sigma> p);
     th \<leftarrow> threads \<sigma> t;
     let \<sigma>1 = set_th t (th\<lparr>tstate := Cancelled\<rparr>) \<sigma>;
     (if tstate th = Blocked then do {
        \<sigma>2 \<leftarrow> cancelTimeout p t \<sigma>1;
        \<sigma>3 \<leftarrow> cancelBlocking p t \<sigma>2;
        rt_resume p t \<sigma>3 }
      else Some \<sigma>1) }"

section \<open>\<open>Mutex\<close> and \<open>OwnerLock\<close>\<close>

record mutex =
  mlock :: nat
  mbq :: nat
  mowner :: "nat option"

definition internalAcquire :: "nat \<Rightarrow> bool \<Rightarrow> mword \<Rightarrow> mutex \<times> rt \<Rightarrow> ((mutex \<times> rt) \<times> outcome) option" where
  "internalAcquire p ownerLock timeout = (\<lambda>(m, \<sigma>).
     if mowner m = Some (curr \<sigma> p) then do { kassert ownerLock; Some ((m, \<sigma>), Returned True) }
     else do {
       \<sigma>1 \<leftarrow> rt_acquire p (mlock m) \<sigma>;
       (if mowner m \<noteq> None then do { (\<sigma>2, r) \<leftarrow> bq_block p (mlock m) (mbq m) timeout \<sigma>1; Some ((m, \<sigma>2), r) }
        else do {
          \<sigma>2 \<leftarrow> rt_release p (mlock m) \<sigma>1;
          Some ((m\<lparr>mowner := Some (curr \<sigma> p)\<rparr>, \<sigma>2), Returned True) }) })"

definition internalRelease :: "nat \<Rightarrow> mutex \<times> rt \<Rightarrow> (mutex \<times> rt) option" where
  "internalRelease p = (\<lambda>(m, \<sigma>). do {
     (\<sigma>1, t) \<leftarrow> bq_resume p (mlock m) (mbq m) \<sigma>;
     (case t of Some t \<Rightarrow> Some (m\<lparr>mowner := Some t\<rparr>, \<sigma>1)
      | None \<Rightarrow> do { \<sigma>2 \<leftarrow> rt_release p (mlock m) \<sigma>1; Some (m\<lparr>mowner := None\<rparr>, \<sigma>2) }) })"

definition Mutex_acquire :: "nat \<Rightarrow> mutex \<times> rt \<Rightarrow> ((mutex \<times> rt) \<times> outcome) option" where
  "Mutex_acquire p = internalAcquire p False (- 1)"

definition Mutex_tryAcquire :: "nat \<Rightarrow> mword \<Rightarrow> mutex \<times> rt \<Rightarrow> ((mutex \<times> rt) \<times> outcome) option" where
  "Mutex_tryAcquire p t = internalAcquire p False t"

definition Mutex_release :: "nat \<Rightarrow> mutex \<times> rt \<Rightarrow> (mutex \<times> rt) option" where
  "Mutex_release p = (\<lambda>(m, \<sigma>). do {
     kassert (mowner m = Some (curr \<sigma> p));
     \<sigma>1 \<leftarrow> rt_acquire p (mlock m) \<sigma>;
     internalRelease p (m, \<sigma>1) })"

text \<open>
  \<open>OwnerLock\<close> counts the acquisitions of its owner.  A suspended caller increments the
  counter when it runs again and its wait was not interrupted (\<open>OwnerLock_resumed\<close>).
\<close>

definition OwnerLock_acquire :: "nat \<Rightarrow> mword \<Rightarrow> (mutex \<times> mword) \<times> rt \<Rightarrow> (((mutex \<times> mword) \<times> rt) \<times> mword option) option" where
  "OwnerLock_acquire p t = (\<lambda>((m, counter), \<sigma>). do {
     ((m1, \<sigma>1), r) \<leftarrow> internalAcquire p True t (m, \<sigma>);
     Some (case r of Returned True \<Rightarrow> (((m1, counter + 1), \<sigma>1), Some (counter + 1))
       | Returned False \<Rightarrow> (((m1, counter), \<sigma>1), Some 0)
       | Suspended \<Rightarrow> (((m1, counter), \<sigma>1), None)) })"

definition OwnerLock_resumed :: "thread \<Rightarrow> mword \<Rightarrow> mword \<times> mword" where
  "OwnerLock_resumed th counter = (if block_result th then (counter + 1, counter + 1) else (counter, 0))"

definition OwnerLock_release :: "nat \<Rightarrow> (mutex \<times> mword) \<times> rt \<Rightarrow> (((mutex \<times> mword) \<times> rt) \<times> mword) option" where
  "OwnerLock_release p = (\<lambda>((m, counter), \<sigma>). do {
     kassert (mowner m = Some (curr \<sigma> p));
     \<sigma>1 \<leftarrow> rt_acquire p (mlock m) \<sigma>;
     let counter' = counter - 1;
     (if counter' = 0 then do { (m', \<sigma>2) \<leftarrow> internalRelease p (m, \<sigma>1); Some (((m', counter'), \<sigma>2), counter') }
      else do { \<sigma>2 \<leftarrow> rt_release p (mlock m) \<sigma>1; Some (((m, counter'), \<sigma>2), counter') }) })"

section \<open>\<open>Semaphore\<close> and \<open>Condition\<close>\<close>

record semaphore =
  slock :: nat
  sbq :: nat
  scounter :: mword

definition sem_init :: "nat \<Rightarrow> nat \<Rightarrow> mword \<Rightarrow> semaphore" where
  "sem_init l q c = \<lparr>slock = l, sbq = q, scounter = c\<rparr>"

definition sem_P :: "nat \<Rightarrow> mword \<Rightarrow> semaphore \<times> rt \<Rightarrow> ((semaphore \<times> rt) \<times> outcome) option" where
  "sem_P p timeout = (\<lambda>(s, \<sigma>). do {
     \<sigma>1 \<leftarrow> rt_acquire p (slock s) \<sigma>;
     (if scounter s < 1 then do { (\<sigma>2, r) \<leftarrow> bq_block p (slock s) (sbq s) timeout \<sigma>1; Some ((s, \<sigma>2), r) }
      else do {
        \<sigma>2 \<leftarrow> rt_release p (slock s) \<sigma>1;
        Some ((s\<lparr>scounter := scounter s - 1\<rparr>, \<sigma>2), Returned True) }) })"

definition sem_V :: "nat \<Rightarrow> semaphore \<times> rt \<Rightarrow> (semaphore \<times> rt) option" where
  "sem_V p = (\<lambda>(s, \<sigma>). do {
     \<sigma>1 \<leftarrow> rt_acquire p (slock s) \<sigma>;
     (\<sigma>2, t) \<leftarrow> bq_resume p (slock s) (sbq s) \<sigma>1;
     (case t of Some t \<Rightarrow> Some (s, \<sigma>2)
      | None \<Rightarrow> do { \<sigma>3 \<leftarrow> rt_release p (slock s) \<sigma>2; Some (s\<lparr>scounter := scounter s + 1\<rparr>, \<sigma>3) }) })"

definition cond_wait :: "nat \<Rightarrow> nat \<Rightarrow> nat \<Rightarrow> rt \<Rightarrow> (rt \<times> outcome) option" where
  "cond_wait p l q \<sigma> = bq_block p l q (- 1) \<sigma>"

definition cond_signal :: "nat \<Rightarrow> nat \<Rightarrow> nat \<Rightarrow> rt \<Rightarrow> rt option" where
  "cond_signal p l q \<sigma> = do {
     (\<sigma>1, t) \<leftarrow> bq_resume p l q \<sigma>;
     (if t = None then rt_release p l \<sigma>1 else Some \<sigma>1) }"

end
