(* ===== verification/SchedulerOps.thy ===== *)
theory SchedulerOps
  imports Scheduling
begin

text \<open>
  The operations of \<open>runtime/Scheduler.cc\<close> keep the invariant of \<open>Scheduling\<close>: no assertion
  fails, no thread is lost or put in two places, and the locks and interrupt flags are left
  as the callers expect them.
\<close>

section \<open>Changing the state of a thread\<close>

definition no_idle :: "(nat \<Rightarrow> nat) \<Rightarrow> nat \<Rightarrow> rt \<Rightarrow> bool" where
  "no_idle idle t \<sigma> = (\<forall>r<nproc \<sigma>. idle r \<noteq> t)"

text \<open>
  Changing the state of a thread that is not an idle thread keeps the invariant when the
  thread is still counted in the same places.
\<close>

lemma core_set_th:
  assumes core: "core_ok idle X Y \<sigma>" and t: "threads \<sigma> t = Some th" "no_idle idle t \<sigma>"
    and same: "priority th' = priority th" "nextScheduler th' = nextScheduler th" "affinity th' = affinity th"
    and X: "\<And>u. u \<noteq> t \<Longrightarrow> u \<in> X' \<longleftrightarrow> u \<in> X" "\<And>u. u \<noteq> t \<Longrightarrow> u \<in> Y' \<longleftrightarrow> u \<in> Y"
    and place: "((tstate th' \<in> {Running, Cancelled} \<or> t \<in> X') \<and> t \<notin> Y') = ((tstate th \<in> {Running, Cancelled} \<or> t \<in> X) \<and> t \<notin> Y)"
    and fin: "tstate th' = Finishing \<Longrightarrow> t \<in> X'"
  shows "core_ok idle X' Y' (set_th t th' \<sigma>)"
proof -
  let ?\<sigma> = "set_th t th' \<sigma>"
  have inv: "place_inv X Y \<sigma>" "sched_ok \<sigma>" "thread_ok \<sigma>" "idle_ok idle Y \<sigma>" "fin_ok X \<sigma>" using core by (simp_all add: core_ok_def)
  have f: "nproc ?\<sigma> = nproc \<sigma>" "scheds ?\<sigma> = scheds \<sigma>" "curr ?\<sigma> = curr \<sigma>" "threads ?\<sigma> = (threads \<sigma>)(t \<mapsto> th')"
    by (simp_all add: set_th_def)
  have pl: "placed ?\<sigma> = placed \<sigma>" by (simp add: placed_def f)
  have "place_inv X' Y' ?\<sigma>" unfolding place_inv_def
  proof
    fix u
    have c: "count (placed \<sigma>) u = (if (active \<sigma> u \<or> u \<in> X) \<and> u \<notin> Y then 1 else 0)" using inv(1) by (simp add: place_inv_def)
    show "count (placed ?\<sigma>) u = (if (active ?\<sigma> u \<or> u \<in> X') \<and> u \<notin> Y' then 1 else 0)"
    proof (cases "u = t")
      case True
      have "active ?\<sigma> t = (tstate th' \<in> {Running, Cancelled})" "active \<sigma> t = (tstate th \<in> {Running, Cancelled})"
        using t(1) by (simp_all add: active_def f)
      then show ?thesis using c place unfolding True pl by (simp only:)
    next
      case False
      then have "active ?\<sigma> u = active \<sigma> u" by (simp add: active_def f)
      then show ?thesis using c X [OF False] unfolding pl by (simp only:)
    qed
  qed
  moreover have "sched_ok ?\<sigma>"
    unfolding sched_ok_def f
  proof (intro allI impI conjI ballI)
    fix s assume s: "s < nproc \<sigma>"
    show "length (readyQueue (scheds \<sigma> s)) = maxPriority" "partner (scheds \<sigma> s) < nproc \<sigma>"
      "readyCount (scheds \<sigma> s) = of_nat (ready_size s ?\<sigma>)" using inv(2) s by (simp_all add: sched_ok_def ready_size_def f)
    fix i u assume "i < maxPriority" "u \<in> set (readyQueue (scheds \<sigma> s) ! i)"
    from ready_prio [OF inv(2) s this] show "\<exists>x. ((threads \<sigma>)(t \<mapsto> th')) u = Some x \<and> priority x = i"
      using t(1) same(1) by auto
  qed
  moreover have "thread_ok ?\<sigma>" using inv(3) t(1) same by (auto simp: thread_ok_def f split: if_splits)
  moreover have "idle_ok idle Y' ?\<sigma>" unfolding idle_ok_def f
  proof (intro allI impI conjI)
    fix s assume s: "s < nproc \<sigma>"
    then have n: "idle s \<noteq> t" using t(2) by (simp add: no_idle_def)
    show "\<exists>x. ((threads \<sigma>)(t \<mapsto> th')) (idle s) = Some x \<and> is_idle s x" using inv(4) s n by (simp add: idle_ok_def)
    show "idle s \<in> Y' \<or> curr \<sigma> s = idle s \<or> idle s \<in> set (readyQueue (scheds \<sigma> s) ! idlePriority)"
      using inv(4) s X(2) [OF n] by (auto simp: idle_ok_def)
  qed
  moreover have "fin_ok X' ?\<sigma>" using inv(5) fin X(1) by (auto simp: fin_ok_def f split: if_splits)
  ultimately show ?thesis by (simp add: core_ok_def)
qed

lemma core_fields:
  assumes "nproc \<sigma>' = nproc \<sigma>" "scheds \<sigma>' = scheds \<sigma>" "curr \<sigma>' = curr \<sigma>" "threads \<sigma>' = threads \<sigma>"
  shows "core_ok idle X Y \<sigma>' = core_ok idle X Y \<sigma>"
  by (simp only: core_ok_def place_inv_def placed_def active_def sched_ok_def ready_size_def thread_ok_def idle_ok_def fin_ok_def assms)

lemma curr_active:
  assumes "core_ok idle {} {} \<sigma>" "p < nproc \<sigma>"
  obtains th where "threads \<sigma> (curr \<sigma> p) = Some th" "tstate th \<in> {Running, Cancelled}"
proof -
  have "(\<Sum>p<nproc \<sigma>. {#curr \<sigma> p#}) = {#curr \<sigma> p#} + (\<Sum>p\<in>{..<nproc \<sigma>} - {p}. {#curr \<sigma> p#})"
    using assms(2) by (intro sum.remove) simp_all
  then have "count (placed \<sigma>) (curr \<sigma> p) \<noteq> 0" by (simp add: placed_def)
  then have "active \<sigma> (curr \<sigma> p)" using assms(1) by (auto simp: core_ok_def place_inv_def split: if_splits)
  with that show ?thesis unfolding active_def by blast
qed

lemma cpu_locked:
  "cpus \<sigma> p = free_cpu \<Longrightarrow> lock_cpu p \<sigma> = Some (set_cpu p (held_cpu 1) \<sigma>)"
  "cpus \<sigma> p = held_cpu 1 \<Longrightarrow> unlock_cpu p \<sigma> = Some (set_cpu p free_cpu \<sigma>)"
  by (simp_all add: lock_cpu_def unlock_cpu_def lp_lock_def lp_unlock_def lp_checkLock_def Let_def)

lemma fake_ok: "cpus \<sigma> p = held_cpu k \<Longrightarrow> fake_cpu p \<sigma> = Some (set_cpu p (held_cpu (Suc k)) \<sigma>)"
  by (simp add: fake_cpu_def lp_lockFake_def add.commute)

lemma core_set_cpu: "core_ok idle X Y (set_cpu p c \<sigma>) = core_ok idle X Y \<sigma>"
  by (rule core_fields) (simp_all add: set_cpu_def)

text \<open>What a thread switch as a whole leaves alone: other processors and all blocked threads.\<close>

definition undisturbed :: "nat \<Rightarrow> rt \<Rightarrow> rt \<Rightarrow> bool" where
  "undisturbed p \<sigma> \<sigma>' = (nproc \<sigma>' = nproc \<sigma> \<and> waitq \<sigma>' = waitq \<sigma> \<and> timeouts \<sigma>' = timeouts \<sigma> \<and>
     (\<forall>q. q \<noteq> p \<longrightarrow> curr \<sigma>' q = curr \<sigma> q \<and> cpus \<sigma>' q = cpus \<sigma> q) \<and> blocked_view \<sigma>' = blocked_view \<sigma>)"

lemma blocked_view_cpu: "blocked_view (set_cpu p c \<sigma>) = blocked_view \<sigma>"
  by (simp add: blocked_view_def set_cpu_def fun_eq_iff)

lemma switched_done:
  assumes "switched p (set_cpu p c \<sigma>) \<sigma>'"
  shows "undisturbed p \<sigma> (set_cpu p free_cpu \<sigma>')" "unlock_cpu p \<sigma>' = Some (set_cpu p free_cpu \<sigma>')"
proof -
  have "cpus \<sigma>' p = held_cpu 1" using assms by (simp add: switched_def set_cpu_def)
  then show "unlock_cpu p \<sigma>' = Some (set_cpu p free_cpu \<sigma>')" by (rule cpu_locked)
  show "undisturbed p \<sigma> (set_cpu p free_cpu \<sigma>')"
    using assms unfolding switched_def undisturbed_def blocked_view_cpu by (auto simp: set_cpu_def)
qed

lemma preempt_ok:
  assumes core: "core_ok idle {} {} \<sigma>" and p: "p < nproc \<sigma>" and lk: "cpus \<sigma> p = held_cpu 1"
  shows "\<exists>\<sigma>'. preempt p \<sigma> = Some \<sigma>' \<and> switched p \<sigma> \<sigma>' \<and> locks \<sigma>' = locks \<sigma> \<and> core_ok idle {} {} \<sigma>'"
proof -
  obtain th where th: "threads \<sigma> (curr \<sigma> p) = Some th" "tstate th \<in> {Running, Cancelled}" by (rule curr_active [OF core p])
  define wish where "wish = (if affinityMask th = 0 then getAffinity th else None)"
  define s where "s = (case wish of Some s \<Rightarrow> s
     | None \<Rightarrow> if readyCount (scheds \<sigma> (partner (scheds \<sigma> p))) + 2 < readyCount (scheds \<sigma> p) then partner (scheds \<sigma> p) else p)"
  have "preempt p \<sigma> = switchThread p (Some s) [] \<sigma>" using th(1) by (simp add: preempt_def s_def wish_def Let_def)
  moreover have "s < nproc \<sigma>"
    using core p th(1) by (auto simp: s_def wish_def getAffinity_def core_ok_def sched_ok_def thread_ok_def split: option.splits)
  moreover have "s = p" if "curr \<sigma> p = idle p"
  proof -
    obtain x where "threads \<sigma> (idle p) = Some x" "is_idle p x" by (rule idle_thread [OF core p])
    then have "is_idle p th" using th(1) that by simp
    then show ?thesis by (simp add: is_idle_def s_def wish_def getAffinity_def)
  qed
  ultimately show ?thesis using switchThread_Some [OF core p _ _ lk, of s] by simp
qed

lemma yield_ok:
  assumes core: "core_ok idle {} {} \<sigma>" and p: "p < nproc \<sigma>" and lk: "cpus \<sigma> p = free_cpu"
  shows "\<exists>\<sigma>'. rt_yield p \<sigma> = Some \<sigma>' \<and> undisturbed p \<sigma> \<sigma>' \<and> cpus \<sigma>' p = free_cpu \<and> locks \<sigma>' = locks \<sigma> \<and> core_ok idle {} {} \<sigma>'"
proof -
  let ?\<sigma> = "set_cpu p (held_cpu 1) \<sigma>"
  have "core_ok idle {} {} ?\<sigma>" "p < nproc ?\<sigma>" "cpus ?\<sigma> p = held_cpu 1"
    using core p unfolding core_set_cpu by (simp_all add: set_cpu_def)
  from preempt_ok [OF this] obtain \<sigma>1 where 1: "preempt p ?\<sigma> = Some \<sigma>1" "switched p ?\<sigma> \<sigma>1" "locks \<sigma>1 = locks ?\<sigma>" "core_ok idle {} {} \<sigma>1"
    by blast
  note d = switched_done [OF 1(2)]
  have "rt_yield p \<sigma> = Some (set_cpu p free_cpu \<sigma>1)"
    using cpu_locked(1) [OF lk] 1(1) d(2) by (simp add: rt_yield_def)
  moreover have "core_ok idle {} {} (set_cpu p free_cpu \<sigma>1)" unfolding core_set_cpu by (rule 1(4))
  moreover have "cpus (set_cpu p free_cpu \<sigma>1) p = free_cpu" "locks (set_cpu p free_cpu \<sigma>1) = locks \<sigma>"
    using 1(3) by (simp_all add: set_cpu_def)
  ultimately show ?thesis using d(1) by blast
qed

lemma suspend_ok:
  assumes core: "core_ok idle {curr \<sigma> p} {} \<sigma>" and p: "p < nproc \<sigma>"
    and c: "threads \<sigma> (curr \<sigma> p) = Some th" "tstate th = Blocked"
    and lk: "cpus \<sigma> p = held_cpu (length ls)" "length ls \<le> 2" "distinct ls" "\<forall>l\<in>set ls. locks \<sigma> l"
  shows "\<exists>\<sigma>'. rt_suspend p ls \<sigma> = Some \<sigma>' \<and> undisturbed p \<sigma> \<sigma>' \<and> cpus \<sigma>' p = free_cpu \<and>
    locks \<sigma>' = (\<lambda>l. locks \<sigma> l \<and> l \<notin> set ls) \<and> core_ok idle {} {} \<sigma>'"
proof -
  let ?\<sigma> = "set_cpu p (held_cpu (Suc (length ls))) \<sigma>"
  have f: "p < nproc ?\<sigma>" "curr ?\<sigma> = curr \<sigma>" "threads ?\<sigma> = threads \<sigma>" "locks ?\<sigma> = locks \<sigma>" "cpus ?\<sigma> p = held_cpu (Suc (length ls))"
    using p by (simp_all add: set_cpu_def)
  have c1: "core_ok idle {curr ?\<sigma> p} {} ?\<sigma>" using core f(2) unfolding core_set_cpu by simp
  have "\<exists>\<sigma>1. switchThread p None ls ?\<sigma> = Some \<sigma>1 \<and> switched p ?\<sigma> \<sigma>1 \<and>
      locks \<sigma>1 = (\<lambda>l. locks ?\<sigma> l \<and> l \<notin> set ls) \<and> core_ok idle {} {} \<sigma>1"
    by (rule switchThread_None [OF c1 f(1) _ _ f(5)]) (use c lk f in auto)
  then obtain \<sigma>1 where 1: "switchThread p None ls ?\<sigma> = Some \<sigma>1" "switched p ?\<sigma> \<sigma>1"
    "locks \<sigma>1 = (\<lambda>l. locks \<sigma> l \<and> l \<notin> set ls)" "core_ok idle {} {} \<sigma>1" using f(4) by auto
  note d = switched_done [OF 1(2)]
  have "rt_suspend p ls \<sigma> = Some (set_cpu p free_cpu \<sigma>1)"
    using fake_ok [OF lk(1)] 1(1) d(2) by (simp add: rt_suspend_def)
  moreover have "core_ok idle {} {} (set_cpu p free_cpu \<sigma>1)" unfolding core_set_cpu by (rule 1(4))
  moreover have "cpus (set_cpu p free_cpu \<sigma>1) p = free_cpu" "locks (set_cpu p free_cpu \<sigma>1) = locks \<sigma>1" by (simp_all add: set_cpu_def)
  ultimately show ?thesis using d(1) 1(3) by auto
qed

section \<open>Threads that end, start and become ready\<close>

lemma blocked_view_set_th:
  "blocked_view (set_th t x \<sigma>) = (blocked_view \<sigma>)(t := if tstate x = Blocked then Some (unblockInfo x) else None)"
  by (simp add: blocked_view_def set_th_def fun_eq_iff)

lemma blocked_view_not:
  "threads \<sigma> t = Some th \<Longrightarrow> tstate th \<noteq> Blocked \<Longrightarrow> blocked_view \<sigma> t = None"
  "threads \<sigma> t = None \<Longrightarrow> blocked_view \<sigma> t = None"
  by (simp_all add: blocked_view_def)

lemma set_th_fields [simp]:
  "nproc (set_th t x \<sigma>) = nproc \<sigma>" "curr (set_th t x \<sigma>) = curr \<sigma>" "cpus (set_th t x \<sigma>) = cpus \<sigma>"
  "locks (set_th t x \<sigma>) = locks \<sigma>" "waitq (set_th t x \<sigma>) = waitq \<sigma>" "timeouts (set_th t x \<sigma>) = timeouts \<sigma>"
  "scheds (set_th t x \<sigma>) = scheds \<sigma>" "threads (set_th t x \<sigma>) = (threads \<sigma>)(t \<mapsto> x)"
  by (simp_all add: set_th_def)

lemma set_cpu_fields [simp]:
  "nproc (set_cpu p c \<sigma>) = nproc \<sigma>" "curr (set_cpu p c \<sigma>) = curr \<sigma>" "cpus (set_cpu p c \<sigma>) = (cpus \<sigma>)(p := c)"
  "locks (set_cpu p c \<sigma>) = locks \<sigma>" "waitq (set_cpu p c \<sigma>) = waitq \<sigma>" "timeouts (set_cpu p c \<sigma>) = timeouts \<sigma>"
  "scheds (set_cpu p c \<sigma>) = scheds \<sigma>" "threads (set_cpu p c \<sigma>) = threads \<sigma>"
  by (simp_all add: set_cpu_def)

lemma terminate_ok:
  assumes core: "core_ok idle {} {} \<sigma>" and p: "p < nproc \<sigma>" and lk: "cpus \<sigma> p = free_cpu" and ni: "no_idle idle (curr \<sigma> p) \<sigma>"
  shows "\<exists>\<sigma>'. terminate p \<sigma> = Some \<sigma>' \<and> undisturbed p \<sigma> \<sigma>' \<and> cpus \<sigma>' p = free_cpu \<and> locks \<sigma>' = locks \<sigma> \<and>
    core_ok idle {} {} \<sigma>'"
proof -
  let ?c = "curr \<sigma> p"
  obtain th where th: "threads \<sigma> ?c = Some th" "tstate th \<in> {Running, Cancelled}" by (rule curr_active [OF core p])
  let ?base = "set_th ?c (th\<lparr>tstate := Finishing\<rparr>) \<sigma>"
  let ?\<sigma> = "set_th ?c (th\<lparr>tstate := Finishing\<rparr>) (set_cpu p (held_cpu 1) \<sigma>)"
  have comm: "?\<sigma> = set_cpu p (held_cpu 1) ?base" by (simp add: set_th_def set_cpu_def)
  have "core_ok idle {?c} {} ?base" by (rule core_set_th [OF core th(1) ni]) (use th in auto)
  then have c1: "core_ok idle {curr ?\<sigma> p} {} ?\<sigma>" unfolding comm core_set_cpu by simp
  have "\<exists>\<sigma>1. switchThread p None [] ?\<sigma> = Some \<sigma>1 \<and> switched p ?\<sigma> \<sigma>1 \<and>
      locks \<sigma>1 = (\<lambda>l. locks ?\<sigma> l \<and> l \<notin> set []) \<and> core_ok idle {} {} \<sigma>1"
    by (rule switchThread_None [OF c1, where th = "th\<lparr>tstate := Finishing\<rparr>"]) (use p in simp_all)
  then obtain \<sigma>1 where 1: "switchThread p None [] ?\<sigma> = Some \<sigma>1" "switched p ?\<sigma> \<sigma>1" "locks \<sigma>1 = locks \<sigma>" "core_ok idle {} {} \<sigma>1" by auto
  note d = switched_done [OF 1(2) [unfolded comm]]
  have st: "tstate th \<noteq> Blocked" using th(2) by auto
  have "terminate p \<sigma> = Some (set_cpu p free_cpu \<sigma>1)"
    using cpu_locked(1) [OF lk] 1(1) d(2) th(1) st by (simp add: terminate_def)
  moreover have "core_ok idle {} {} (set_cpu p free_cpu \<sigma>1)" unfolding core_set_cpu by (rule 1(4))
  moreover have "undisturbed p \<sigma> (set_cpu p free_cpu \<sigma>1)"
    using d(1) blocked_view_not(1) [OF th(1) st] unfolding undisturbed_def blocked_view_set_th by (simp add: fun_upd_idem)
  moreover have "cpus (set_cpu p free_cpu \<sigma>1) p = free_cpu" "locks (set_cpu p free_cpu \<sigma>1) = locks \<sigma>" using 1(3) by simp_all
  ultimately show ?thesis by blast
qed

text \<open>A thread that is in no queue and on no processor can be made ready.\<close>

lemma resume_ok:
  assumes core: "core_ok idle {} (insert t Y) \<sigma>" and t: "threads \<sigma> t = Some th" "tstate th \<in> {Running, Cancelled}" "t \<notin> Y"
    and p: "p < nproc \<sigma>" and ni: "no_idle idle t \<sigma>"
  shows "\<exists>i S. rt_resume p t \<sigma> = Some (\<sigma>\<lparr>ipis := i, scheds := S\<rparr>) \<and> core_ok idle {} Y (\<sigma>\<lparr>ipis := i, scheds := S\<rparr>)"
proof -
  have "place_inv {} (insert t Y) \<sigma>" using core by (simp add: core_ok_def)
  then have "count (placed \<sigma>) t = 0" by (simp add: place_inv_def)
  moreover have "(\<Sum>p<nproc \<sigma>. {#curr \<sigma> p#}) = {#curr \<sigma> p#} + (\<Sum>p\<in>{..<nproc \<sigma>} - {p}. {#curr \<sigma> p#})"
    using p by (intro sum.remove) simp_all
  ultimately have c: "t \<noteq> curr \<sigma> p" by (auto simp: placed_def)
  define s where "s = (case nextScheduler th of Some s \<Rightarrow> s | None \<Rightarrow> p)"
  have "s < nproc \<sigma>" using core t(1) p by (auto simp: s_def core_ok_def thread_ok_def split: option.splits)
  moreover have "active \<sigma> t \<or> t \<in> {}" using t by (simp add: active_def)
  moreover have "r = s" if "r < nproc \<sigma>" "idle r = t" for r using that ni by (simp add: no_idle_def)
  ultimately obtain i sc where "enqueue s t \<sigma> = Some (\<sigma>\<lparr>ipis := i, scheds := (scheds \<sigma>)(s := sc)\<rparr>)"
    "core_ok idle {} Y (\<sigma>\<lparr>ipis := i, scheds := (scheds \<sigma>)(s := sc)\<rparr>)"
    using enqueue_core [OF core t(1) _ t(3)] by blast
  moreover have "rt_resume p t \<sigma> = enqueue s t \<sigma>" using c t(1) by (simp add: rt_resume_def s_def split: option.splits)
  ultimately show ?thesis by auto
qed

definition new_ok :: "rt \<Rightarrow> thread \<Rightarrow> bool" where
  "new_ok \<sigma> th = (tstate th = Running \<and> priority th < maxPriority \<and> (\<forall>s. nextScheduler th = Some s \<longrightarrow> s < nproc \<sigma>) \<and>
     (affinity th \<longrightarrow> nextScheduler th \<noteq> None))"

lemma core_new:
  assumes core: "core_ok idle {} {} \<sigma>" and t: "threads \<sigma> t = None" and th: "new_ok \<sigma> th"
  shows "core_ok idle {} {t} (set_th t th \<sigma>)" "no_idle idle t \<sigma>"
proof -
  let ?\<sigma> = "set_th t th \<sigma>"
  have inv: "place_inv {} {} \<sigma>" "sched_ok \<sigma>" "thread_ok \<sigma>" "idle_ok idle {} \<sigma>" "fin_ok {} \<sigma>" using core by (simp_all add: core_ok_def)
  have n: "idle s \<noteq> t" if "s < nproc \<sigma>" for s using inv(4) that t by (auto simp: idle_ok_def)
  then show "no_idle idle t \<sigma>" by (simp add: no_idle_def)
  have "place_inv {} {t} ?\<sigma>" unfolding place_inv_def
  proof
    fix u
    have "placed ?\<sigma> = placed \<sigma>" by (simp add: placed_def)
    moreover have "count (placed \<sigma>) u = (if active \<sigma> u then 1 else 0)" using inv(1) by (simp add: place_inv_def)
    ultimately show "count (placed ?\<sigma>) u = (if (active ?\<sigma> u \<or> u \<in> {}) \<and> u \<notin> {t} then 1 else 0)"
      using t by (simp add: active_def)
  qed
  moreover have "sched_ok ?\<sigma>" unfolding sched_ok_def set_th_fields
  proof (intro allI impI conjI ballI)
    fix s assume s: "s < nproc \<sigma>"
    show "length (readyQueue (scheds \<sigma> s)) = maxPriority" "partner (scheds \<sigma> s) < nproc \<sigma>"
      "readyCount (scheds \<sigma> s) = of_nat (ready_size s ?\<sigma>)" using inv(2) s by (simp_all add: sched_ok_def ready_size_def)
    fix i u assume "i < maxPriority" "u \<in> set (readyQueue (scheds \<sigma> s) ! i)"
    from ready_prio [OF inv(2) s this] show "\<exists>x. ((threads \<sigma>)(t \<mapsto> th)) u = Some x \<and> priority x = i" using t by auto
  qed
  moreover have "thread_ok ?\<sigma>" using inv(3) th by (auto simp: thread_ok_def new_ok_def split: if_splits)
  moreover have "idle_ok idle {t} ?\<sigma>" using inv(4) n by (simp add: idle_ok_def)
  moreover have "fin_ok {} ?\<sigma>" using inv(5) th by (auto simp: fin_ok_def new_ok_def split: if_splits)
  ultimately show "core_ok idle {} {t} ?\<sigma>" by (simp add: core_ok_def)
qed

text \<open>\<open>Thread::create\<close>, the settings made before the start, and \<open>Thread::start\<close>.\<close>

definition spawn :: "nat \<Rightarrow> nat \<Rightarrow> (thread \<Rightarrow> thread) \<Rightarrow> vaddr \<Rightarrow> mword \<Rightarrow> rt \<Rightarrow> rt option" where
  "spawn p t settings mem ss \<sigma> = do {
     let \<sigma>1 = th_create t mem ss \<sigma>;
     th \<leftarrow> threads \<sigma>1 t;
     th_start p t (set_th t (settings th) \<sigma>1) }"

lemma spawn_ok:
  assumes core: "core_ok idle {} {} \<sigma>" and p: "p < nproc \<sigma>" and t: "threads \<sigma> t = None"
    and th: "new_ok \<sigma> (settings (th_new mem ss))"
  shows "\<exists>\<sigma>'. spawn p t settings mem ss \<sigma> = Some \<sigma>' \<and> undisturbed p \<sigma> \<sigma>' \<and> cpus \<sigma>' = cpus \<sigma> \<and> locks \<sigma>' = locks \<sigma> \<and>
    core_ok idle {} {} \<sigma>'"
proof -
  let ?th = "(settings (th_new mem ss))\<lparr>fresh := True\<rparr>" let ?\<sigma> = "set_th t ?th \<sigma>"
  have "new_ok \<sigma> ?th" using th by (simp add: new_ok_def)
  note c = core_new [OF core t this]
  have "\<exists>i S. rt_resume p t ?\<sigma> = Some (?\<sigma>\<lparr>ipis := i, scheds := S\<rparr>) \<and> core_ok idle {} {} (?\<sigma>\<lparr>ipis := i, scheds := S\<rparr>)"
    by (rule resume_ok [OF c(1), where th = ?th]) (use p c(2) th in \<open>simp_all add: new_ok_def no_idle_def\<close>)
  then obtain i S where r: "rt_resume p t ?\<sigma> = Some (?\<sigma>\<lparr>ipis := i, scheds := S\<rparr>)" "core_ok idle {} {} (?\<sigma>\<lparr>ipis := i, scheds := S\<rparr>)" by blast
  have "spawn p t settings mem ss \<sigma> = rt_resume p t ?\<sigma>" by (simp add: spawn_def th_create_def th_start_def set_th_def)
  moreover have "blocked_view (?\<sigma>\<lparr>ipis := i, scheds := S\<rparr>) = blocked_view \<sigma>"
    using th t by (auto simp: blocked_view_def new_ok_def fun_eq_iff)
  ultimately show ?thesis using r by (simp add: undisturbed_def)
qed

end
