(* ===== verification/BlockingOps.thy ===== *)
theory BlockingOps
  imports BlockingSync SchedulerOps
begin

text \<open>
  Blocking, waking, timeouts and cancellation keep track of every thread: a thread that
  exists is on a processor, or in one ready queue, or blocked and then in exactly the
  blocking queue and the timeout list that its \<open>UnblockInfo\<close> names.  Each call is one step;
  between steps all locks are free.
\<close>

section \<open>Where blocked threads are\<close>

fun on_queue :: "UnblockInfo option option \<Rightarrow> nat \<Rightarrow> bool" where
  "on_queue (Some (Some (BlockingInfo l q'))) q = (q = q')"
| "on_queue (Some (Some (TimeoutBlockingInfo l q'))) q = (q = q')"
| "on_queue _ q = False"

fun on_timer :: "UnblockInfo option option \<Rightarrow> bool" where
  "on_timer (Some (Some TimeoutInfo)) = True"
| "on_timer (Some (Some (TimeoutBlockingInfo l q))) = True"
| "on_timer _ = False"

definition block_ok :: "(nat \<Rightarrow> nat list) \<Rightarrow> (mword \<times> nat) list \<Rightarrow> (nat \<Rightarrow> UnblockInfo option option) \<Rightarrow> bool" where
  "block_ok w tm v = ((\<forall>q. distinct (w q) \<and> (\<forall>t. t \<in> set (w q) \<longleftrightarrow> on_queue (v t) q)) \<and>
     distinct (map snd tm) \<and> sorted (map fst tm) \<and> (\<forall>t. t \<in> snd ` set tm \<longleftrightarrow> on_timer (v t)) \<and> (\<forall>t. v t \<noteq> Some None))"

lemma set_tmo_insert: "set (tmo_insert k t xs) = insert (k, t) (set xs)"
  by (induction k t xs rule: tmo_insert.induct) (auto split: if_splits)

lemma sorted_tmo_insert: "sorted (map fst xs) \<Longrightarrow> sorted (map fst (tmo_insert k t xs))"
  by (induction k t xs rule: tmo_insert.induct) (auto simp: set_tmo_insert split: if_splits)

lemma distinct_tmo_insert: "distinct (map snd (tmo_insert k t xs)) \<longleftrightarrow> t \<notin> snd ` set xs \<and> distinct (map snd xs)"
  by (induction k t xs rule: tmo_insert.induct) (auto simp: set_tmo_insert image_iff split: if_splits)

lemma tmo_erase_facts:
  "snd ` set (tmo_erase t xs) = snd ` set xs - {t}" "sorted (map fst xs) \<Longrightarrow> sorted (map fst (tmo_erase t xs))"
  "distinct (map snd xs) \<Longrightarrow> distinct (map snd (tmo_erase t xs))" "t \<notin> snd ` set xs \<Longrightarrow> tmo_erase t xs = xs"
  unfolding tmo_erase_def
  by (force, simp add: sorted_filter, simp add: distinct_map_filter, force simp: filter_id_conv)

text \<open>A blocked thread leaves its queue and its timer, or enters them.\<close>

lemma block_leave:
  assumes "block_ok w tm v"
  shows "block_ok (\<lambda>q. remove1 t (w q)) (tmo_erase t tm) (v(t := None))"
  using assms tmo_erase_facts [where t = t and xs = tm] by (auto simp: block_ok_def set_remove1_eq)

lemma block_enter:
  assumes "block_ok w tm v" "v t = None" "u \<noteq> None"
  shows "block_ok (\<lambda>q. if on_queue (Some u) q then w q @ [t] else w q)
    (if on_timer (Some u) then tmo_insert k t tm else tm) (v(t := Some u))"
proof -
  have n: "t \<notin> set (w q)" "t \<notin> snd ` set tm" for q using assms(1,2) by (auto simp: block_ok_def)
  show ?thesis using assms n unfolding block_ok_def
    by (auto simp: set_tmo_insert sorted_tmo_insert distinct_tmo_insert)
qed

lemma remove1_other:
  assumes "block_ok w tm v" "\<not> on_queue (v t) q"
  shows "remove1 t (w q) = w q"
  using assms by (auto simp: block_ok_def intro!: remove1_idem)

section \<open>States between steps and inside a critical section\<close>

definition rt_ok :: "(nat \<Rightarrow> nat) \<Rightarrow> rt \<Rightarrow> bool" where
  "rt_ok idle \<sigma> = (core_ok idle {} {} \<sigma> \<and> block_ok (waitq \<sigma>) (timeouts \<sigma>) (blocked_view \<sigma>) \<and>
     (\<forall>p<nproc \<sigma>. cpus \<sigma> p = free_cpu) \<and> (\<forall>l. \<not> locks \<sigma> l))"

definition rt_cs :: "(nat \<Rightarrow> nat) \<Rightarrow> nat \<Rightarrow> nat \<Rightarrow> rt \<Rightarrow> bool" where
  "rt_cs idle p l \<sigma> = (core_ok idle {} {} \<sigma> \<and> block_ok (waitq \<sigma>) (timeouts \<sigma>) (blocked_view \<sigma>) \<and> p < nproc \<sigma> \<and>
     (\<forall>r<nproc \<sigma>. cpus \<sigma> r = (if r = p then held_cpu 1 else free_cpu)) \<and> locks \<sigma> = (\<lambda>x. x = l))"

lemma rt_acquire_eq:
  "cpus \<sigma> p = free_cpu \<Longrightarrow> \<not> locks \<sigma> l \<Longrightarrow>
     rt_acquire p l \<sigma> = Some (\<sigma>\<lparr>cpus := (cpus \<sigma>)(p := held_cpu 1), locks := (locks \<sigma>)(l := True)\<rparr>)"
  "cpus \<sigma> p = held_cpu 1 \<Longrightarrow> \<not> locks \<sigma> l \<Longrightarrow>
     rt_acquire p l \<sigma> = Some (\<sigma>\<lparr>cpus := (cpus \<sigma>)(p := held_cpu 2), locks := (locks \<sigma>)(l := True)\<rparr>)"
  by (simp_all add: rt_acquire_def lp_lock_def set_cpu_def Let_def)

lemma rt_release_eq:
  "cpus \<sigma> p = held_cpu 1 \<Longrightarrow> locks \<sigma> l \<Longrightarrow>
     rt_release p l \<sigma> = Some (\<sigma>\<lparr>cpus := (cpus \<sigma>)(p := free_cpu), locks := (locks \<sigma>)(l := False)\<rparr>)"
  "cpus \<sigma> p = held_cpu 2 \<Longrightarrow> locks \<sigma> l \<Longrightarrow>
     rt_release p l \<sigma> = Some (\<sigma>\<lparr>cpus := (cpus \<sigma>)(p := held_cpu 1), locks := (locks \<sigma>)(l := False)\<rparr>)"
  by (simp_all add: rt_release_def lp_unlock_def set_cpu_def Let_def)

lemma blocked_view_fields:
  "threads \<sigma>' = threads \<sigma> \<Longrightarrow> blocked_view \<sigma>' = blocked_view \<sigma>"
  by (simp add: blocked_view_def fun_eq_iff)

lemma enter_cs:
  assumes "rt_ok idle \<sigma>" "p < nproc \<sigma>"
  shows "\<exists>\<sigma>1. rt_acquire p l \<sigma> = Some \<sigma>1 \<and> rt_cs idle p l \<sigma>1 \<and> curr \<sigma>1 = curr \<sigma> \<and> threads \<sigma>1 = threads \<sigma> \<and>
    waitq \<sigma>1 = waitq \<sigma> \<and> timeouts \<sigma>1 = timeouts \<sigma> \<and> nproc \<sigma>1 = nproc \<sigma>"
proof -
  let ?\<sigma> = "\<sigma>\<lparr>cpus := (cpus \<sigma>)(p := held_cpu 1), locks := (locks \<sigma>)(l := True)\<rparr>"
  have "rt_acquire p l \<sigma> = Some ?\<sigma>" using assms by (intro rt_acquire_eq) (simp_all add: rt_ok_def)
  moreover have "(locks \<sigma>)(l := True) = (\<lambda>x. x = l)" using assms(1) by (auto simp: rt_ok_def fun_eq_iff)
  then have "rt_cs idle p l ?\<sigma>"
    using assms core_fields [of ?\<sigma> \<sigma> idle "{}" "{}"] blocked_view_fields [of ?\<sigma> \<sigma>] by (auto simp: rt_ok_def rt_cs_def)
  ultimately show ?thesis by simp
qed

lemma leave_cs:
  assumes "rt_cs idle p l \<sigma>"
  shows "\<exists>\<sigma>1. rt_release p l \<sigma> = Some \<sigma>1 \<and> rt_ok idle \<sigma>1 \<and> curr \<sigma>1 = curr \<sigma> \<and> threads \<sigma>1 = threads \<sigma> \<and>
    waitq \<sigma>1 = waitq \<sigma> \<and> timeouts \<sigma>1 = timeouts \<sigma> \<and> nproc \<sigma>1 = nproc \<sigma>"
proof -
  let ?\<sigma> = "\<sigma>\<lparr>cpus := (cpus \<sigma>)(p := free_cpu), locks := (locks \<sigma>)(l := False)\<rparr>"
  have "rt_release p l \<sigma> = Some ?\<sigma>" using assms by (intro rt_release_eq) (auto simp: rt_cs_def)
  moreover have "rt_ok idle ?\<sigma>"
    using assms core_fields [of ?\<sigma> \<sigma> idle "{}" "{}"] blocked_view_fields [of ?\<sigma> \<sigma>] by (auto simp: rt_ok_def rt_cs_def)
  ultimately show ?thesis by simp
qed

lemma blocked_not_idle:
  assumes "core_ok idle X Y \<sigma>" "threads \<sigma> t = Some th" "tstate th = Blocked"
  shows "no_idle idle t \<sigma>"
  unfolding no_idle_def
proof (intro allI impI)
  fix r assume "r < nproc \<sigma>"
  then obtain x where "threads \<sigma> (idle r) = Some x" "is_idle r x" using idle_thread [OF assms(1)] by blast
  then show "idle r \<noteq> t" using assms(2,3) by (auto simp: is_idle_def)
qed

lemma blocked_not_curr:
  assumes "core_ok idle {} {} \<sigma>" "threads \<sigma> t = Some th" "tstate th = Blocked" "p < nproc \<sigma>"
  shows "t \<noteq> curr \<sigma> p"
  using curr_active [OF assms(1,4)] assms(2,3) by fastforce

section \<open>Cancelling the wait of a thread\<close>

lemma cancelTimeout_eq:
  assumes "threads \<sigma> t = Some th" "unblockInfo th = Some u" "cpus \<sigma> p = free_cpu" "\<not> locks \<sigma> timeout_lock"
  shows "cancelTimeout p t \<sigma> = Some (if on_timer (Some (Some u)) then \<sigma>\<lparr>timeouts := tmo_erase t (timeouts \<sigma>)\<rparr> else \<sigma>)"
proof -
  have "(cpus \<sigma>)(p := free_cpu) = cpus \<sigma>" "(locks \<sigma>)(timeout_lock := False) = locks \<sigma>" using assms(3,4) by (auto simp: fun_eq_iff)
  then show ?thesis using assms by (cases u) (simp_all add: cancelTimeout_def rt_acquire_eq rt_release_eq)
qed

lemma cancelBlocking_eq:
  assumes "threads \<sigma> t = Some th" "unblockInfo th = Some u" "cpus \<sigma> p = free_cpu" "\<And>l. \<not> locks \<sigma> l"
  shows "cancelBlocking p t \<sigma> = Some (case u of TimeoutInfo \<Rightarrow> \<sigma>
     | BlockingInfo l q \<Rightarrow> dequeue q t (set_th t (th\<lparr>timedOut := True\<rparr>) \<sigma>)
     | TimeoutBlockingInfo l q \<Rightarrow> dequeue q t (set_th t (th\<lparr>timedOut := True\<rparr>) \<sigma>))"
proof -
  have "(cpus \<sigma>)(p := free_cpu) = cpus \<sigma>" "(locks \<sigma>)(l := False) = locks \<sigma>" for l using assms(3,4) by (auto simp: fun_eq_iff)
  then show ?thesis using assms by (cases u) (simp_all add: cancelBlocking_def rt_acquire_eq rt_release_eq dequeue_def set_th_def)
qed

text \<open>
  A blocked thread whose state has been changed to \<open>x\<close>, taken off its queue and its timer,
  is made ready.
\<close>

lemma wake_up:
  assumes core: "core_ok idle {} (insert t Y) \<sigma>" and bl: "block_ok w tm v" and v: "blocked_view \<sigma> = v(t := None)"
    and w: "waitq \<sigma> = (\<lambda>q. remove1 t (w q))" "timeouts \<sigma> = tmo_erase t tm"
    and t: "threads \<sigma> t = Some th" "tstate th \<in> {Running, Cancelled}" "t \<notin> Y" "p < nproc \<sigma>" "no_idle idle t \<sigma>"
  shows "\<exists>i S. rt_resume p t \<sigma> = Some (\<sigma>\<lparr>ipis := i, scheds := S\<rparr>) \<and> core_ok idle {} Y (\<sigma>\<lparr>ipis := i, scheds := S\<rparr>) \<and>
     block_ok (waitq \<sigma>) (timeouts \<sigma>) (blocked_view (\<sigma>\<lparr>ipis := i, scheds := S\<rparr>))"
proof -
  obtain i S where r: "rt_resume p t \<sigma> = Some (\<sigma>\<lparr>ipis := i, scheds := S\<rparr>)" "core_ok idle {} Y (\<sigma>\<lparr>ipis := i, scheds := S\<rparr>)"
    using resume_ok [OF core t] by blast
  have "blocked_view (\<sigma>\<lparr>ipis := i, scheds := S\<rparr>) = v(t := None)" using v by (simp add: blocked_view_def fun_eq_iff)
  then have "block_ok (waitq \<sigma>) (timeouts \<sigma>) (blocked_view (\<sigma>\<lparr>ipis := i, scheds := S\<rparr>))"
    using block_leave [OF bl, of t] w by simp
  with r show ?thesis by blast
qed

section \<open>Blocking queues\<close>

definition same_threads :: "rt \<Rightarrow> rt \<Rightarrow> nat set \<Rightarrow> bool" where
  "same_threads \<sigma> \<sigma>' A = (nproc \<sigma>' = nproc \<sigma> \<and> (\<forall>t. t \<notin> A \<longrightarrow> threads \<sigma>' t = threads \<sigma> t))"

lemma block_head:
  assumes "block_ok w tm v" "w q = t # ts"
  shows "remove1 t (w q) = ts" "on_queue (v t) q" "(\<lambda>q. remove1 t (w q)) = w(q := ts)"
proof -
  have "t \<in> set (w q)" using assms(2) by simp
  then show h: "remove1 t (w q) = ts" "on_queue (v t) q" using assms unfolding block_ok_def by (simp, blast)
  have "\<not> on_queue (v t) q'" if "q' \<noteq> q" for q' using h(2) that by (cases "(v t, q)" rule: on_queue.cases) auto
  then show "(\<lambda>q. remove1 t (w q)) = w(q := ts)" using remove1_other [OF assms(1)] h(1) by auto
qed

lemma on_queue_blocked:
  assumes "on_queue (blocked_view \<sigma> t) q"
  obtains th u where "threads \<sigma> t = Some th" "tstate th = Blocked" "unblockInfo th = Some u" "blocked_view \<sigma> t = Some (Some u)"
  using assms by (cases "(blocked_view \<sigma> t, q)" rule: on_queue.cases) (auto simp: blocked_view_def split: option.splits if_splits)

lemma bq_resume_empty: "waitq \<sigma> q = [] \<Longrightarrow> bq_resume p l q \<sigma> = Some (\<sigma>, None)"
  by (simp add: bq_resume_def)

lemma bq_resume_wakes:
  assumes cs: "rt_cs idle p l \<sigma>" and q: "waitq \<sigma> q = t # ts"
  shows "\<exists>\<sigma>' th. bq_resume p l q \<sigma> = Some (\<sigma>', Some t) \<and> rt_ok idle \<sigma>' \<and> waitq \<sigma>' = (waitq \<sigma>)(q := ts) \<and>
    timeouts \<sigma>' = tmo_erase t (timeouts \<sigma>) \<and> curr \<sigma>' = curr \<sigma> \<and> threads \<sigma> t = Some th \<and> tstate th = Blocked \<and>
    threads \<sigma>' = (threads \<sigma>)(t \<mapsto> th\<lparr>tstate := Running\<rparr>) \<and> nproc \<sigma>' = nproc \<sigma>"
proof -
  have core: "core_ok idle {} {} \<sigma>" and bl: "block_ok (waitq \<sigma>) (timeouts \<sigma>) (blocked_view \<sigma>)" and p: "p < nproc \<sigma>"
    and cp: "\<And>r. r < nproc \<sigma> \<Longrightarrow> cpus \<sigma> r = (if r = p then held_cpu 1 else free_cpu)" and lk: "locks \<sigma> = (\<lambda>x. x = l)"
    using cs by (auto simp: rt_cs_def)
  note h = block_head [OF bl q]
  obtain th u where th: "threads \<sigma> t = Some th" "tstate th = Blocked" "unblockInfo th = Some u" "blocked_view \<sigma> t = Some (Some u)"
    using h(2) by (rule on_queue_blocked)
  have ni: "no_idle idle t \<sigma>" by (rule blocked_not_idle [OF core th(1,2)])
  have tc: "t \<noteq> curr \<sigma> p" by (rule blocked_not_curr [OF core th(1,2) p])
  let ?th = "th\<lparr>tstate := Running\<rparr>"
  define \<sigma>2 where "\<sigma>2 = (dequeue q t (set_th t ?th \<sigma>))\<lparr>cpus := (cpus \<sigma>)(p := free_cpu), locks := (\<lambda>_. False)\<rparr>"
  define \<sigma>3 where "\<sigma>3 = \<sigma>2\<lparr>timeouts := tmo_erase t (timeouts \<sigma>)\<rparr>"
  have f: "threads \<sigma>3 = (threads \<sigma>)(t \<mapsto> ?th)" "waitq \<sigma>3 = (waitq \<sigma>)(q := ts)" "curr \<sigma>3 = curr \<sigma>" "nproc \<sigma>3 = nproc \<sigma>"
    "cpus \<sigma>3 = (cpus \<sigma>)(p := free_cpu)" "locks \<sigma>3 = (\<lambda>_. False)"
    using h(1) by (simp_all add: \<sigma>3_def \<sigma>2_def dequeue_def)
  have rel: "rt_release p l (dequeue q t (set_th t ?th \<sigma>)) = Some \<sigma>2"
  proof -
    have "(\<lambda>x. x = l)(l := False) = (\<lambda>_. False)" by (simp add: fun_eq_iff)
    then show ?thesis using cp [OF p] lk rt_release_eq(1) [of "dequeue q t (set_th t ?th \<sigma>)" p l] by (simp add: dequeue_def \<sigma>2_def)
  qed
  have ct: "cancelTimeout p t \<sigma>2 = Some \<sigma>3"
  proof -
    have "cancelTimeout p t \<sigma>2 = Some (if on_timer (Some (Some u)) then \<sigma>2\<lparr>timeouts := tmo_erase t (timeouts \<sigma>2)\<rparr> else \<sigma>2)"
      by (rule cancelTimeout_eq [where th = ?th]) (use th in \<open>simp_all add: \<sigma>2_def dequeue_def\<close>)
    moreover have "t \<notin> snd ` set (timeouts \<sigma>)" if "\<not> on_timer (Some (Some u))" using bl that th(4) by (simp add: block_ok_def)
    ultimately show ?thesis using tmo_erase_facts(4) [of t "timeouts \<sigma>"] by (auto simp: \<sigma>3_def \<sigma>2_def dequeue_def)
  qed
  have c3: "core_ok idle {} {t} \<sigma>3"
  proof -
    have "core_ok idle {} {t} (set_th t ?th \<sigma>)" by (rule core_set_th [OF core th(1) ni]) (use th in auto)
    then show ?thesis using core_fields [of \<sigma>3 "set_th t ?th \<sigma>"] by (simp add: \<sigma>3_def \<sigma>2_def dequeue_def)
  qed
  have v3: "blocked_view \<sigma>3 = (blocked_view \<sigma>)(t := None)"
    using blocked_view_fields [of \<sigma>3 "set_th t ?th \<sigma>"] f(1) blocked_view_set_th [of t ?th \<sigma>] by simp
  have "\<exists>i S. rt_resume p t \<sigma>3 = Some (\<sigma>3\<lparr>ipis := i, scheds := S\<rparr>) \<and> core_ok idle {} {} (\<sigma>3\<lparr>ipis := i, scheds := S\<rparr>) \<and>
     block_ok (waitq \<sigma>3) (timeouts \<sigma>3) (blocked_view (\<sigma>3\<lparr>ipis := i, scheds := S\<rparr>))"
    by (rule wake_up [OF c3 bl v3, where th = ?th]) (use f h(3) p ni in \<open>simp_all add: \<sigma>3_def no_idle_def\<close>)
  then obtain i S where r: "rt_resume p t \<sigma>3 = Some (\<sigma>3\<lparr>ipis := i, scheds := S\<rparr>)" "core_ok idle {} {} (\<sigma>3\<lparr>ipis := i, scheds := S\<rparr>)"
    "block_ok (waitq \<sigma>3) (timeouts \<sigma>3) (blocked_view (\<sigma>3\<lparr>ipis := i, scheds := S\<rparr>))" by blast
  have "bq_resume p l q \<sigma> = Some (\<sigma>3\<lparr>ipis := i, scheds := S\<rparr>, Some t)"
    using th(1,2) tc rel ct r(1) q by (simp add: bq_resume_def th_unblock_def)
  moreover have "rt_ok idle (\<sigma>3\<lparr>ipis := i, scheds := S\<rparr>)"
    using r(2,3) f cp p by (simp add: rt_ok_def)
  moreover have "timeouts \<sigma>3 = tmo_erase t (timeouts \<sigma>)" by (simp add: \<sigma>3_def)
  ultimately show ?thesis using f th by simp
qed

text \<open>
  The current thread has marked itself blocked and entered its queue and timer; it gives up
  the processor and the locks it holds.
\<close>

lemma fall_asleep:
  assumes core: "core_ok idle {} {} \<sigma>" and bl: "block_ok (waitq \<sigma>) (timeouts \<sigma>) (blocked_view \<sigma>)" and p: "p < nproc \<sigma>"
    and th: "threads \<sigma> (curr \<sigma> p) = Some th" "tstate th = Running" and ni: "no_idle idle (curr \<sigma> p) \<sigma>"
    and cp: "\<And>r. r < nproc \<sigma> \<Longrightarrow> cpus \<sigma> r = (if r = p then held_cpu (length ls) else free_cpu)"
    and lk: "locks \<sigma> = (\<lambda>x. x \<in> set ls)" "length ls \<le> 2" "distinct ls"
    and x: "priority x = priority th" "nextScheduler x = nextScheduler th" "affinity x = affinity th" "tstate x = Blocked" "unblockInfo x = Some u"
    and w: "w = (\<lambda>q. if on_queue (Some (Some u)) q then waitq \<sigma> q @ [curr \<sigma> p] else waitq \<sigma> q)"
    and tm: "tm = (if on_timer (Some (Some u)) then tmo_insert k (curr \<sigma> p) (timeouts \<sigma>) else timeouts \<sigma>)"
  shows "\<exists>\<sigma>'. rt_suspend p ls ((set_th (curr \<sigma> p) x \<sigma>)\<lparr>waitq := w, timeouts := tm\<rparr>) = Some \<sigma>' \<and> rt_ok idle \<sigma>' \<and>
    waitq \<sigma>' = w \<and> timeouts \<sigma>' = tm \<and> blocked_view \<sigma>' = (blocked_view \<sigma>)(curr \<sigma> p := Some (Some u)) \<and> nproc \<sigma>' = nproc \<sigma>"
proof -
  let ?c = "curr \<sigma> p" let ?\<sigma> = "(set_th ?c x \<sigma>)\<lparr>waitq := w, timeouts := tm\<rparr>"
  have "core_ok idle {?c} {} (set_th ?c x \<sigma>)" by (rule core_set_th [OF core th(1) ni]) (use x th in auto)
  then have c1: "core_ok idle {curr ?\<sigma> p} {} ?\<sigma>" using core_fields [of ?\<sigma> "set_th ?c x \<sigma>"] by simp
  have "\<exists>\<sigma>'. rt_suspend p ls ?\<sigma> = Some \<sigma>' \<and> undisturbed p ?\<sigma> \<sigma>' \<and> cpus \<sigma>' p = free_cpu \<and>
    locks \<sigma>' = (\<lambda>l. locks ?\<sigma> l \<and> l \<notin> set ls) \<and> core_ok idle {} {} \<sigma>'"
    by (rule suspend_ok [OF c1, where th = x]) (use p x lk cp in simp_all)
  then obtain \<sigma>' where s: "rt_suspend p ls ?\<sigma> = Some \<sigma>'" "undisturbed p ?\<sigma> \<sigma>'" "cpus \<sigma>' p = free_cpu"
    "locks \<sigma>' = (\<lambda>l. False)" "core_ok idle {} {} \<sigma>'" using lk(1) by auto
  have v: "blocked_view ?\<sigma> = (blocked_view \<sigma>)(?c := Some (Some u))"
    using blocked_view_fields [of ?\<sigma> "set_th ?c x \<sigma>"] x by (simp add: blocked_view_set_th)
  have u: "waitq \<sigma>' = w" "timeouts \<sigma>' = tm" "nproc \<sigma>' = nproc \<sigma>" "blocked_view \<sigma>' = (blocked_view \<sigma>)(?c := Some (Some u))"
    using s(2) v by (simp_all add: undisturbed_def)
  have n: "blocked_view \<sigma> ?c = None" using th by (simp add: blocked_view_def)
  have "block_ok w tm ((blocked_view \<sigma>)(?c := Some (Some u)))"
    using block_enter [OF bl n, of "Some u" k] unfolding w tm by simp
  moreover have "\<forall>r<nproc \<sigma>. cpus \<sigma>' r = free_cpu"
    using s(2,3) cp by (auto simp: undisturbed_def) (metis)
  ultimately have "rt_ok idle \<sigma>'" using s(4,5) u by (simp add: rt_ok_def)
  with s(1) u show ?thesis by blast
qed

text \<open>A cancelled thread does not block; only its own bookkeeping changes.\<close>

lemma note_only:
  assumes core: "core_ok idle {} {} \<sigma>" and th: "threads \<sigma> t = Some th" "tstate th \<noteq> Blocked" and ni: "no_idle idle t \<sigma>"
    and x: "priority x = priority th" "nextScheduler x = nextScheduler th" "affinity x = affinity th" "tstate x = tstate th"
  shows "core_ok idle {} {} (set_th t x \<sigma>)" "blocked_view (set_th t x \<sigma>) = blocked_view \<sigma>"
proof -
  have "tstate th \<noteq> Finishing" using core th(1) by (auto simp: core_ok_def fin_ok_def)
  then show "core_ok idle {} {} (set_th t x \<sigma>)" by (intro core_set_th [OF core th(1) ni]) (use x in auto)
  show "blocked_view (set_th t x \<sigma>) = blocked_view \<sigma>"
    using x(4) th blocked_view_not(1) [OF th] by (simp add: blocked_view_set_th fun_upd_idem)
qed

definition block_post :: "(nat \<Rightarrow> nat) \<Rightarrow> nat \<Rightarrow> nat \<Rightarrow> bool \<Rightarrow> rt \<Rightarrow> rt \<times> outcome \<Rightarrow> bool" where
  "block_post idle c q waits \<sigma> = (\<lambda>(\<sigma>', r). rt_ok idle \<sigma>' \<and> nproc \<sigma>' = nproc \<sigma> \<and>
     (if waits then r = Suspended \<and> waitq \<sigma>' = (waitq \<sigma>)(q := waitq \<sigma> q @ [c]) \<and> on_queue (blocked_view \<sigma>' c) q
      else r = Returned False \<and> waitq \<sigma>' = waitq \<sigma> \<and> timeouts \<sigma>' = timeouts \<sigma> \<and> blocked_view \<sigma>' = blocked_view \<sigma>))"

lemma rt_cs_set_th:
  assumes "rt_cs idle p l \<sigma>" "core_ok idle {} {} (set_th t x \<sigma>)" "blocked_view (set_th t x \<sigma>) = blocked_view \<sigma>"
  shows "rt_cs idle p l (set_th t x \<sigma>)"
  using assms by (simp add: rt_cs_def)

lemma cs_return:
  assumes "rt_cs idle p l \<sigma>1" "nproc \<sigma>1 = nproc \<sigma>" "waitq \<sigma>1 = waitq \<sigma>" "timeouts \<sigma>1 = timeouts \<sigma>" "blocked_view \<sigma>1 = blocked_view \<sigma>"
  shows "\<exists>\<sigma>2. rt_release p l \<sigma>1 = Some \<sigma>2 \<and> block_post idle c q False \<sigma> (\<sigma>2, Returned False)"
proof -
  from leave_cs [OF assms(1)] obtain \<sigma>2 where r: "rt_release p l \<sigma>1 = Some \<sigma>2" "rt_ok idle \<sigma>2" "threads \<sigma>2 = threads \<sigma>1"
    "waitq \<sigma>2 = waitq \<sigma>1" "timeouts \<sigma>2 = timeouts \<sigma>1" "nproc \<sigma>2 = nproc \<sigma>1" by blast
  with assms blocked_view_fields [OF r(3)] show ?thesis by (simp add: block_post_def)
qed

lemma upd_on_queue:
  "w(q := w q @ [c]) = (\<lambda>q'. if on_queue (Some (Some (BlockingInfo l q))) q' then w q' @ [c] else w q')"
  "w(q := w q @ [c]) = (\<lambda>q'. if on_queue (Some (Some (TimeoutBlockingInfo l q))) q' then w q' @ [c] else w q')"
  by (auto simp: fun_eq_iff)

lemma bi_suspend_ok:
  assumes cs: "rt_cs idle p l \<sigma>" and ni: "no_idle idle (curr \<sigma> p) \<sigma>" and th: "threads \<sigma> (curr \<sigma> p) = Some th"
  shows "\<exists>r. bi_suspend p l q \<sigma> = Some r \<and> block_post idle (curr \<sigma> p) q (tstate th = Running) \<sigma> r"
proof -
  let ?c = "curr \<sigma> p"
  have core: "core_ok idle {} {} \<sigma>" and bl: "block_ok (waitq \<sigma>) (timeouts \<sigma>) (blocked_view \<sigma>)" and p: "p < nproc \<sigma>"
    and cp: "\<And>r. r < nproc \<sigma> \<Longrightarrow> cpus \<sigma> r = (if r = p then held_cpu 1 else free_cpu)" and lk: "locks \<sigma> = (\<lambda>x. x = l)"
    using cs by (auto simp: rt_cs_def)
  have nb: "tstate th \<noteq> Blocked" using curr_active [OF core p] th by force
  define x where "x = th\<lparr>timedOut := False, unblockInfo := Some (BlockingInfo l q)\<rparr>"
  have x: "priority x = priority th" "nextScheduler x = nextScheduler th" "affinity x = affinity th" "tstate x = tstate th"
    by (simp_all add: x_def)
  have bn: "bi_new p l \<sigma> = Some (set_th ?c (th\<lparr>timedOut := False\<rparr>) \<sigma>)" using th lk by (simp add: bi_new_def)
  have tb: "th_block p (BlockingInfo l q) (set_th ?c (th\<lparr>timedOut := False\<rparr>) \<sigma>) =
      Some (if tstate th = Running then (set_th ?c (x\<lparr>tstate := Blocked\<rparr>) \<sigma>, True) else (set_th ?c x \<sigma>, False))"
    using nb by (simp add: th_block_def x_def set_th_def Let_def)
  show ?thesis
  proof (cases "tstate th = Running")
    case True
    have "\<exists>\<sigma>'. rt_suspend p [l] ((set_th ?c (x\<lparr>tstate := Blocked\<rparr>) \<sigma>)\<lparr>waitq := (waitq \<sigma>)(q := waitq \<sigma> q @ [?c]), timeouts := timeouts \<sigma>\<rparr>) = Some \<sigma>' \<and>
      rt_ok idle \<sigma>' \<and> waitq \<sigma>' = (waitq \<sigma>)(q := waitq \<sigma> q @ [?c]) \<and> timeouts \<sigma>' = timeouts \<sigma> \<and>
      blocked_view \<sigma>' = (blocked_view \<sigma>)(?c := Some (Some (BlockingInfo l q))) \<and> nproc \<sigma>' = nproc \<sigma>"
      by (rule fall_asleep [OF core bl p th True ni, where k = 0]) (use x cp lk in \<open>simp_all add: upd_on_queue(1) [where l = l] x_def\<close>)
    then obtain \<sigma>' where "rt_suspend p [l] ((set_th ?c (x\<lparr>tstate := Blocked\<rparr>) \<sigma>)\<lparr>waitq := (waitq \<sigma>)(q := waitq \<sigma> q @ [?c]), timeouts := timeouts \<sigma>\<rparr>) = Some \<sigma>'"
      "rt_ok idle \<sigma>'" "waitq \<sigma>' = (waitq \<sigma>)(q := waitq \<sigma> q @ [?c])"
      "blocked_view \<sigma>' = (blocked_view \<sigma>)(?c := Some (Some (BlockingInfo l q)))" "nproc \<sigma>' = nproc \<sigma>" by blast
    moreover have "(set_th ?c (x\<lparr>tstate := Blocked\<rparr>) \<sigma>)\<lparr>waitq := (waitq \<sigma>)(q := waitq \<sigma> q @ [?c]), timeouts := timeouts \<sigma>\<rparr> =
      (set_th ?c (x\<lparr>tstate := Blocked\<rparr>) \<sigma>)\<lparr>waitq := (waitq \<sigma>)(q := waitq \<sigma> q @ [?c])\<rparr>" by (simp add: set_th_def)
    ultimately show ?thesis using bn tb True by (simp add: bi_suspend_def block_post_def)
  next
    case False
    note n = note_only [OF core th nb ni x]
    obtain \<sigma>2 where r: "rt_release p l (set_th ?c x \<sigma>) = Some \<sigma>2" "block_post idle ?c q False \<sigma> (\<sigma>2, Returned False)"
      using cs_return [OF rt_cs_set_th [OF cs n], of \<sigma> ?c q] n(2) by auto
    then show ?thesis using bn tb False by (simp add: bi_suspend_def)
  qed
qed

lemma tbi_suspend_ok:
  assumes cs: "rt_cs idle p l \<sigma>" and ni: "no_idle idle (curr \<sigma> p) \<sigma>" and th: "threads \<sigma> (curr \<sigma> p) = Some th"
    and l: "l \<noteq> timeout_lock"
  shows "\<exists>r. tbi_suspend p l q k \<sigma> = Some r \<and> block_post idle (curr \<sigma> p) q (tstate th = Running) \<sigma> r"
proof -
  let ?c = "curr \<sigma> p" let ?tl = timeout_lock
  have core: "core_ok idle {} {} \<sigma>" and bl: "block_ok (waitq \<sigma>) (timeouts \<sigma>) (blocked_view \<sigma>)" and p: "p < nproc \<sigma>"
    and cp: "\<And>r. r < nproc \<sigma> \<Longrightarrow> cpus \<sigma> r = (if r = p then held_cpu 1 else free_cpu)" and lk: "locks \<sigma> = (\<lambda>x. x = l)"
    using cs by (auto simp: rt_cs_def)
  have nb: "tstate th \<noteq> Blocked" using curr_active [OF core p] th by force
  define u where "u = TimeoutBlockingInfo l q"
  define x where "x = th\<lparr>timedOut := False, unblockInfo := Some u\<rparr>"
  have x: "priority x = priority th" "nextScheduler x = nextScheduler th" "affinity x = affinity th" "tstate x = tstate th" "unblockInfo x = Some u"
    by (simp_all add: x_def)
  define \<sigma>c where "\<sigma>c = \<sigma>\<lparr>cpus := (cpus \<sigma>)(p := held_cpu 2), locks := (locks \<sigma>)(?tl := True)\<rparr>"
  have fc: "nproc \<sigma>c = nproc \<sigma>" "curr \<sigma>c = curr \<sigma>" "threads \<sigma>c = threads \<sigma>" "waitq \<sigma>c = waitq \<sigma>" "timeouts \<sigma>c = timeouts \<sigma>"
    "scheds \<sigma>c = scheds \<sigma>" "cpus \<sigma>c = (cpus \<sigma>)(p := held_cpu 2)" "locks \<sigma>c = (\<lambda>y. y \<in> set [l, ?tl])"
    using lk by (auto simp: \<sigma>c_def fun_eq_iff)
  have corec: "core_ok idle {} {} \<sigma>c" using core core_fields [of \<sigma>c \<sigma>] fc by simp
  have viewc: "blocked_view \<sigma>c = blocked_view \<sigma>" using blocked_view_fields [of \<sigma>c \<sigma>] fc by simp
  have blc: "block_ok (waitq \<sigma>c) (timeouts \<sigma>c) (blocked_view \<sigma>c)" using bl viewc fc by simp
  have bn: "bi_new p l \<sigma> = Some (set_th ?c (th\<lparr>timedOut := False\<rparr>) \<sigma>)" using th lk by (simp add: bi_new_def)
  have ac: "rt_acquire p ?tl (set_th ?c (th\<lparr>timedOut := False\<rparr>) \<sigma>) = Some (set_th ?c (th\<lparr>timedOut := False\<rparr>) \<sigma>c)"
    using rt_acquire_eq(2) [of "set_th ?c (th\<lparr>timedOut := False\<rparr>) \<sigma>" p ?tl] cp [OF p] lk l by (simp add: \<sigma>c_def set_th_def)
  have tb: "th_block p u (set_th ?c (th\<lparr>timedOut := False\<rparr>) \<sigma>c) =
      Some (if tstate th = Running then (set_th ?c (x\<lparr>tstate := Blocked\<rparr>) \<sigma>c, True) else (set_th ?c x \<sigma>c, False))"
    using nb by (simp add: th_block_def x_def set_th_def Let_def fc)
  show ?thesis
  proof (cases "tstate th = Running")
    case True
    let ?w = "(waitq \<sigma>c)(q := waitq \<sigma>c q @ [curr \<sigma>c p])" and ?tm = "tmo_insert k (curr \<sigma>c p) (timeouts \<sigma>c)"
    have "\<exists>\<sigma>'. rt_suspend p [l, ?tl] ((set_th (curr \<sigma>c p) (x\<lparr>tstate := Blocked\<rparr>) \<sigma>c)\<lparr>waitq := ?w, timeouts := ?tm\<rparr>) = Some \<sigma>' \<and>
      rt_ok idle \<sigma>' \<and> waitq \<sigma>' = ?w \<and> timeouts \<sigma>' = ?tm \<and>
      blocked_view \<sigma>' = (blocked_view \<sigma>c)(curr \<sigma>c p := Some (Some u)) \<and> nproc \<sigma>' = nproc \<sigma>c"
      by (rule fall_asleep [OF corec blc, where th = th and k = k])
        (use fc p th True ni x cp l in \<open>simp_all add: fun_eq_iff u_def no_idle_def\<close>)
    then obtain \<sigma>' where "rt_suspend p [l, ?tl] ((set_th ?c (x\<lparr>tstate := Blocked\<rparr>) \<sigma>c)\<lparr>waitq := ?w, timeouts := ?tm\<rparr>) = Some \<sigma>'"
      "rt_ok idle \<sigma>'" "waitq \<sigma>' = (waitq \<sigma>)(q := waitq \<sigma> q @ [?c])"
      "blocked_view \<sigma>' = (blocked_view \<sigma>)(?c := Some (Some u))" "nproc \<sigma>' = nproc \<sigma>" using fc viewc by auto
    then show ?thesis using bn ac tb True by (simp add: tbi_suspend_def block_post_def u_def fc)
  next
    case False
    note n = note_only [OF core th nb ni x(1-4)]
    have "(cpus \<sigma>)(p := held_cpu 1) = cpus \<sigma>" using cp [OF p] by (simp add: fun_upd_idem)
    then have A: "(cpus \<sigma>c)(p := held_cpu 1) = cpus \<sigma>" unfolding fc by simp
    have B: "(locks \<sigma>c)(?tl := False) = locks \<sigma>" unfolding fc lk using l by (auto simp: fun_eq_iff)
    have "rt_release p ?tl (set_th ?c x \<sigma>c) =
        Some ((set_th ?c x \<sigma>c)\<lparr>cpus := (cpus (set_th ?c x \<sigma>c))(p := held_cpu 1), locks := (locks (set_th ?c x \<sigma>c))(?tl := False)\<rparr>)"
      by (rule rt_release_eq(2)) (simp_all add: fc)
    also have "(set_th ?c x \<sigma>c)\<lparr>cpus := (cpus (set_th ?c x \<sigma>c))(p := held_cpu 1), locks := (locks (set_th ?c x \<sigma>c))(?tl := False)\<rparr> = set_th ?c x \<sigma>"
      unfolding set_th_fields A B by (simp add: \<sigma>c_def set_th_def)
    finally have "rt_release p ?tl (set_th ?c x \<sigma>c) = Some (set_th ?c x \<sigma>)" .
    moreover obtain \<sigma>2 where "rt_release p l (set_th ?c x \<sigma>) = Some \<sigma>2" "block_post idle ?c q False \<sigma> (\<sigma>2, Returned False)"
      using cs_return [OF rt_cs_set_th [OF cs n], of \<sigma> ?c q] n(2) by auto
    ultimately show ?thesis using bn ac tb False by (simp add: tbi_suspend_def u_def)
  qed
qed

lemma bq_block_ok:
  assumes cs: "rt_cs idle p l \<sigma>" and ni: "no_idle idle (curr \<sigma> p) \<sigma>" and th: "threads \<sigma> (curr \<sigma> p) = Some th"
    and l: "l \<noteq> timeout_lock"
  shows "\<exists>r. bq_block p l q k \<sigma> = Some r \<and> block_post idle (curr \<sigma> p) q (k \<noteq> 0 \<and> tstate th = Running) \<sigma> r"
proof -
  consider "k = - 1" | "k \<noteq> - 1" "k > 0" | "k = 0" using word_gt_0 by blast
  then show ?thesis
  proof cases
    case 1
    then show ?thesis using bi_suspend_ok [OF cs ni th] by (simp add: bq_block_def)
  next
    case 2
    then have "k \<noteq> 0" by auto
    with 2 show ?thesis using tbi_suspend_ok [OF cs ni th l, of q k] by (simp add: bq_block_def)
  next
    case 3
    then show ?thesis using cs_return [OF cs, of \<sigma> "curr \<sigma> p" q] by (auto simp: bq_block_def)
  qed
qed

section \<open>Sleeping, expiry and cancellation\<close>

lemma sleep_ok:
  assumes ok: "rt_ok idle \<sigma>" and p: "p < nproc \<sigma>" and ni: "no_idle idle (curr \<sigma> p) \<sigma>"
  shows "\<exists>\<sigma>'. tmo_sleep p k \<sigma> = Some \<sigma>' \<and> rt_ok idle \<sigma>' \<and> nproc \<sigma>' = nproc \<sigma>"
proof -
  let ?tl = timeout_lock
  obtain \<sigma>1 where a: "rt_acquire p ?tl \<sigma> = Some \<sigma>1" "rt_cs idle p ?tl \<sigma>1" "curr \<sigma>1 = curr \<sigma>" "nproc \<sigma>1 = nproc \<sigma>"
    using enter_cs [OF ok p] by blast
  let ?c = "curr \<sigma>1 p"
  have core: "core_ok idle {} {} \<sigma>1" and bl: "block_ok (waitq \<sigma>1) (timeouts \<sigma>1) (blocked_view \<sigma>1)" and p1: "p < nproc \<sigma>1"
    and cp: "\<And>r. r < nproc \<sigma>1 \<Longrightarrow> cpus \<sigma>1 r = (if r = p then held_cpu 1 else free_cpu)" and lk: "locks \<sigma>1 = (\<lambda>x. x = ?tl)"
    using a(2) by (auto simp: rt_cs_def)
  obtain th where th: "threads \<sigma>1 ?c = Some th" "tstate th \<in> {Running, Cancelled}" by (rule curr_active [OF core p1])
  have nb: "tstate th \<noteq> Blocked" using th(2) by auto
  have ni1: "no_idle idle ?c \<sigma>1" using ni a by (simp add: no_idle_def)
  define x where "x = th\<lparr>unblockInfo := Some TimeoutInfo\<rparr>"
  have x: "priority x = priority th" "nextScheduler x = nextScheduler th" "affinity x = affinity th" "tstate x = tstate th"
    by (simp_all add: x_def)
  have tb: "th_block p TimeoutInfo \<sigma>1 = Some (if tstate th = Running then (set_th ?c (x\<lparr>tstate := Blocked\<rparr>) \<sigma>1, True) else (set_th ?c x \<sigma>1, False))"
    using nb th(1) by (simp add: th_block_def x_def set_th_def Let_def)
  show ?thesis
  proof (cases "tstate th = Running")
    case True
    let ?tm = "tmo_insert k ?c (timeouts \<sigma>1)"
    have "\<exists>\<sigma>'. rt_suspend p [?tl] ((set_th ?c (x\<lparr>tstate := Blocked\<rparr>) \<sigma>1)\<lparr>waitq := waitq \<sigma>1, timeouts := ?tm\<rparr>) = Some \<sigma>' \<and>
      rt_ok idle \<sigma>' \<and> waitq \<sigma>' = waitq \<sigma>1 \<and> timeouts \<sigma>' = ?tm \<and>
      blocked_view \<sigma>' = (blocked_view \<sigma>1)(?c := Some (Some TimeoutInfo)) \<and> nproc \<sigma>' = nproc \<sigma>1"
      by (rule fall_asleep [OF core bl p1 th(1) True ni1, where k = k]) (use x cp lk in \<open>simp_all add: x_def\<close>)
    then obtain \<sigma>' where s: "rt_suspend p [?tl] ((set_th ?c (x\<lparr>tstate := Blocked\<rparr>) \<sigma>1)\<lparr>waitq := waitq \<sigma>1, timeouts := ?tm\<rparr>) = Some \<sigma>'"
      "rt_ok idle \<sigma>'" "nproc \<sigma>' = nproc \<sigma>1" by blast
    have E: "(set_th ?c (x\<lparr>tstate := Blocked\<rparr>) \<sigma>1)\<lparr>waitq := waitq \<sigma>1, timeouts := ?tm\<rparr> = (set_th ?c (x\<lparr>tstate := Blocked\<rparr>) \<sigma>1)\<lparr>timeouts := ?tm\<rparr>"
      by (simp add: set_th_def)
    show ?thesis using a tb True s(1) [unfolded E] s(2,3) by (simp add: tmo_sleep_def ti_suspend_def)
  next
    case False
    note n = note_only [OF core th(1) nb ni1 x]
    obtain \<sigma>2 where "rt_release p ?tl (set_th ?c x \<sigma>1) = Some \<sigma>2" "block_post idle ?c 0 False \<sigma>1 (\<sigma>2, Returned False)"
      using cs_return [OF rt_cs_set_th [OF a(2) n], of \<sigma>1 ?c 0] n(2) by auto
    then show ?thesis using a tb False by (auto simp: tmo_sleep_def ti_suspend_def block_post_def)
  qed
qed

abbreviation expired :: "mword \<Rightarrow> (mword \<times> nat) list \<Rightarrow> nat list" where
  "expired now xs \<equiv> map snd (takeWhile (\<lambda>x. fst x \<le> now) xs)"

abbreviation "run_th \<equiv> tstate_update (\<lambda>_. Running)"

lemma expiry_loop_ok:
  assumes "core_ok idle {} Y \<sigma>" "distinct (map snd xs)"
    and "\<forall>t\<in>snd ` set xs. t \<notin> Y \<and> t \<noteq> curr \<sigma> p \<and> (\<exists>th. threads \<sigma> t = Some th \<and> tstate th = Blocked)"
  shows "\<exists>T. expiry_loop p now xs \<sigma> = Some (dropWhile (\<lambda>x. fst x \<le> now) xs, expired now xs, \<sigma>\<lparr>threads := T\<rparr>) \<and>
    core_ok idle {} (Y \<union> set (expired now xs)) (\<sigma>\<lparr>threads := T\<rparr>) \<and>
    T = (\<lambda>t. if t \<in> set (expired now xs) then map_option run_th (threads \<sigma> t) else threads \<sigma> t)"
  using assms(1-3)
proof (induction xs arbitrary: \<sigma> Y)
  case Nil
  then show ?case by simp
next
  case (Cons x xs)
  obtain k t where x: "x = (k, t)" by (cases x)
  show ?case
  proof (cases "k \<le> now")
    case False
    then show ?thesis using Cons.prems(1) x by simp
  next
    case True
    have t: "t \<notin> Y" "t \<noteq> curr \<sigma> p" using bspec [OF Cons.prems(3), of t] x by auto
    obtain th where th: "threads \<sigma> t = Some th" "tstate th = Blocked" using bspec [OF Cons.prems(3), of t] x by auto
    let ?\<sigma> = "set_th t (run_th th) \<sigma>" let ?F = "set (expired now xs)"
    have nt: "t \<notin> snd ` set xs" using Cons.prems(2) x by simp
    have A: "core_ok idle {} (insert t Y) ?\<sigma>"
      by (rule core_set_th [OF Cons.prems(1) th(1) blocked_not_idle [OF Cons.prems(1) th]]) (use th t in auto)
    have B: "t' \<notin> insert t Y \<and> t' \<noteq> curr ?\<sigma> p \<and> (\<exists>th. threads ?\<sigma> t' = Some th \<and> tstate th = Blocked)" if "t' \<in> snd ` set xs" for t'
    proof -
      have "t' \<noteq> t" using that nt by blast
      then show ?thesis using bspec [OF Cons.prems(3), of t'] that by simp
    qed
    have D: "distinct (map snd xs)" using Cons.prems(2) by simp
    have B': "\<forall>t'\<in>snd ` set xs. t' \<notin> insert t Y \<and> t' \<noteq> curr ?\<sigma> p \<and> (\<exists>th. threads ?\<sigma> t' = Some th \<and> tstate th = Blocked)"
      using B by blast
    from Cons.IH [OF A D B'] obtain T where IH: "expiry_loop p now xs ?\<sigma> = Some (dropWhile (\<lambda>x. fst x \<le> now) xs, expired now xs, ?\<sigma>\<lparr>threads := T\<rparr>)"
      "core_ok idle {} (insert t Y \<union> ?F) (?\<sigma>\<lparr>threads := T\<rparr>)"
      "T = (\<lambda>u. if u \<in> ?F then map_option run_th (threads ?\<sigma> u) else threads ?\<sigma> u)"
      by (elim exE conjE)
    have "t \<notin> ?F" using nt by (auto dest: set_takeWhileD)
    then have T: "T = (\<lambda>u. if u \<in> insert t ?F then map_option run_th (threads \<sigma> u) else threads \<sigma> u)"
      using IH(3) th(1) by (auto simp: fun_eq_iff)
    have "th_unblock p t \<sigma> = Some (?\<sigma>, True)" using th t by (simp add: th_unblock_def)
    then have "expiry_loop p now (x # xs) \<sigma> = Some (dropWhile (\<lambda>x. fst x \<le> now) (x # xs), expired now (x # xs), \<sigma>\<lparr>threads := T\<rparr>)"
      using IH(1) True x by (simp add: set_th_def)
    moreover have "core_ok idle {} (Y \<union> set (expired now (x # xs))) (\<sigma>\<lparr>threads := T\<rparr>)"
      using IH(2) True x by (simp add: set_th_def)
    ultimately show ?thesis using T True x by auto
  qed
qed

text \<open>
  Threads \<open>ts\<close> have been unblocked and taken off the timeout list; \<open>v\<close> and \<open>tm\<close> are the view
  and the list with them.
\<close>

lemma fire_loop_ok:
  assumes "core_ok idle {} (set ts) \<sigma>" "distinct ts" "p < nproc \<sigma>" "\<And>r. r < nproc \<sigma> \<Longrightarrow> cpus \<sigma> r = free_cpu" "\<And>l. \<not> locks \<sigma> l"
    and "block_ok (waitq \<sigma>) tm v" "timeouts \<sigma> = filter (\<lambda>x. snd x \<notin> set ts) tm"
    and "blocked_view \<sigma> = (\<lambda>t. if t \<in> set ts then None else v t)"
    and "\<And>t. t \<in> set ts \<Longrightarrow> no_idle idle t \<sigma> \<and> (\<exists>th u. threads \<sigma> t = Some th \<and> tstate th = Running \<and> unblockInfo th = Some u \<and> v t = Some (Some u))"
  shows "\<exists>\<sigma>'. fire_loop p ts \<sigma> = Some \<sigma>' \<and> rt_ok idle \<sigma>' \<and> nproc \<sigma>' = nproc \<sigma>"
  using assms
proof (induction ts arbitrary: \<sigma> tm v)
  case Nil
  then have "timeouts \<sigma> = tm" "blocked_view \<sigma> = v" by auto
  with Nil show ?case by (simp add: rt_ok_def)
next
  case (Cons t ts)
  obtain th u where th: "threads \<sigma> t = Some th" "tstate th = Running" "unblockInfo th = Some u" "v t = Some (Some u)" and ni: "no_idle idle t \<sigma>"
    using Cons.prems(9) [of t] by auto
  have bl: "block_ok (waitq \<sigma>) tm v" by (rule Cons.prems(6))
  define x where "x = (if u = TimeoutInfo then th else th\<lparr>timedOut := True\<rparr>)"
  have x: "priority x = priority th" "nextScheduler x = nextScheduler th" "affinity x = affinity th" "tstate x = Running" "unblockInfo x = Some u"
    using th by (simp_all add: x_def)
  define \<sigma>1 where "\<sigma>1 = (set_th t x \<sigma>)\<lparr>waitq := (\<lambda>q. remove1 t (waitq \<sigma> q))\<rparr>"
  have cb: "cancelBlocking p t \<sigma> = Some \<sigma>1"
  proof -
    have "cancelBlocking p t \<sigma> = Some (case u of TimeoutInfo \<Rightarrow> \<sigma>
       | BlockingInfo l q \<Rightarrow> dequeue q t (set_th t (th\<lparr>timedOut := True\<rparr>) \<sigma>)
       | TimeoutBlockingInfo l q \<Rightarrow> dequeue q t (set_th t (th\<lparr>timedOut := True\<rparr>) \<sigma>))"
      by (rule cancelBlocking_eq [OF th(1,3)]) (use Cons.prems in auto)
    moreover have "(\<lambda>q. remove1 t (waitq \<sigma> q)) = (case u of TimeoutInfo \<Rightarrow> waitq \<sigma>
       | BlockingInfo l q \<Rightarrow> (waitq \<sigma>)(q := remove1 t (waitq \<sigma> q)) | TimeoutBlockingInfo l q \<Rightarrow> (waitq \<sigma>)(q := remove1 t (waitq \<sigma> q)))"
      using remove1_other [OF bl] th(4) by (cases u) (auto simp: fun_eq_iff)
    ultimately show ?thesis using set_th_idem [OF th(1)] by (cases u) (simp_all add: \<sigma>1_def x_def dequeue_def set_th_def fun_upd_idem th(1))
  qed
  have f1: "nproc \<sigma>1 = nproc \<sigma>" "curr \<sigma>1 = curr \<sigma>" "cpus \<sigma>1 = cpus \<sigma>" "locks \<sigma>1 = locks \<sigma>" "threads \<sigma>1 = (threads \<sigma>)(t \<mapsto> x)"
    "timeouts \<sigma>1 = timeouts \<sigma>" "waitq \<sigma>1 = (\<lambda>q. remove1 t (waitq \<sigma> q))" "scheds \<sigma>1 = scheds \<sigma>" by (simp_all add: \<sigma>1_def)
  have "core_ok idle {} (set (t # ts)) (set_th t x \<sigma>)"
    by (rule core_set_th [OF Cons.prems(1) th(1) ni]) (use x th in auto)
  then have c1: "core_ok idle {} (insert t (set ts)) \<sigma>1" using core_fields [of \<sigma>1 "set_th t x \<sigma>"] f1 by simp
  obtain i S where r: "rt_resume p t \<sigma>1 = Some (\<sigma>1\<lparr>ipis := i, scheds := S\<rparr>)" "core_ok idle {} (set ts) (\<sigma>1\<lparr>ipis := i, scheds := S\<rparr>)"
    using resume_ok [OF c1, of x p] Cons.prems(2,3) x f1 ni by (auto simp: no_idle_def)
  let ?\<sigma> = "\<sigma>1\<lparr>ipis := i, scheds := S\<rparr>"
  have v1: "blocked_view ?\<sigma> = (\<lambda>s. if s \<in> set ts then None else (v(t := None)) s)"
  proof -
    have "blocked_view ?\<sigma> = (blocked_view \<sigma>)(t := None)"
      using blocked_view_fields [of ?\<sigma> "set_th t x \<sigma>"] f1 x(4) by (simp add: blocked_view_set_th)
    then show ?thesis using Cons.prems(8) by (auto simp: fun_eq_iff)
  qed
  have "\<exists>\<sigma>'. fire_loop p ts ?\<sigma> = Some \<sigma>' \<and> rt_ok idle \<sigma>' \<and> nproc \<sigma>' = nproc ?\<sigma>"
  proof (rule Cons.IH [OF r(2), where tm = "tmo_erase t tm" and v = "v(t := None)"])
    show "block_ok (waitq ?\<sigma>) (tmo_erase t tm) (v(t := None))" using block_leave [OF bl, of t] f1 by simp
    show "timeouts ?\<sigma> = filter (\<lambda>x. snd x \<notin> set ts) (tmo_erase t tm)"
      using Cons.prems(7) f1 by (auto simp: tmo_erase_def filter_filter case_prod_unfold intro: filter_cong)
    fix s assume s: "s \<in> set ts"
    then have "s \<noteq> t" using Cons.prems(2) by auto
    then show "no_idle idle s ?\<sigma> \<and> (\<exists>th u. threads ?\<sigma> s = Some th \<and> tstate th = Running \<and> unblockInfo th = Some u \<and> (v(t := None)) s = Some (Some u))"
      using Cons.prems(9) [of s] s f1 by (simp add: no_idle_def)
  qed (use Cons.prems f1 v1 in simp_all)
  then show ?case using cb r(1) f1 by simp
qed

lemma dropWhile_filter_expired:
  "distinct (map snd tm) \<Longrightarrow> dropWhile (\<lambda>x. fst x \<le> now) tm = filter (\<lambda>x. snd x \<notin> set (expired now tm)) tm"
proof (induction tm)
  case (Cons x tm)
  have n: "snd x \<notin> snd ` set tm" using Cons.prems by simp
  show ?case
  proof (cases "fst x \<le> now")
    case True
    have "filter (\<lambda>y. snd y \<notin> set (expired now (x # tm))) (x # tm) = filter (\<lambda>y. snd y \<notin> set (expired now (x # tm))) tm"
      using True by simp
    also have "\<dots> = filter (\<lambda>y. snd y \<notin> set (expired now tm)) tm"
      by (rule filter_cong [OF refl]) (use n True in \<open>force simp: image_iff\<close>)
    finally show ?thesis using Cons True by simp
  next
    case False
    then show ?thesis by simp
  qed
qed simp

lemma on_timer_blocked:
  assumes "on_timer (blocked_view \<sigma> t)"
  obtains th u where "threads \<sigma> t = Some th" "tstate th = Blocked" "unblockInfo th = Some u" "blocked_view \<sigma> t = Some (Some u)"
  using assms by (cases "blocked_view \<sigma> t" rule: on_timer.cases) (auto simp: blocked_view_def split: option.splits if_splits)

lemma checkExpiry_ok:
  assumes ok: "rt_ok idle \<sigma>" and p: "p < nproc \<sigma>"
  shows "\<exists>\<sigma>'. checkExpiry p now \<sigma> = Some \<sigma>' \<and> rt_ok idle \<sigma>' \<and> nproc \<sigma>' = nproc \<sigma>"
proof -
  let ?tl = timeout_lock
  obtain \<sigma>1 where a: "rt_acquire p ?tl \<sigma> = Some \<sigma>1" "rt_cs idle p ?tl \<sigma>1" "nproc \<sigma>1 = nproc \<sigma>"
    using enter_cs [OF ok p] by blast
  have core: "core_ok idle {} {} \<sigma>1" and bl: "block_ok (waitq \<sigma>1) (timeouts \<sigma>1) (blocked_view \<sigma>1)" and p1: "p < nproc \<sigma>1"
    and cp: "\<And>r. r < nproc \<sigma>1 \<Longrightarrow> cpus \<sigma>1 r = (if r = p then held_cpu 1 else free_cpu)" and lk: "locks \<sigma>1 = (\<lambda>x. x = ?tl)"
    using a(2) by (auto simp: rt_cs_def)
  define F where "F = expired now (timeouts \<sigma>1)"
  have d: "distinct (map snd (timeouts \<sigma>1))" using bl by (simp add: block_ok_def)
  have tim: "on_timer (blocked_view \<sigma>1 t)" if "t \<in> snd ` set (timeouts \<sigma>1)" for t using bl that by (simp add: block_ok_def)
  have F: "set F \<subseteq> snd ` set (timeouts \<sigma>1)" by (auto simp: F_def dest: set_takeWhileD)
  have "map snd (timeouts \<sigma>1) = F @ map snd (dropWhile (\<lambda>x. fst x \<le> now) (timeouts \<sigma>1))"
    unfolding F_def map_append [symmetric] takeWhile_dropWhile_id ..
  then have dF: "distinct F" using d by simp
  have "\<forall>t\<in>snd ` set (timeouts \<sigma>1). t \<notin> {} \<and> t \<noteq> curr \<sigma>1 p \<and> (\<exists>th. threads \<sigma>1 t = Some th \<and> tstate th = Blocked)"
  proof
    fix t assume "t \<in> snd ` set (timeouts \<sigma>1)"
    then obtain th where "threads \<sigma>1 t = Some th" "tstate th = Blocked" using tim on_timer_blocked by metis
    then show "t \<notin> {} \<and> t \<noteq> curr \<sigma>1 p \<and> (\<exists>th. threads \<sigma>1 t = Some th \<and> tstate th = Blocked)"
      using blocked_not_curr [OF core _ _ p1] by blast
  qed
  from expiry_loop_ok [OF core d this, of now] obtain T where
    e: "expiry_loop p now (timeouts \<sigma>1) \<sigma>1 = Some (dropWhile (\<lambda>x. fst x \<le> now) (timeouts \<sigma>1), F, \<sigma>1\<lparr>threads := T\<rparr>)"
    "core_ok idle {} ({} \<union> set F) (\<sigma>1\<lparr>threads := T\<rparr>)" "T = (\<lambda>t. if t \<in> set F then map_option run_th (threads \<sigma>1 t) else threads \<sigma>1 t)"
    unfolding F_def by (elim exE conjE)
  define \<sigma>2 where "\<sigma>2 = \<sigma>1\<lparr>threads := T, timeouts := dropWhile (\<lambda>x. fst x \<le> now) (timeouts \<sigma>1)\<rparr>"
  define \<sigma>3 where "\<sigma>3 = \<sigma>2\<lparr>cpus := (cpus \<sigma>2)(p := free_cpu), locks := (locks \<sigma>2)(?tl := False)\<rparr>"
  have f: "nproc \<sigma>3 = nproc \<sigma>1" "curr \<sigma>3 = curr \<sigma>1" "scheds \<sigma>3 = scheds \<sigma>1" "threads \<sigma>3 = T" "waitq \<sigma>3 = waitq \<sigma>1"
    "timeouts \<sigma>3 = dropWhile (\<lambda>x. fst x \<le> now) (timeouts \<sigma>1)" "cpus \<sigma>3 = (cpus \<sigma>1)(p := free_cpu)" "\<And>l. \<not> locks \<sigma>3 l"
    using lk by (simp_all add: \<sigma>3_def \<sigma>2_def)
  have rel: "rt_release p ?tl \<sigma>2 = Some \<sigma>3"
    unfolding \<sigma>3_def by (rule rt_release_eq(1)) (use cp [OF p1] lk in \<open>simp_all add: \<sigma>2_def\<close>)
  have "\<exists>\<sigma>'. fire_loop p F \<sigma>3 = Some \<sigma>' \<and> rt_ok idle \<sigma>' \<and> nproc \<sigma>' = nproc \<sigma>3"
  proof (rule fire_loop_ok [where tm = "timeouts \<sigma>1" and v = "blocked_view \<sigma>1"])
    show "core_ok idle {} (set F) \<sigma>3" using e(2) core_fields [of \<sigma>3 "\<sigma>1\<lparr>threads := T\<rparr>"] f by simp
    show "timeouts \<sigma>3 = filter (\<lambda>x. snd x \<notin> set F) (timeouts \<sigma>1)"
      unfolding f F_def by (rule dropWhile_filter_expired [OF d])
    show "blocked_view \<sigma>3 = (\<lambda>t. if t \<in> set F then None else blocked_view \<sigma>1 t)"
    proof
      fix t show "blocked_view \<sigma>3 t = (if t \<in> set F then None else blocked_view \<sigma>1 t)"
        using f(4) e(3) by (cases "threads \<sigma>1 t") (auto simp: blocked_view_def)
    qed
    fix t assume t: "t \<in> set F"
    then obtain th u where th: "threads \<sigma>1 t = Some th" "tstate th = Blocked" "unblockInfo th = Some u" "blocked_view \<sigma>1 t = Some (Some u)"
      using F tim on_timer_blocked by (metis subsetD)
    have "no_idle idle t \<sigma>3" using blocked_not_idle [OF core th(1,2)] f(1) by (simp add: no_idle_def)
    moreover have "threads \<sigma>3 t = Some (run_th th)" using f(4) e(3) t th(1) by simp
    ultimately show "no_idle idle t \<sigma>3 \<and> (\<exists>th u. threads \<sigma>3 t = Some th \<and> tstate th = Running \<and> unblockInfo th = Some u \<and> blocked_view \<sigma>1 t = Some (Some u))"
      using th by simp
  qed (use dF p1 f cp bl in simp_all)
  then show ?thesis using a e(1) rel f(1) by (auto simp: checkExpiry_def \<sigma>2_def)
qed

lemma th_cancel_ok:
  assumes ok: "rt_ok idle \<sigma>" and p: "p < nproc \<sigma>" and t: "t \<noteq> curr \<sigma> p" "threads \<sigma> t = Some th" "no_idle idle t \<sigma>"
  shows "\<exists>\<sigma>'. th_cancel p t \<sigma> = Some \<sigma>' \<and> rt_ok idle \<sigma>' \<and> nproc \<sigma>' = nproc \<sigma>"
proof -
  have core: "core_ok idle {} {} \<sigma>" and bl: "block_ok (waitq \<sigma>) (timeouts \<sigma>) (blocked_view \<sigma>)"
    and cp: "\<And>r. r < nproc \<sigma> \<Longrightarrow> cpus \<sigma> r = free_cpu" and lk: "\<And>l. \<not> locks \<sigma> l"
    using ok by (auto simp: rt_ok_def)
  let ?th = "th\<lparr>tstate := Cancelled\<rparr>" let ?\<sigma> = "set_th t ?th \<sigma>"
  show ?thesis
  proof (cases "tstate th = Blocked")
    case False
    then have "tstate th \<in> {Running, Cancelled}" using core t(2) by (cases "tstate th") (auto simp: core_ok_def fin_ok_def)
    then have "core_ok idle {} {} ?\<sigma>" by (intro core_set_th [OF core t(2,3)]) auto
    moreover have "blocked_view ?\<sigma> = blocked_view \<sigma>"
      using blocked_view_not(1) [OF t(2) False] by (simp add: blocked_view_set_th fun_upd_idem)
    ultimately have "rt_ok idle ?\<sigma>" using ok by (simp add: rt_ok_def)
    then show ?thesis using t False by (simp add: th_cancel_def Let_def)
  next
    case True
    have "blocked_view \<sigma> t \<noteq> Some None" using bl by (simp add: block_ok_def)
    then obtain u where u: "unblockInfo th = Some u" "blocked_view \<sigma> t = Some (Some u)" using t(2) True by (auto simp: blocked_view_def)
    have ct: "cancelTimeout p t ?\<sigma> = Some (?\<sigma>\<lparr>timeouts := tmo_erase t (timeouts \<sigma>)\<rparr>)"
    proof -
      have "cancelTimeout p t ?\<sigma> = Some (if on_timer (Some (Some u)) then ?\<sigma>\<lparr>timeouts := tmo_erase t (timeouts ?\<sigma>)\<rparr> else ?\<sigma>)"
        by (rule cancelTimeout_eq [where th = ?th]) (use u cp p lk in simp_all)
      moreover have "tmo_erase t (timeouts \<sigma>) = timeouts \<sigma>" if "\<not> on_timer (Some (Some u))"
        using bl that u(2) tmo_erase_facts(4) by (simp add: block_ok_def)
      ultimately show ?thesis by (auto simp: set_th_def)
    qed
    define x where "x = (if u = TimeoutInfo then ?th else ?th\<lparr>timedOut := True\<rparr>)"
    define \<sigma>3 where "\<sigma>3 = (set_th t x \<sigma>)\<lparr>waitq := (\<lambda>q. remove1 t (waitq \<sigma> q)), timeouts := tmo_erase t (timeouts \<sigma>)\<rparr>"
    have cb: "cancelBlocking p t (?\<sigma>\<lparr>timeouts := tmo_erase t (timeouts \<sigma>)\<rparr>) = Some \<sigma>3"
    proof -
      let ?s = "?\<sigma>\<lparr>timeouts := tmo_erase t (timeouts \<sigma>)\<rparr>"
      have "cancelBlocking p t ?s = Some (case u of TimeoutInfo \<Rightarrow> ?s
         | BlockingInfo l q \<Rightarrow> dequeue q t (set_th t (?th\<lparr>timedOut := True\<rparr>) ?s)
         | TimeoutBlockingInfo l q \<Rightarrow> dequeue q t (set_th t (?th\<lparr>timedOut := True\<rparr>) ?s))"
        by (rule cancelBlocking_eq [where th = ?th]) (use u cp p lk in simp_all)
      moreover have "(\<lambda>q. remove1 t (waitq \<sigma> q)) = (case u of TimeoutInfo \<Rightarrow> waitq \<sigma>
         | BlockingInfo l q \<Rightarrow> (waitq \<sigma>)(q := remove1 t (waitq \<sigma> q)) | TimeoutBlockingInfo l q \<Rightarrow> (waitq \<sigma>)(q := remove1 t (waitq \<sigma> q)))"
        using remove1_other [OF bl] u(2) by (cases u) (auto simp: fun_eq_iff)
      ultimately show ?thesis by (cases u) (simp_all add: \<sigma>3_def x_def dequeue_def set_th_def)
    qed
    have x: "priority x = priority th" "nextScheduler x = nextScheduler th" "affinity x = affinity th" "tstate x = Cancelled"
      by (simp_all add: x_def)
    have "core_ok idle {} {t} (set_th t x \<sigma>)" by (rule core_set_th [OF core t(2,3)]) (use x True in auto)
    then have c3: "core_ok idle {} {t} \<sigma>3" using core_fields [of \<sigma>3 "set_th t x \<sigma>"] by (simp add: \<sigma>3_def)
    have v3: "blocked_view \<sigma>3 = (blocked_view \<sigma>)(t := None)"
      using blocked_view_fields [of \<sigma>3 "set_th t x \<sigma>"] x(4) by (simp add: \<sigma>3_def blocked_view_set_th)
    have "\<exists>i S. rt_resume p t \<sigma>3 = Some (\<sigma>3\<lparr>ipis := i, scheds := S\<rparr>) \<and> core_ok idle {} {} (\<sigma>3\<lparr>ipis := i, scheds := S\<rparr>) \<and>
       block_ok (waitq \<sigma>3) (timeouts \<sigma>3) (blocked_view (\<sigma>3\<lparr>ipis := i, scheds := S\<rparr>))"
      by (rule wake_up [OF c3 bl v3, where th = x]) (use x p t(3) in \<open>simp_all add: \<sigma>3_def no_idle_def\<close>)
    then obtain i S where r: "rt_resume p t \<sigma>3 = Some (\<sigma>3\<lparr>ipis := i, scheds := S\<rparr>)" "core_ok idle {} {} (\<sigma>3\<lparr>ipis := i, scheds := S\<rparr>)"
      "block_ok (waitq \<sigma>3) (timeouts \<sigma>3) (blocked_view (\<sigma>3\<lparr>ipis := i, scheds := S\<rparr>))" by blast
    then have "rt_ok idle (\<sigma>3\<lparr>ipis := i, scheds := S\<rparr>)" using cp lk by (simp add: rt_ok_def \<sigma>3_def)
    moreover have "th_cancel p t \<sigma> = Some (\<sigma>3\<lparr>ipis := i, scheds := S\<rparr>)"
      using t True ct cb r(1) by (simp add: th_cancel_def Let_def)
    moreover have "nproc \<sigma>3 = nproc \<sigma>" by (simp add: \<sigma>3_def)
    ultimately show ?thesis by simp
  qed
qed

end
