(* ===== verification/ThreadSystem.thy ===== *)
theory ThreadSystem
  imports BlockingOps MemoryLayout
begin

text \<open>
  The thread system as a whole: the state after the processors have been set up
  (\<open>Machine::initBSP\<close> and \<open>Processor::init\<close>), sequences of operations from there, and the
  contracts of semaphores and mutexes.
\<close>

section \<open>The booted system\<close>

text \<open>
  Processor \<open>p\<close> runs its boot thread \<open>2 * p\<close>, which is bound to it; its scheduler holds the
  idle thread \<open>2 * p + 1\<close>; the partner of a scheduler is the next one.
\<close>

definition boot_idle :: "nat \<Rightarrow> nat" where "boot_idle p = 2 * p + 1"

definition boot_thread :: "nat \<Rightarrow> thread" where
  "boot_thread p = (setAffinity (Some p) (th_new 0 defaultStack))\<lparr>fresh := False\<rparr>"

fun boot_scheds :: "nat \<Rightarrow> nat \<Rightarrow> rt \<Rightarrow> rt" where
  "boot_scheds n 0 \<sigma> = \<sigma>"
| "boot_scheds n (Suc p) \<sigma> =
     setPartner p (Suc p mod n) (set_th (2 * p) (boot_thread p) (sched_init p (boot_idle p) 0 minimumStack (boot_scheds n p \<sigma>)))"

definition rt_none :: "nat \<Rightarrow> rt" where
  "rt_none n = \<lparr>nproc = n, cpus = (\<lambda>_. free_cpu), curr = (\<lambda>p. 2 * p), threads = (\<lambda>_. None),
     scheds = (\<lambda>_. \<lparr>readyCount = 0, readyQueue = [], preemption = 0, resumption = 0, partner = 0\<rparr>),
     waitq = (\<lambda>_. []), timeouts = [], locks = (\<lambda>_. False), ipis = []\<rparr>"

definition rt_boot :: "nat \<Rightarrow> rt" where
  "rt_boot n = boot_scheds n n (rt_none n)"

definition booted :: "nat \<Rightarrow> sched" where
  "booted p = \<lparr>readyCount = 1, readyQueue = [[], [], [boot_idle p]], preemption = 0, resumption = 0, partner = 0\<rparr>"

lemma boot_scheds_fields:
  assumes "\<sigma> = rt_none n"
  shows "nproc (boot_scheds n k \<sigma>) = n" "curr (boot_scheds n k \<sigma>) = (\<lambda>p. 2 * p)" "cpus (boot_scheds n k \<sigma>) = (\<lambda>_. free_cpu)"
    "waitq (boot_scheds n k \<sigma>) = (\<lambda>_. [])" "timeouts (boot_scheds n k \<sigma>) = []" "locks (boot_scheds n k \<sigma>) = (\<lambda>_. False)"
    "scheds (boot_scheds n k \<sigma>) p = (if p < k then (booted p)\<lparr>partner := Suc p mod n\<rparr> else scheds \<sigma> p)"
    "threads (boot_scheds n k \<sigma>) t = (if t div 2 < k then Some (if even t then boot_thread (t div 2)
       else setPriority idlePriority (setAffinity (Some (t div 2)) (th_new 0 minimumStack))) else None)"
proof (induction k)
  case (Suc k)
  { case 1 show ?case using Suc by (simp add: setPartner_def set_defs sched_init_def) }
  { case 2 show ?case using Suc by (simp add: setPartner_def set_defs sched_init_def) }
  { case 3 show ?case using Suc by (simp add: setPartner_def set_defs sched_init_def) }
  { case 4 show ?case using Suc by (simp add: setPartner_def set_defs sched_init_def) }
  { case 5 show ?case using Suc by (simp add: setPartner_def set_defs sched_init_def) }
  { case 6 show ?case using Suc by (simp add: setPartner_def set_defs sched_init_def) }
  { case 7 show ?case using Suc by (auto simp: setPartner_def set_defs sched_init_def booted_def less_Suc_eq) }
  { case 8
    have "t = 2 * k \<or> t = 2 * k + 1 \<longleftrightarrow> t div 2 = k" by presburger
    then show ?case using Suc(8) by (auto simp: setPartner_def set_defs sched_init_def boot_idle_def less_Suc_eq) }
qed (use assms in \<open>simp_all add: rt_none_def\<close>)

lemmas boot_fields = boot_scheds_fields [OF refl, of n n for n, folded rt_boot_def]

lemma count_sum_single:
  "inj_on f {..<n} \<Longrightarrow> count (\<Sum>i<n. {#f i#}) t = (if t \<in> f ` {..<n} then 1 else 0)" for n :: nat
proof (induction n)
  case (Suc n)
  have "inj_on f {..<n}" using Suc.prems by (rule inj_on_subset) auto
  moreover have "f n \<notin> f ` {..<n}" using inj_on_image_mem_iff [OF Suc.prems, of n "{..<n}"] by auto
  ultimately show ?case using Suc.IH by (auto simp: lessThan_Suc)
qed simp

lemma boot_ok:
  assumes "0 < n"
  shows "rt_ok boot_idle (rt_boot n)"
proof -
  let ?\<sigma> = "rt_boot n"
  have pl: "placed ?\<sigma> = (\<Sum>s<n. {#boot_idle s#}) + (\<Sum>p<n. {#2 * p#})"
    by (simp add: placed_def boot_fields booted_def)
  have img: "t \<in> boot_idle ` {..<n} \<longleftrightarrow> odd t \<and> t div 2 < n" "t \<in> (\<lambda>p. 2 * p) ` {..<n} \<longleftrightarrow> even t \<and> t div 2 < n" for t
    by (auto simp: boot_idle_def image_iff elim!: oddE evenE) presburger
  have act: "active ?\<sigma> t \<longleftrightarrow> t div 2 < n" for t
    by (simp add: active_def boot_fields boot_thread_def setAffinity_def setPriority_def th_new_def)
  have "inj_on boot_idle {..<n}" "inj_on (\<lambda>p. 2 * p) {..<n}" by (auto simp: inj_on_def boot_idle_def)
  then have "place_inv {} {} ?\<sigma>"
    unfolding place_inv_def pl count_union act by (auto simp: count_sum_single img)
  moreover have "sched_ok ?\<sigma>"
    using assms by (auto simp: sched_ok_def boot_fields booted_def ready_size_def prio_defs less_Suc_eq nth_Cons'
        boot_idle_def setPriority_def)
  moreover have "thread_ok ?\<sigma>"
    by (auto simp: thread_ok_def boot_fields boot_thread_def setAffinity_def setPriority_def th_new_def prio_defs split: if_splits)
  moreover have "idle_ok boot_idle {} ?\<sigma>"
    by (simp add: idle_ok_def boot_fields booted_def is_idle_def setAffinity_def setPriority_def th_new_def prio_defs boot_idle_def)
  moreover have "fin_ok {} ?\<sigma>"
    by (auto simp: fin_ok_def boot_fields boot_thread_def setAffinity_def setPriority_def th_new_def split: if_splits)
  moreover have "blocked_view ?\<sigma> = (\<lambda>_. None)"
    by (auto simp: fun_eq_iff blocked_view_def boot_fields boot_thread_def setAffinity_def setPriority_def th_new_def)
  then have "block_ok (waitq ?\<sigma>) (timeouts ?\<sigma>) (blocked_view ?\<sigma>)" by (simp add: block_ok_def boot_fields)
  ultimately show ?thesis by (simp add: rt_ok_def core_ok_def boot_fields)
qed

section \<open>Sequences of operations\<close>

datatype rt_op = Yield nat | Terminate nat | Spawn nat nat nat "nat option" | Sleep nat mword
  | WaitOn nat nat nat mword | Signal nat nat nat | Expire nat mword | Cancel nat nat

fun rt_exec :: "rt_op \<Rightarrow> rt \<Rightarrow> rt option" where
  "rt_exec (Yield p) \<sigma> = rt_yield p \<sigma>"
| "rt_exec (Terminate p) \<sigma> = terminate p \<sigma>"
| "rt_exec (Spawn p t pr aff) \<sigma> = spawn p t (\<lambda>th. setAffinity aff (setPriority pr th)) 0 defaultStack \<sigma>"
| "rt_exec (Sleep p k) \<sigma> = tmo_sleep p k \<sigma>"
| "rt_exec (WaitOn p l q k) \<sigma> = do { \<sigma>1 \<leftarrow> rt_acquire p l \<sigma>; (\<sigma>2, r) \<leftarrow> bq_block p l q k \<sigma>1; Some \<sigma>2 }"
| "rt_exec (Signal p l q) \<sigma> = do { \<sigma>1 \<leftarrow> rt_acquire p l \<sigma>; cond_signal p l q \<sigma>1 }"
| "rt_exec (Expire p now) \<sigma> = checkExpiry p now \<sigma>"
| "rt_exec (Cancel p t) \<sigma> = th_cancel p t \<sigma>"

text \<open>
  What callers respect: they run on an existing processor; the idle threads neither block
  nor end nor are cancelled; a new thread has a new name and valid settings; the lock of a
  queue is not the lock of the timeout list.
\<close>

fun op_ok :: "(nat \<Rightarrow> nat) \<Rightarrow> rt_op \<Rightarrow> rt \<Rightarrow> bool" where
  "op_ok idle (Yield p) \<sigma> = (p < nproc \<sigma>)"
| "op_ok idle (Terminate p) \<sigma> = (p < nproc \<sigma> \<and> no_idle idle (curr \<sigma> p) \<sigma>)"
| "op_ok idle (Spawn p t pr aff) \<sigma> = (p < nproc \<sigma> \<and> threads \<sigma> t = None \<and> pr < maxPriority \<and> (case aff of None \<Rightarrow> True | Some s \<Rightarrow> s < nproc \<sigma>))"
| "op_ok idle (Sleep p k) \<sigma> = (p < nproc \<sigma> \<and> no_idle idle (curr \<sigma> p) \<sigma>)"
| "op_ok idle (WaitOn p l q k) \<sigma> = (p < nproc \<sigma> \<and> no_idle idle (curr \<sigma> p) \<sigma> \<and> l \<noteq> timeout_lock)"
| "op_ok idle (Signal p l q) \<sigma> = (p < nproc \<sigma>)"
| "op_ok idle (Expire p now) \<sigma> = (p < nproc \<sigma>)"
| "op_ok idle (Cancel p t) \<sigma> = (p < nproc \<sigma> \<and> t \<noteq> curr \<sigma> p \<and> threads \<sigma> t \<noteq> None \<and> no_idle idle t \<sigma>)"

lemma undisturbed_ok:
  assumes "rt_ok idle \<sigma>" "undisturbed p \<sigma> \<sigma>'" "cpus \<sigma>' p = free_cpu" "locks \<sigma>' = locks \<sigma>" "core_ok idle {} {} \<sigma>'"
  shows "rt_ok idle \<sigma>'"
proof -
  have "cpus \<sigma>' r = free_cpu" if "r < nproc \<sigma>" for r
    using assms(1-3) that by (cases "r = p") (auto simp: undisturbed_def rt_ok_def)
  then show ?thesis using assms by (simp add: rt_ok_def undisturbed_def)
qed

lemma signal_ok:
  assumes "rt_cs idle p l \<sigma>"
  shows "\<exists>\<sigma>'. cond_signal p l q \<sigma> = Some \<sigma>' \<and> rt_ok idle \<sigma>' \<and> nproc \<sigma>' = nproc \<sigma>"
proof (cases "waitq \<sigma> q")
  case Nil
  then show ?thesis using leave_cs [OF assms] by (auto simp: cond_signal_def bq_resume_empty)
next
  case (Cons t ts)
  then show ?thesis using bq_resume_wakes [OF assms Cons] by (auto simp: cond_signal_def)
qed

lemma exec_ok:
  assumes ok: "rt_ok idle \<sigma>" and op: "op_ok idle op \<sigma>"
  shows "\<exists>\<sigma>'. rt_exec op \<sigma> = Some \<sigma>' \<and> rt_ok idle \<sigma>'"
proof -
  have core: "core_ok idle {} {} \<sigma>" and cp: "\<And>p. p < nproc \<sigma> \<Longrightarrow> cpus \<sigma> p = free_cpu" using ok by (auto simp: rt_ok_def)
  show ?thesis
  proof (cases op)
    case (Yield p)
    then have "p < nproc \<sigma>" using op by simp
    with yield_ok [OF core this cp [OF this]] undisturbed_ok [OF ok] show ?thesis unfolding Yield rt_exec.simps by blast
  next
    case (Terminate p)
    then have "p < nproc \<sigma>" "no_idle idle (curr \<sigma> p) \<sigma>" using op by simp_all
    with terminate_ok [OF core this(1) cp [OF this(1)] this(2)] undisturbed_ok [OF ok] show ?thesis
      unfolding Terminate rt_exec.simps by blast
  next
    case (Spawn p t pr aff)
    have "new_ok \<sigma> (setAffinity aff (setPriority pr (th_new 0 defaultStack)))"
      using op Spawn by (auto simp: new_ok_def setAffinity_def setPriority_def th_new_def split: option.splits)
    then obtain \<sigma>' where "spawn p t (\<lambda>th. setAffinity aff (setPriority pr th)) 0 defaultStack \<sigma> = Some \<sigma>'"
      "undisturbed p \<sigma> \<sigma>'" "cpus \<sigma>' = cpus \<sigma>" "locks \<sigma>' = locks \<sigma>" "core_ok idle {} {} \<sigma>'"
      using spawn_ok [OF core, of p t "\<lambda>th. setAffinity aff (setPriority pr th)" 0 defaultStack] op Spawn by auto
    then show ?thesis using Spawn op cp undisturbed_ok [OF ok] by auto
  next
    case (Sleep p k)
    then show ?thesis using sleep_ok [OF ok, of p k] op by auto
  next
    case (WaitOn p l q k)
    then have o: "p < nproc \<sigma>" "no_idle idle (curr \<sigma> p) \<sigma>" "l \<noteq> timeout_lock" using op by auto
    obtain \<sigma>1 where a: "rt_acquire p l \<sigma> = Some \<sigma>1" "rt_cs idle p l \<sigma>1" "curr \<sigma>1 = curr \<sigma>" "threads \<sigma>1 = threads \<sigma>" "nproc \<sigma>1 = nproc \<sigma>"
      using enter_cs [OF ok o(1)] by blast
    obtain th where th: "threads \<sigma> (curr \<sigma> p) = Some th" by (rule curr_active [OF core o(1)])
    have "\<exists>r. bq_block p l q k \<sigma>1 = Some r \<and> block_post idle (curr \<sigma>1 p) q (k \<noteq> 0 \<and> tstate th = Running) \<sigma>1 r"
      by (rule bq_block_ok [OF a(2)]) (use o th a in \<open>simp_all add: no_idle_def\<close>)
    then show ?thesis using a WaitOn by (auto simp: block_post_def)
  next
    case (Signal p l q)
    then obtain \<sigma>1 where "rt_acquire p l \<sigma> = Some \<sigma>1" "rt_cs idle p l \<sigma>1" using enter_cs [OF ok] op by fastforce
    then show ?thesis using signal_ok [of idle p l \<sigma>1 q] Signal by auto
  next
    case (Expire p now)
    then show ?thesis using checkExpiry_ok [OF ok, of p now] op by auto
  next
    case (Cancel p t)
    then show ?thesis using th_cancel_ok [OF ok, of p t] op by auto
  qed
qed

inductive rt_reach :: "nat \<Rightarrow> rt \<Rightarrow> bool" for n where
  boot: "rt_reach n (rt_boot n)"
| step: "rt_reach n \<sigma> \<Longrightarrow> op_ok boot_idle op \<sigma> \<Longrightarrow> rt_exec op \<sigma> = Some \<sigma>' \<Longrightarrow> rt_reach n \<sigma>'"

lemma reach_ok: "rt_reach n \<sigma> \<Longrightarrow> 0 < n \<Longrightarrow> rt_ok boot_idle \<sigma>"
proof (induction rule: rt_reach.induct)
  case boot
  then show ?case by (rule boot_ok)
next
  case (step \<sigma> op \<sigma>')
  then show ?case using exec_ok [of boot_idle \<sigma> op] by auto
qed

section \<open>Properties\<close>



section \<open>Semaphores and mutexes\<close>

definition sem_ok :: "semaphore \<Rightarrow> rt \<Rightarrow> bool" where
  "sem_ok s \<sigma> = (scounter s \<noteq> 0 \<longrightarrow> waitq \<sigma> (sbq s) = [])"

text \<open>
  C16: \<open>P\<close> takes a unit when there is one; otherwise a thread that may wait goes to the end of
  the queue and the others return false at once.  The counter is never positive while a
  thread waits.
\<close>

theorem semaphore_P:
  assumes "rt_ok idle \<sigma>" "p < nproc \<sigma>" "no_idle idle (curr \<sigma> p) \<sigma>" "slock s \<noteq> timeout_lock" "sem_ok s \<sigma>"
    and "threads \<sigma> (curr \<sigma> p) = Some th"
  shows "\<exists>s' \<sigma>' r. sem_P p k (s, \<sigma>) = Some ((s', \<sigma>'), r) \<and> rt_ok idle \<sigma>' \<and> sem_ok s' \<sigma>' \<and>
    (if scounter s \<noteq> 0 then r = Returned True \<and> scounter s' = scounter s - 1 \<and> waitq \<sigma>' = waitq \<sigma>
     else scounter s' = 0 \<and> (if k \<noteq> 0 \<and> tstate th = Running
       then r = Suspended \<and> waitq \<sigma>' = (waitq \<sigma>)(sbq s := waitq \<sigma> (sbq s) @ [curr \<sigma> p])
       else r = Returned False \<and> waitq \<sigma>' = waitq \<sigma>))"
proof -
  obtain \<sigma>1 where a: "rt_acquire p (slock s) \<sigma> = Some \<sigma>1" "rt_cs idle p (slock s) \<sigma>1" "curr \<sigma>1 = curr \<sigma>" "threads \<sigma>1 = threads \<sigma>"
    "waitq \<sigma>1 = waitq \<sigma>" "nproc \<sigma>1 = nproc \<sigma>"
    using enter_cs [OF assms(1,2)] by blast
  show ?thesis
  proof (cases "scounter s = 0")
    case False
    obtain \<sigma>2 where r: "rt_release p (slock s) \<sigma>1 = Some \<sigma>2" "rt_ok idle \<sigma>2" "waitq \<sigma>2 = waitq \<sigma>1" using leave_cs [OF a(2)] by blast
    have "\<not> scounter s < 1" using False by (metis word_less_1)
    then have "sem_P p k (s, \<sigma>) = Some ((s\<lparr>scounter := scounter s - 1\<rparr>, \<sigma>2), Returned True)" using a(1) r(1) by (simp add: sem_P_def)
    then show ?thesis using r a(5) assms(5) False by (simp add: sem_ok_def)
  next
    case True
    have "\<exists>r. bq_block p (slock s) (sbq s) k \<sigma>1 = Some r \<and> block_post idle (curr \<sigma>1 p) (sbq s) (k \<noteq> 0 \<and> tstate th = Running) \<sigma>1 r"
      by (rule bq_block_ok [OF a(2)]) (use assms a in \<open>simp_all add: no_idle_def\<close>)
    then obtain \<sigma>2 r where b: "bq_block p (slock s) (sbq s) k \<sigma>1 = Some (\<sigma>2, r)"
      "block_post idle (curr \<sigma>1 p) (sbq s) (k \<noteq> 0 \<and> tstate th = Running) \<sigma>1 (\<sigma>2, r)" by auto
    have "sem_P p k (s, \<sigma>) = Some ((s, \<sigma>2), r)" using a(1) b(1) True by (simp add: sem_P_def)
    then show ?thesis using b(2) a(3,5) True by (auto simp: block_post_def sem_ok_def)
  qed
qed

text \<open>
  C15: \<open>V\<close> hands its unit to the thread that has waited longest, or adds it to the counter when
  nobody waits; the woken thread is running again.
\<close>

theorem semaphore_V:
  assumes "rt_ok idle \<sigma>" "p < nproc \<sigma>" "sem_ok s \<sigma>"
  shows "\<exists>s' \<sigma>'. sem_V p (s, \<sigma>) = Some (s', \<sigma>') \<and> rt_ok idle \<sigma>' \<and> sem_ok s' \<sigma>' \<and>
    (case waitq \<sigma> (sbq s) of [] \<Rightarrow> scounter s' = scounter s + 1 \<and> waitq \<sigma>' = waitq \<sigma>
     | t # ts \<Rightarrow> scounter s' = scounter s \<and> waitq \<sigma>' = (waitq \<sigma>)(sbq s := ts) \<and> count (placed \<sigma>') t = 1)"
proof -
  obtain \<sigma>1 where a: "rt_acquire p (slock s) \<sigma> = Some \<sigma>1" "rt_cs idle p (slock s) \<sigma>1" "waitq \<sigma>1 = waitq \<sigma>" "nproc \<sigma>1 = nproc \<sigma>"
    using enter_cs [OF assms(1,2)] by blast
  show ?thesis
  proof (cases "waitq \<sigma> (sbq s)")
    case Nil
    obtain \<sigma>2 where r: "rt_release p (slock s) \<sigma>1 = Some \<sigma>2" "rt_ok idle \<sigma>2" "waitq \<sigma>2 = waitq \<sigma>1" using leave_cs [OF a(2)] by blast
    then show ?thesis using a Nil by (simp add: sem_V_def bq_resume_empty sem_ok_def)
  next
    case (Cons t ts)
    have "waitq \<sigma>1 (sbq s) = t # ts" using Cons a(3) by simp
    from bq_resume_wakes [OF a(2) this] obtain \<sigma>2 th where r: "bq_resume p (slock s) (sbq s) \<sigma>1 = Some (\<sigma>2, Some t)" "rt_ok idle \<sigma>2"
      "waitq \<sigma>2 = (waitq \<sigma>1)(sbq s := ts)" "threads \<sigma>2 = (threads \<sigma>1)(t \<mapsto> th\<lparr>tstate := Running\<rparr>)" by (elim exE conjE)
    have "active \<sigma>2 t" using r(4) by (simp add: active_def)
    then have "count (placed \<sigma>2) t = 1" using r(2) by (simp add: rt_ok_def core_ok_def place_inv_def)
    moreover have "scounter s = 0" using assms(3) Cons by (auto simp: sem_ok_def)
    ultimately show ?thesis using a r Cons by (simp add: sem_V_def sem_ok_def)
  qed
qed

text \<open>
  C17: Releasing a mutex passes it directly to the thread that has waited longest, which becomes
  the owner before any other thread can take it; with no waiter the mutex is free.
  Acquiring a mutex that is held never makes the caller its owner.
\<close>

theorem mutex_handover:
  assumes "rt_ok idle \<sigma>" "p < nproc \<sigma>" "mowner m = Some (curr \<sigma> p)"
  shows "\<exists>m' \<sigma>'. Mutex_release p (m, \<sigma>) = Some (m', \<sigma>') \<and> rt_ok idle \<sigma>' \<and>
    (case waitq \<sigma> (mbq m) of [] \<Rightarrow> mowner m' = None \<and> waitq \<sigma>' = waitq \<sigma>
     | t # ts \<Rightarrow> mowner m' = Some t \<and> waitq \<sigma>' = (waitq \<sigma>)(mbq m := ts) \<and> count (placed \<sigma>') t = 1)"
proof -
  obtain \<sigma>1 where a: "rt_acquire p (mlock m) \<sigma> = Some \<sigma>1" "rt_cs idle p (mlock m) \<sigma>1" "waitq \<sigma>1 = waitq \<sigma>" "nproc \<sigma>1 = nproc \<sigma>"
    using enter_cs [OF assms(1,2)] by blast
  show ?thesis
  proof (cases "waitq \<sigma> (mbq m)")
    case Nil
    obtain \<sigma>2 where r: "rt_release p (mlock m) \<sigma>1 = Some \<sigma>2" "rt_ok idle \<sigma>2" "waitq \<sigma>2 = waitq \<sigma>1" using leave_cs [OF a(2)] by blast
    then show ?thesis using a Nil assms(3) by (simp add: Mutex_release_def internalRelease_def bq_resume_empty)
  next
    case (Cons t ts)
    have "waitq \<sigma>1 (mbq m) = t # ts" using Cons a(3) by simp
    from bq_resume_wakes [OF a(2) this] obtain \<sigma>2 th where r: "bq_resume p (mlock m) (mbq m) \<sigma>1 = Some (\<sigma>2, Some t)" "rt_ok idle \<sigma>2"
      "waitq \<sigma>2 = (waitq \<sigma>1)(mbq m := ts)" "threads \<sigma>2 = (threads \<sigma>1)(t \<mapsto> th\<lparr>tstate := Running\<rparr>)" by (elim exE conjE)
    have "active \<sigma>2 t" using r(4) by (simp add: active_def)
    then have "count (placed \<sigma>2) t = 1" using r(2) by (simp add: rt_ok_def core_ok_def place_inv_def)
    then show ?thesis using a r Cons assms(3) by (simp add: Mutex_release_def internalRelease_def)
  qed
qed

text \<open>A semaphore with one unit and a mutex of the boot thread, in the booted system.\<close>

lemma boot_facts:
  "rt_ok boot_idle (rt_boot 2)" "nproc (rt_boot 2) = 2" "curr (rt_boot 2) 0 = 0" "waitq (rt_boot 2) q = []"
  "no_idle boot_idle 0 (rt_boot 2)" "threads (rt_boot 2) 0 = Some (boot_thread 0)"
  by (rule boot_ok) (simp_all add: boot_fields no_idle_def boot_idle_def)

theorem semaphore_P_witness:
  "\<exists>s' \<sigma>'. sem_P 0 0 (sem_init 1 1 1, rt_boot 2) = Some ((s', \<sigma>'), Returned True) \<and> scounter s' = 0 \<and> rt_ok boot_idle \<sigma>'"
  using semaphore_P [OF boot_facts(1), of 0 "sem_init 1 1 1" "boot_thread 0" 0] boot_facts
  by (auto simp: sem_init_def sem_ok_def timeout_lock_def)

theorem semaphore_V_witness:
  "\<exists>s' \<sigma>'. sem_V 0 (sem_init 1 1 1, rt_boot 2) = Some (s', \<sigma>') \<and> scounter s' = 2 \<and> rt_ok boot_idle \<sigma>'"
  using semaphore_V [OF boot_facts(1), of 0 "sem_init 1 1 1"] boot_facts
  by (auto simp: sem_init_def sem_ok_def)

theorem mutex_handover_witness:
  "\<exists>m' \<sigma>'. Mutex_release 0 (\<lparr>mlock = 1, mbq = 1, mowner = Some 0\<rparr>, rt_boot 2) = Some (m', \<sigma>') \<and> mowner m' = None \<and> rt_ok boot_idle \<sigma>'"
  using mutex_handover [OF boot_facts(1), of 0 "\<lparr>mlock = 1, mbq = 1, mowner = Some 0\<rparr>"] boot_facts by auto

end
