(* ===== verification/GdbProtocol.thy ===== *)
theory GdbProtocol
  imports Prelude
begin

unbundle bit_operations_syntax

text \<open>
  The remote serial protocol of the debugger stub (\<open>src/gdb/Gdb.cc\<close>, first part):
  characters and hexadecimal digits, framing of packets with a checksum, the
  conversion between memory and hexadecimal text, and numbers in packets.

  A character is a byte (\<open>8 word\<close>); the serial line is the list of bytes still
  to be received and the list of bytes sent. Reading from an exhausted line never
  returns (\<open>None\<close>), as the source polls the device. A buffer is a list of fixed
  length; a read or write outside it is undefined in C++ and gives \<open>None\<close>.

  The lemmas show that decoding inverts encoding, for digits, bytes, memory blocks
  and whole packets.
\<close>

type_synonym byte = "8 word"
type_synonym buf = "byte list"

definition chr :: "char \<Rightarrow> byte" where
  "chr c = of_char c"

definition lit :: "string \<Rightarrow> byte list" where
  "lit s = map chr s"

definition hexchars :: "byte list" where
  "hexchars = lit ''0123456789abcdef'' @ [0]"

definition buf_read :: "buf \<Rightarrow> nat \<Rightarrow> byte option" where
  "buf_read b i = (if i < length b then Some (b ! i) else None)"

definition buf_write :: "buf \<Rightarrow> nat \<Rightarrow> byte \<Rightarrow> buf option" where
  "buf_write b i v = (if i < length b then Some (b[i := v]) else None)"

fun buf_puts :: "buf \<Rightarrow> nat \<Rightarrow> byte list \<Rightarrow> buf option" where
  "buf_puts b p [] = Some b"
| "buf_puts b p (c # cs) = do { b' \<leftarrow> buf_write b p c; buf_puts b' (p + 1) cs }"

definition char2hex :: "byte \<Rightarrow> int" where
  "char2hex ch =
     (if chr CHR ''0'' \<le> ch \<and> ch \<le> chr CHR ''9'' then uint (ch - chr CHR ''0'')
      else if chr CHR ''a'' \<le> ch \<and> ch \<le> chr CHR ''f'' then uint (ch - chr CHR ''a'') + 10
      else if chr CHR ''A'' \<le> ch \<and> ch \<le> chr CHR ''F'' then uint (ch - chr CHR ''A'') + 10
      else - 1)"

definition hex_hi :: "byte \<Rightarrow> byte" where
  "hex_hi ch = hexchars ! unat (drop_bit 4 ch)"

definition hex_lo :: "byte \<Rightarrow> byte" where
  "hex_lo ch = hexchars ! unat (ch mod 16)"

definition hex_byte :: "byte \<Rightarrow> byte \<Rightarrow> byte" where
  "hex_byte h l = word_of_int (char2hex h * 16) + word_of_int (char2hex l)"

section \<open>Packets\<close>

record serial =
  rx :: "byte list"
  tx :: "byte list"

definition putbyte :: "byte \<Rightarrow> serial \<Rightarrow> serial" where
  "putbyte ch s = s\<lparr>tx := tx s @ [ch]\<rparr>"

definition getbyte :: "serial \<Rightarrow> (byte \<times> serial) option" where
  "getbyte s = (case rx s of [] \<Rightarrow> None | c # r \<Rightarrow> Some (c, s\<lparr>rx := r\<rparr>))"

fun skip_to_start :: "byte list \<Rightarrow> byte list option" where
  "skip_to_start [] = None"
| "skip_to_start (c # cs) = (if c = chr CHR ''$'' then Some cs else skip_to_start cs)"

fun read_body :: "nat \<Rightarrow> nat \<Rightarrow> byte \<Rightarrow> byte \<Rightarrow> buf \<Rightarrow> byte list \<Rightarrow> (nat \<times> byte \<times> byte \<times> buf \<times> byte list) option" where
  "read_body buflen count checksum ch b inp =
     (if count < buflen - 1 then
        (case inp of
           [] \<Rightarrow> None
         | c # r \<Rightarrow>
             if c = chr CHR ''$'' then read_body buflen 0 0 c b r
             else if c = chr CHR ''#'' then Some (count, c, checksum, b, r)
             else do { b' \<leftarrow> buf_write b count c; read_body buflen (count + 1) (checksum + c) c b' r })
      else Some (count, ch, checksum, b, inp))"

declare read_body.simps [simp del]

lemma skip_to_start_shorter: "skip_to_start inp = Some r \<Longrightarrow> length r < length inp"
  by (induction inp rule: skip_to_start.induct) (auto split: if_splits)

lemma read_body_shorter:
  "read_body n count cs ch b inp = Some (count', ch', cs', b', r) \<Longrightarrow> length r \<le> length inp"
proof (induction inp arbitrary: count cs ch b)
  case Nil
  then show ?case by (simp add: read_body.simps [of _ _ _ _ _ "[]"] split: if_splits)
next
  case (Cons c inp)
  from Cons.prems Cons.IH show ?case
    by (subst (asm) (1) read_body.simps)
      (fastforce split: if_splits bind_splits intro: le_SucI)
qed

function getpacket :: "nat \<Rightarrow> buf \<Rightarrow> serial \<Rightarrow> (nat \<times> buf \<times> serial) option" where
  "getpacket buflen b s =
     (case skip_to_start (rx s) of
        None \<Rightarrow> None
      | Some inp \<Rightarrow>
          (case read_body buflen 0 0 (chr CHR ''$'') b inp of
             None \<Rightarrow> None
           | Some (count, ch, checksum, b1, r) \<Rightarrow>
               (case buf_write b1 count 0 of
                  None \<Rightarrow> None
                | Some b2 \<Rightarrow>
                    if ch = chr CHR ''#'' then
                      (case r of
                         h # l # r' \<Rightarrow>
                           if checksum \<noteq> hex_byte h l
                           then getpacket buflen b2 (putbyte (chr CHR ''-'') (s\<lparr>rx := r'\<rparr>))
                           else do {
                             let s' = putbyte (chr CHR ''+'') (s\<lparr>rx := r'\<rparr>);
                             c2 \<leftarrow> buf_read b2 2;
                             if c2 = chr CHR '':'' then do {
                               c0 \<leftarrow> buf_read b2 0;
                               c1 \<leftarrow> buf_read b2 1;
                               Some (3, b2, putbyte c1 (putbyte c0 s')) }
                             else Some (0, b2, s') }
                       | _ \<Rightarrow> None)
                    else getpacket buflen b2 (s\<lparr>rx := r\<rparr>))))"
  by pat_completeness auto
termination
  by (relation "measure (\<lambda>(_, _, s). length (rx s))")
    (auto simp: putbyte_def dest!: skip_to_start_shorter read_body_shorter)

declare getpacket.simps [simp del]

definition checksum_of :: "byte list \<Rightarrow> byte" where
  "checksum_of cs = foldl (+) 0 cs"

definition packet :: "byte list \<Rightarrow> byte list" where
  "packet cs = chr CHR ''$'' # cs @ [chr CHR ''#'', hex_hi (checksum_of cs), hex_lo (checksum_of cs)]"

fun send_until_ack :: "byte list \<Rightarrow> byte list \<Rightarrow> byte list \<Rightarrow> (byte list \<times> byte list) option" where
  "send_until_ack pk sent [] = None"
| "send_until_ack pk sent (c # r) =
     (if c = chr CHR ''+'' then Some (sent @ pk, r) else send_until_ack pk (sent @ pk) r)"

definition c_string :: "buf \<Rightarrow> nat \<Rightarrow> byte list option" where
  "c_string b p = (if 0 \<in> set (drop p b) then Some (takeWhile (\<lambda>c. c \<noteq> 0) (drop p b)) else None)"

definition putpacket :: "buf \<Rightarrow> serial \<Rightarrow> serial option" where
  "putpacket b s = do {
     cs \<leftarrow> c_string b 0;
     (t, r) \<leftarrow> send_until_ack (packet cs) (tx s) (rx s);
     Some (s\<lparr>rx := r, tx := t\<rparr>) }"

section \<open>Memory and numbers as text\<close>

fun mem2hex_loop :: "(nat \<Rightarrow> byte option) \<Rightarrow> nat \<Rightarrow> nat \<Rightarrow> buf \<Rightarrow> nat \<Rightarrow> (bool \<times> buf \<times> nat) option" where
  "mem2hex_loop mem i 0 b p = do { b' \<leftarrow> buf_write b p 0; Some (False, b', p) }"
| "mem2hex_loop mem i (Suc n) b p =
     (case mem i of
        None \<Rightarrow> Some (True, b, p)
      | Some ch \<Rightarrow> do {
          b1 \<leftarrow> buf_write b p (hex_hi ch);
          b2 \<leftarrow> buf_write b1 (p + 1) (hex_lo ch);
          mem2hex_loop mem (i + 1) n b2 (p + 2) })"

fun hex2mem_loop :: "buf \<Rightarrow> nat \<Rightarrow> (nat \<Rightarrow> byte \<Rightarrow> 'm \<Rightarrow> 'm option) \<Rightarrow> nat \<Rightarrow> nat \<Rightarrow> 'm \<Rightarrow> (bool \<times> 'm) option" where
  "hex2mem_loop b p set_char i 0 m = Some (False, m)"
| "hex2mem_loop b p set_char i (Suc n) m = do {
     h \<leftarrow> buf_read b p;
     l \<leftarrow> buf_read b (p + 1);
     (case set_char i (hex_byte h l) m of
        None \<Rightarrow> Some (True, m)
      | Some m' \<Rightarrow> hex2mem_loop b (p + 2) set_char (i + 1) n m') }"

function hexToInt_loop :: "buf \<Rightarrow> nat \<Rightarrow> nat \<Rightarrow> 64 word \<Rightarrow> (nat \<times> 64 word \<times> nat) option" where
  "hexToInt_loop b p numChars v =
     (case buf_read b p of
        None \<Rightarrow> None
      | Some c \<Rightarrow>
          if c \<noteq> 0 \<and> char2hex c \<ge> 0
          then hexToInt_loop b (p + 1) (numChars + 1) (push_bit 4 v OR word_of_int (char2hex c))
          else Some (numChars, v, p))"
  by pat_completeness auto
termination
  by (relation "measure (\<lambda>(b, p, _). length b - p)") (auto simp: buf_read_def split: if_splits)

declare hexToInt_loop.simps [simp del]

definition hexToInt :: "buf \<Rightarrow> nat \<Rightarrow> (nat \<times> 64 word \<times> nat) option" where
  "hexToInt b p = hexToInt_loop b p 0 0"

definition le_bytes :: "nat \<Rightarrow> 'a::len word \<Rightarrow> byte list" where
  "le_bytes n w = map (\<lambda>i. ucast (drop_bit (8 * i) w)) [0..<n]"

fun le_word :: "byte list \<Rightarrow> 'a::len word" where
  "le_word [] = 0"
| "le_word (c # cs) = ucast c OR push_bit 8 (le_word cs)"

section \<open>Digits and bytes\<close>

lemma byte_cases:
  assumes "\<And>n. n < 256 \<Longrightarrow> P (word_of_nat n :: byte)"
  shows "P c"
proof -
  have "unat c < 256" using unat_lt_pow [of c] by simp
  from assms [OF this] show ?thesis by simp
qed

lemma hex_byte_all: "\<forall>n \<in> set [0..<256]. hex_byte (hex_hi (word_of_nat n)) (hex_lo (word_of_nat n)) = word_of_nat n"
  by code_simp

lemma hex_byte_hex [simp]: "hex_byte (hex_hi c) (hex_lo c) = c"
  by (rule byte_cases) (use hex_byte_all in \<open>simp only: set_upt atLeastLessThan_iff le0 simp_thms Ball_def\<close>)

lemma bit_le_word: "bit (le_word bs :: 'a::len word) k \<longleftrightarrow> k < LENGTH('a) \<and> k div 8 < length bs \<and> bit (bs ! (k div 8)) (k mod 8)"
proof (induction bs arbitrary: k)
  case (Cons c bs)
  show ?case
  proof (cases "k < 8")
    case True
    then show ?thesis by (auto simp: bit_simps)
  next
    case False
    then have "k div 8 = Suc ((k - 8) div 8)" "k mod 8 = (k - 8) mod 8"
      by (simp_all add: le_div_geq le_mod_geq)
    moreover have "\<not> bit c k" using False by (simp add: bit_word.rep_eq)
    ultimately show ?thesis
      using False Cons.IH [of "k - 8"] by (auto simp: bit_simps possible_bit_def)
  qed
qed simp

lemma le_word_le_bytes [simp]: "8 * n = LENGTH('a) \<Longrightarrow> le_word (le_bytes n w) = (w :: 'a::len word)"
  by (rule bit_word_eqI) (auto simp: bit_le_word le_bytes_def bit_simps)

lemma length_le_bytes [simp]: "length (le_bytes n w) = n"
  by (simp add: le_bytes_def)

lemma le_bytes_le_word:
  assumes "8 * n \<le> LENGTH('a)" "length bs = n"
  shows "le_bytes n (le_word bs :: 'a::len word) = bs"
proof (rule nth_equalityI)
  show "length (le_bytes n (le_word bs :: 'a word)) = length bs" using assms by simp
  fix i assume "i < length (le_bytes n (le_word bs :: 'a word))"
  then have i: "i < n" by simp
  have "le_bytes n (le_word bs :: 'a word) ! i = ucast (drop_bit (8 * i) (le_word bs :: 'a word))"
    using i by (simp add: le_bytes_def)
  also have "\<dots> = bs ! i"
    by (rule bit_word_eqI) (use i assms in \<open>auto simp: bit_simps bit_le_word\<close>)
  finally show "le_bytes n (le_word bs :: 'a word) ! i = bs ! i" .
qed

section \<open>Blocks of memory\<close>

definition hexstr :: "byte list \<Rightarrow> byte list" where
  "hexstr cs = concat (map (\<lambda>c. [hex_hi c, hex_lo c]) cs)"

lemma hexstr_simps [simp]:
  "hexstr [] = []" "hexstr (c # cs) = hex_hi c # hex_lo c # hexstr cs"
  "length (hexstr cs) = 2 * length cs"
  by (simp_all add: hexstr_def length_concat) (induction cs; simp)

lemma take_update_last: "p < length b \<Longrightarrow> take (Suc p) (b[p := c]) = take p b @ [c]"
  by (simp add: take_Suc_conv_app_nth)

lemma buf_puts_eq:
  "p + length cs \<le> length b \<Longrightarrow> buf_puts b p cs = Some (take p b @ cs @ drop (p + length cs) b)"
proof (induction cs arbitrary: b p)
  case (Cons c cs)
  then show ?case
    by (simp add: buf_write_def take_update_last)
qed simp

lemma mem2hex_puts:
  assumes "\<forall>k<length cs. mem (i + k) = Some (cs ! k)" "p + 2 * length cs < length b"
  shows "mem2hex_loop mem i (length cs) b p =
    Some (False, take p b @ hexstr cs @ 0 # drop (p + 2 * length cs + 1) b, p + 2 * length cs)"
  using assms
proof (induction cs arbitrary: b p i)
  case Nil
  then show ?case by (simp add: buf_write_def upd_conv_take_nth_drop)
next
  case (Cons c cs)
  let ?b = "b[p := hex_hi c, Suc p := hex_lo c]"
  have m: "mem i = Some c" "\<forall>k<length cs. mem (Suc i + k) = Some (cs ! k)"
    using Cons.prems(1) by (auto simp: nth_Cons' dest: spec [of _ "Suc _"] spec [of _ 0])
  have t: "take (Suc (Suc p)) ?b = take p b @ [hex_hi c, hex_lo c]"
    using Cons.prems(2) by (simp add: take_Suc_conv_app_nth nth_list_update take_update_last)
  have "mem2hex_loop mem (Suc i) (length cs) ?b (Suc (Suc p)) =
      Some (False, take (Suc (Suc p)) ?b @ hexstr cs @ 0 # drop (Suc (Suc p) + 2 * length cs + 1) ?b,
        Suc (Suc p) + 2 * length cs)"
    by (rule Cons.IH) (use m(2) Cons.prems(2) in simp_all)
  then show ?case
    using m Cons.prems(2) t by (simp add: buf_write_def)
qed

lemma mem2hex_fault:
  assumes "mem (i + k) = None" "\<forall>j<k. mem (i + j) \<noteq> None" "k < n" "p + 2 * k \<le> length b"
  shows "\<exists>b' q. mem2hex_loop mem i n b p = Some (True, b', q) \<and> length b' = length b"
  using assms
proof (induction n arbitrary: b p i k)
  case (Suc n)
  show ?case
  proof (cases k)
    case 0
    then show ?thesis using Suc.prems by simp
  next
    case (Suc k')
    obtain c where c: "mem i = Some c" using Suc.prems(2) Suc by (metis add_0_right not_None_eq zero_less_Suc)
    have "\<exists>b' q. mem2hex_loop mem (Suc i) n (b[p := hex_hi c, Suc p := hex_lo c]) (Suc (Suc p))
        = Some (True, b', q) \<and> length b' = length (b[p := hex_hi c, Suc p := hex_lo c])"
      by (rule Suc.IH [of "Suc i" k'])
        (use Suc.prems Suc in \<open>auto dest: spec [of _ "Suc _"]\<close>)
    then show ?thesis using c Suc.prems Suc by (simp add: buf_write_def)
  qed
qed simp

lemma hex2mem_puts:
  assumes "take (2 * length cs) (drop p b) = hexstr cs" "off + i + length cs \<le> length m"
  shows "hex2mem_loop b p (\<lambda>j v m. buf_write m (off + j) v) i (length cs) m =
    Some (False, take (off + i) m @ cs @ drop (off + i + length cs) m)"
  using assms
proof (induction cs arbitrary: p i m)
  case (Cons c cs)
  have two: "Suc p < length b"
    using arg_cong [OF Cons.prems(1), of length] by simp
  have eq: "drop p b = b ! p # b ! Suc p # drop (Suc (Suc p)) b"
    using two by (simp add: Cons_nth_drop_Suc)
  have h: "b ! p = hex_hi c" "b ! Suc p = hex_lo c" "take (2 * length cs) (drop (Suc (Suc p)) b) = hexstr cs"
    using Cons.prems(1) unfolding eq by simp_all
  have "hex2mem_loop b (Suc (Suc p)) (\<lambda>j v m. buf_write m (off + j) v) (Suc i) (length cs) (m[off + i := c]) =
      Some (False, take (off + Suc i) (m[off + i := c]) @ cs @ drop (off + Suc i + length cs) (m[off + i := c]))"
    by (rule Cons.IH) (use h(3) Cons.prems(2) in simp_all)
  then show ?case
    using h two Cons.prems(2)
    by (simp add: buf_read_def buf_write_def take_Suc_conv_app_nth take_update_last)
qed simp

section \<open>Packets round trip\<close>

definition plain :: "byte list \<Rightarrow> bool" where
  "plain cs = (chr CHR ''$'' \<notin> set cs \<and> chr CHR ''#'' \<notin> set cs)"

lemma skip_to_start_noise:
  "chr CHR ''$'' \<notin> set noise \<Longrightarrow> skip_to_start (noise @ chr CHR ''$'' # r) = Some r"
  by (induction noise) auto

lemma read_body_plain:
  assumes "plain cs" "count + length cs < n - 1" "n \<le> length b"
  shows "read_body n count acc ch b (cs @ chr CHR ''#'' # r) =
    Some (count + length cs, chr CHR ''#'', foldl (+) acc cs,
      take count b @ cs @ drop (count + length cs) b, r)"
  using assms
proof (induction cs arbitrary: count acc ch b)
  case Nil
  then show ?case by (subst read_body.simps) (simp add: chr_def)
next
  case (Cons c cs)
  have "read_body n (Suc count) (acc + c) c (b[count := c]) (cs @ chr CHR ''#'' # r) =
    Some (Suc count + length cs, chr CHR ''#'', foldl (+) (acc + c) cs,
      take (Suc count) (b[count := c]) @ cs @ drop (Suc count + length cs) (b[count := c]), r)"
    by (rule Cons.IH) (use Cons.prems in \<open>simp_all add: plain_def\<close>)
  then show ?case
    using Cons.prems
    by (subst read_body.simps) (auto simp: plain_def buf_write_def take_update_last)
qed

lemma getpacket_plain:
  assumes "plain cs" "length cs + 1 < n" "n \<le> length b" "chr CHR ''$'' \<notin> set noise" "2 < length b"
    and b': "b' = cs @ 0 # drop (length cs + 1) b" "b' ! 2 \<noteq> chr CHR '':''"
  shows "getpacket n b \<lparr>rx = noise @ packet cs @ r, tx = t\<rparr> =
    Some (0, b', \<lparr>rx = r, tx = t @ [chr CHR ''+'']\<rparr>)"
proof -
  have body: "read_body n 0 0 (chr CHR ''$'') b (cs @ chr CHR ''#'' # hex_hi (checksum_of cs) # hex_lo (checksum_of cs) # r) =
     Some (length cs, chr CHR ''#'', checksum_of cs, cs @ drop (length cs) b, hex_hi (checksum_of cs) # hex_lo (checksum_of cs) # r)"
    using read_body_plain [of cs 0 n b 0] assms by (simp add: checksum_of_def)
  have w: "buf_write (cs @ drop (length cs) b) (length cs) 0 = Some b'"
    using assms(2,3) b'(1) by (simp add: buf_write_def list_update_append upd_conv_take_nth_drop)
  have "2 < length b'" using assms b'(1) by simp
  then show ?thesis
    using b'(2) w body
    by (subst getpacket.simps)
      (simp add: packet_def skip_to_start_noise [OF assms(4)] putbyte_def buf_read_def)
qed

end
