(* ===== verification/GdbHandlers.thy ===== *)
theory GdbHandlers
  imports GdbProtocol Locks
begin

text \<open>
  The packet handlers of the debugger stub (\<open>src/gdb/Gdb.cc\<close>, middle part): the
  queries, registers, memory, software breakpoints and the \<open>vCont\<close> packet, and
  \<open>handlePacket\<close>, which receives one packet, dispatches it and replies.

  The record \<open>gdb\<close> holds the static variables of the file. The memory that the
  debugger inspects is a map from addresses to bytes; an address outside its
  domain, or a write to a byte that is not writable, takes a page fault, which the
  fault handler turns into \<open>gdbFaultHandlerCalled\<close>. The argument \<open>tid\<close> is \<open>cTID()\<close>,
  the number of the executing processor plus one. An index outside the array of
  processors or a character outside a buffer gives \<open>None\<close>.
\<close>

datatype gdb_state = Unknown | Stopped | Running

record gdb_cpu =
  reg64buf :: "64 word list"
  reg32buf :: "32 word list"
  gstate :: gdb_state
  ticket :: int

record vcont =
  action :: byte
  vsignal :: "64 word"
  vtid :: "64 word"

record gdb =
  line :: serial
  gcpus :: "gdb_cpu list"
  memory :: "vaddr \<rightharpoonup> byte"
  writable :: "vaddr \<Rightarrow> bool"
  gdbFaultHandlerCalled :: bool
  gdbFaultHandlerEnabled :: bool
  bpMap :: "vaddr \<rightharpoonup> byte"
  hook_addr :: mword
  hook_break :: bool
  Htid :: int
  vCont :: vcont
  inbuf :: buf
  outbuf :: buf

definition reg64cnt :: nat where "reg64cnt = 17"
definition reg32cnt :: nat where "reg32cnt = 7"
definition RIP :: nat where "RIP = 16"
definition EFLAGS :: nat where "EFLAGS = 0"
definition TF :: "32 word" where "TF = 0x100"
definition gdb_stackSize :: mword where "gdb_stackSize = push_bit 16 1"

definition GdbCpu_init :: gdb_cpu where
  "GdbCpu_init = \<lparr>reg64buf = replicate reg64cnt 0, reg32buf = replicate reg32cnt 0, gstate = Unknown, ticket = 0\<rparr>"

definition getGdbStack :: "mword \<Rightarrow> mword" where
  "getGdbStack cpu = cpu + gdb_stackSize"

section \<open>Processors and registers\<close>

definition cpu_at :: "int \<Rightarrow> gdb \<Rightarrow> gdb_cpu option" where
  "cpu_at idx g = (if 0 \<le> idx \<and> idx < int (length (gcpus g)) then Some (gcpus g ! nat idx) else None)"

definition set_cpu_at :: "int \<Rightarrow> gdb_cpu \<Rightarrow> gdb \<Rightarrow> gdb option" where
  "set_cpu_at idx c g = (if 0 \<le> idx \<and> idx < int (length (gcpus g)) then Some (g\<lparr>gcpus := (gcpus g)[nat idx := c]\<rparr>) else None)"

definition startGdbCpu :: "bool \<Rightarrow> int \<Rightarrow> gdb \<Rightarrow> gdb option" where
  "startGdbCpu enabled idx g =
     (if \<not> enabled then Some g else do { c \<leftarrow> cpu_at idx g; set_cpu_at idx (c\<lparr>gstate := Running\<rparr>) g })"

definition reg_bytes :: "gdb_cpu \<Rightarrow> byte list" where
  "reg_bytes c = concat (map (le_bytes 8) (reg64buf c)) @ concat (map (le_bytes 4) (reg32buf c))"

fun le_words :: "nat \<Rightarrow> nat \<Rightarrow> byte list \<Rightarrow> 'a::len word list" where
  "le_words sz 0 bs = []"
| "le_words sz (Suc n) bs = le_word (take sz bs) # le_words sz n (drop sz bs)"

definition set_reg_bytes :: "byte list \<Rightarrow> gdb_cpu \<Rightarrow> gdb_cpu" where
  "set_reg_bytes bs c = c\<lparr>reg64buf := le_words 8 reg64cnt bs, reg32buf := le_words 4 reg32cnt (drop (8 * reg64cnt) bs)\<rparr>"

definition getReg64 :: "nat \<Rightarrow> int \<Rightarrow> gdb \<Rightarrow> 64 word option" where
  "getReg64 regno idx g = do { c \<leftarrow> cpu_at idx g; if regno < length (reg64buf c) then Some (reg64buf c ! regno) else None }"

definition getReg32 :: "nat \<Rightarrow> int \<Rightarrow> gdb \<Rightarrow> 32 word option" where
  "getReg32 regno idx g = do { c \<leftarrow> cpu_at idx g; if regno < length (reg32buf c) then Some (reg32buf c ! regno) else None }"

definition setReg64 :: "nat \<Rightarrow> 64 word \<Rightarrow> int \<Rightarrow> gdb \<Rightarrow> gdb option" where
  "setReg64 regno v idx g = do {
     c \<leftarrow> cpu_at idx g;
     kassert (regno < length (reg64buf c));
     set_cpu_at idx (c\<lparr>reg64buf := (reg64buf c)[regno := v]\<rparr>) g }"

definition setReg32 :: "nat \<Rightarrow> 32 word \<Rightarrow> int \<Rightarrow> gdb \<Rightarrow> gdb option" where
  "setReg32 regno v idx g = do {
     c \<leftarrow> cpu_at idx g;
     kassert (regno < length (reg32buf c));
     set_cpu_at idx (c\<lparr>reg32buf := (reg32buf c)[regno := v]\<rparr>) g }"

section \<open>Memory\<close>

definition get_char :: "vaddr \<Rightarrow> gdb \<Rightarrow> byte option" where
  "get_char a g = memory g a"

definition set_char :: "vaddr \<Rightarrow> byte \<Rightarrow> gdb \<Rightarrow> gdb option" where
  "set_char a v g = (if memory g a \<noteq> None \<and> writable g a then Some (g\<lparr>memory := (memory g)(a \<mapsto> v)\<rparr>) else None)"

definition mem2hex :: "(nat \<Rightarrow> byte option) \<Rightarrow> nat \<Rightarrow> buf \<Rightarrow> nat \<Rightarrow> bool \<Rightarrow> gdb \<Rightarrow> (gdb \<times> buf \<times> nat) option" where
  "mem2hex mem count b p may_fault g = do {
     (fault, b', q) \<leftarrow> mem2hex_loop mem 0 count b p;
     kassert (fault \<longrightarrow> may_fault);
     Some (g\<lparr>gdbFaultHandlerCalled := fault, gdbFaultHandlerEnabled := fault\<rparr>, b', q) }"

definition hex2mem :: "buf \<Rightarrow> nat \<Rightarrow> (nat \<Rightarrow> byte \<Rightarrow> 'm \<Rightarrow> 'm option) \<Rightarrow> nat \<Rightarrow> bool \<Rightarrow> 'm \<Rightarrow> (bool \<times> 'm) option" where
  "hex2mem b p store count may_fault m = do {
     (fault, m') \<leftarrow> hex2mem_loop b p store 0 count m;
     kassert (fault \<longrightarrow> may_fault);
     Some (fault, m') }"

definition fault_flags :: "bool \<Rightarrow> gdb \<Rightarrow> gdb" where
  "fault_flags fault g = g\<lparr>gdbFaultHandlerCalled := fault, gdbFaultHandlerEnabled := fault\<rparr>"

definition to_int_arg :: "64 word \<Rightarrow> nat" where
  "to_int_arg l = nat (sint (ucast l :: 32 word))"

section \<open>Replies\<close>

definition strcpy :: "string \<Rightarrow> gdb \<Rightarrow> gdb option" where
  "strcpy s g = do { b \<leftarrow> buf_puts (outbuf g) 0 (lit s @ [0]); Some (g\<lparr>outbuf := b\<rparr>) }"

definition error_reply :: "gdb \<Rightarrow> (bool \<times> gdb) option" where
  "error_reply g = do { g' \<leftarrow> strcpy ''E01'' g; Some (False, g') }"

definition ok_reply :: "gdb \<Rightarrow> (bool \<times> gdb) option" where
  "ok_reply g = do { g' \<leftarrow> strcpy ''OK'' g; Some (True, g') }"

fun match_at :: "buf \<Rightarrow> nat \<Rightarrow> byte list \<Rightarrow> bool option" where
  "match_at b p [] = Some True"
| "match_at b p (c # cs) = do { d \<leftarrow> buf_read b p; if d = c then match_at b (p + 1) cs else Some False }"

definition strncmp_eq :: "string \<Rightarrow> nat \<Rightarrow> gdb \<Rightarrow> bool option" where
  "strncmp_eq s p g = match_at (inbuf g) p (lit s)"

definition hexdigit :: "int \<Rightarrow> byte option" where
  "hexdigit i = (if i < 0 then None else buf_read hexchars (nat i))"

definition hex2digits :: "int \<Rightarrow> byte list option" where
  "hex2digits v = do { h \<leftarrow> hexdigit (v div 16); l \<leftarrow> hexdigit (v mod 16); Some [h, l] }"

section \<open>Queries\<close>

definition handle_qSupported :: "nat \<Rightarrow> gdb \<Rightarrow> (bool \<times> gdb) option" where
  "handle_qSupported p g = do {
     m \<leftarrow> strncmp_eq ''Supported'' p g;
     if m then do { g' \<leftarrow> strcpy ''PacketSize=1000'' g; Some (True, g') } else Some (False, g) }"

definition handle_qC :: "int \<Rightarrow> nat \<Rightarrow> gdb \<Rightarrow> (bool \<times> gdb) option" where
  "handle_qC tid p g = do {
     c \<leftarrow> buf_read (inbuf g) p;
     if c = chr CHR ''C'' then do {
       hl \<leftarrow> hex2digits tid;
       b \<leftarrow> buf_puts (outbuf g) 0 (lit ''QC'' @ hl @ [0]);
       Some (True, g\<lparr>outbuf := b\<rparr>) }
     else Some (False, g) }"

definition handle_qAttached :: "nat \<Rightarrow> gdb \<Rightarrow> (bool \<times> gdb) option" where
  "handle_qAttached p g = do {
     m \<leftarrow> strncmp_eq ''Attached'' p g;
     if m then do { b \<leftarrow> buf_puts (outbuf g) 0 (lit ''0'' @ [0]); Some (True, g\<lparr>outbuf := b\<rparr>) }
     else Some (False, g) }"

definition handle_qOffsets :: "nat \<Rightarrow> gdb \<Rightarrow> (bool \<times> gdb) option" where
  "handle_qOffsets p g = do {
     m \<leftarrow> strncmp_eq ''Offsets'' p g;
     if m then do { g' \<leftarrow> strcpy ''Text=0;Data=0;Bss=0'' g; Some (True, g') } else Some (False, g) }"

definition symbolName :: "byte list" where
  "symbolName = lit ''_Unwind_DebugHook''"

definition list_mem :: "byte list \<Rightarrow> nat \<Rightarrow> byte option" where
  "list_mem cs i = buf_read cs i"

definition handle_qSymbol :: "nat \<Rightarrow> gdb \<Rightarrow> (bool \<times> gdb) option" where
  "handle_qSymbol p g = do {
     m \<leftarrow> strncmp_eq ''Symbol::'' p g;
     if m then do {
       g1 \<leftarrow> strcpy ''qSymbol:'' g;
       (g2, b, q) \<leftarrow> mem2hex (list_mem symbolName) (length symbolName) (outbuf g1) 8 False g1;
       Some (True, g2\<lparr>outbuf := b\<rparr>) }
     else Some (False, g) }"

definition handle_qSymbolResponse :: "nat \<Rightarrow> gdb \<Rightarrow> (bool \<times> gdb) option" where
  "handle_qSymbolResponse p g = do {
     m \<leftarrow> strncmp_eq ''Symbol:'' p g;
     if m then do {
       (n, addr, q) \<leftarrow> hexToInt (inbuf g) (p + 7);
       if n \<noteq> 0 then do {
         (fault, cs) \<leftarrow> hex2mem (inbuf g) (q + 1) (\<lambda>i v cs. buf_write cs i v) (length symbolName) False (replicate 32 0);
         kassert (c_string (cs[length symbolName := 0]) 0 = Some symbolName);
         g' \<leftarrow> strcpy ''OK'' (fault_flags fault (g\<lparr>hook_addr := addr\<rparr>));
         Some (True, g') }
       else Some (False, g) }
     else Some (False, g) }"

definition handle_qTStatus :: "nat \<Rightarrow> gdb \<Rightarrow> (bool \<times> gdb) option" where
  "handle_qTStatus p g = do {
     m \<leftarrow> strncmp_eq ''TStatus'' p g;
     if m then do { s \<leftarrow> putpacket (outbuf g) (line g); Some (True, g\<lparr>line := s\<rparr>) }
     else Some (False, g) }"

fun thread_ids :: "nat \<Rightarrow> nat \<Rightarrow> buf \<Rightarrow> nat \<Rightarrow> (buf \<times> nat) option" where
  "thread_ids i 0 b p = Some (b, p)"
| "thread_ids i (Suc n) b p = do {
     b1 \<leftarrow> (if i > 0 then buf_puts b p (lit '','') else Some b);
     let p1 = (if i > 0 then p + 1 else p);
     hl \<leftarrow> hex2digits (int i + 1);
     b2 \<leftarrow> buf_puts b1 p1 hl;
     thread_ids (i + 1) n b2 (p1 + 2) }"

definition handle_qfThreadInfo :: "nat \<Rightarrow> gdb \<Rightarrow> (bool \<times> gdb) option" where
  "handle_qfThreadInfo p g = do {
     m \<leftarrow> strncmp_eq ''fThreadInfo'' p g;
     if m then do {
       b \<leftarrow> buf_puts (outbuf g) 0 (lit ''m'');
       (b1, q) \<leftarrow> thread_ids 0 (length (gcpus g)) b 1;
       b2 \<leftarrow> buf_write b1 q 0;
       Some (True, g\<lparr>outbuf := b2\<rparr>) }
     else Some (False, g) }"

definition handle_qsThreadInfo :: "nat \<Rightarrow> gdb \<Rightarrow> (bool \<times> gdb) option" where
  "handle_qsThreadInfo p g = do {
     m \<leftarrow> strncmp_eq ''sThreadInfo'' p g;
     if m then do { b \<leftarrow> buf_puts (outbuf g) 0 (lit ''l'' @ [0]); Some (True, g\<lparr>outbuf := b\<rparr>) }
     else Some (False, g) }"

definition state_name :: "gdb_state \<Rightarrow> string" where
  "state_name st = (case st of Unknown \<Rightarrow> ''Unknown'' | Stopped \<Rightarrow> ''Stopped'' | Running \<Rightarrow> ''Running'')"

fun decimal :: "nat \<Rightarrow> byte list" where
  "decimal n = (if n < 10 then [chr CHR ''0'' + of_nat n] else decimal (n div 10) @ [chr CHR ''0'' + of_nat (n mod 10)])"

declare decimal.simps [simp del]

definition handle_qThreadExtraInfo :: "nat \<Rightarrow> gdb \<Rightarrow> (bool \<times> gdb) option" where
  "handle_qThreadExtraInfo p g = do {
     m \<leftarrow> strncmp_eq ''ThreadExtraInfo'' p g;
     if m then do {
       (n, threadId, q) \<leftarrow> hexToInt (inbuf g) (p + 16);
       if n \<noteq> 0 then do {
         c \<leftarrow> cpu_at (sint threadId - 1) g;
         let info = take 39 (lit ''CPU '' @ decimal (unat (threadId - 1)) @ lit '' ['' @ lit (state_name (gstate c)) @ lit '']'');
         (g1, b, q1) \<leftarrow> mem2hex (list_mem info) (length info) (outbuf g) 0 False g;
         Some (True, g1\<lparr>outbuf := b\<rparr>) }
       else Some (False, g) }
     else Some (False, g) }"

section \<open>Threads and registers\<close>

definition handleThreadAlive :: "nat \<Rightarrow> gdb \<Rightarrow> (bool \<times> gdb) option" where
  "handleThreadAlive p g = do {
     (n, threadId, q) \<leftarrow> hexToInt (inbuf g) p;
     if n \<noteq> 0 \<and> 1 \<le> unat threadId \<and> unat threadId \<le> length (gcpus g) then ok_reply g
     else error_reply g }"

definition handleReasonTargetHalted :: "int \<Rightarrow> int \<Rightarrow> buf \<Rightarrow> gdb \<Rightarrow> (buf \<times> gdb) option" where
  "handleReasonTargetHalted sigval tid b g = do {
     let idx = (if Htid g \<noteq> -2 then Htid g else tid);
     let g1 = g\<lparr>Htid := -2\<rparr>;
     sg \<leftarrow> hex2digits sigval;
     th \<leftarrow> hex2digits idx;
     rn \<leftarrow> hex2digits (int RIP);
     b1 \<leftarrow> buf_puts b 0 (lit ''T'' @ sg @ lit ''thread:'' @ th @ lit '';'' @ rn @ lit '':'');
     v \<leftarrow> getReg64 RIP (idx - 1) g1;
     (g2, b2, q) \<leftarrow> mem2hex (list_mem (le_bytes 8 v)) 8 b1 16 False g1;
     b3 \<leftarrow> buf_puts b2 q (lit '';'' @ [0]);
     Some (b3, g2) }"

definition reg_idx :: "int \<Rightarrow> gdb \<Rightarrow> int \<times> gdb" where
  "reg_idx tid g = (if Htid g \<noteq> -2 then (Htid g - 1, g\<lparr>Htid := -2\<rparr>) else (tid - 1, g))"

definition reg_size :: nat where "reg_size = 8 * reg64cnt + 4 * reg32cnt"

definition handleReadRegisters :: "int \<Rightarrow> gdb \<Rightarrow> (bool \<times> gdb) option" where
  "handleReadRegisters tid g = do {
     let (idx, g1) = reg_idx tid g;
     c \<leftarrow> cpu_at idx g1;
     (g2, b, q) \<leftarrow> mem2hex (list_mem (reg_bytes c)) reg_size (outbuf g1) 0 False g1;
     Some (True, g2\<lparr>outbuf := b\<rparr>) }"

definition handleWriteRegisters :: "int \<Rightarrow> nat \<Rightarrow> gdb \<Rightarrow> (bool \<times> gdb) option" where
  "handleWriteRegisters tid p g = do {
     let (idx, g1) = reg_idx tid g;
     c \<leftarrow> cpu_at idx g1;
     (fault, bs) \<leftarrow> hex2mem (inbuf g1) p (\<lambda>i v bs. buf_write bs i v) reg_size False (reg_bytes c);
     g2 \<leftarrow> set_cpu_at idx (set_reg_bytes bs c) (fault_flags fault g1);
     ok_reply g2 }"

definition handleReadRegister :: "int \<Rightarrow> nat \<Rightarrow> gdb \<Rightarrow> (bool \<times> gdb) option" where
  "handleReadRegister tid p g = do {
     let (idx, g1) = reg_idx tid g;
     (n, regno, q) \<leftarrow> hexToInt (inbuf g1) p;
     if n = 0 then error_reply g1 else do {
       e \<leftarrow> buf_read (inbuf g1) q;
       if e \<noteq> chr CHR ''='' then error_reply g1
       else if 0 \<le> sint regno \<and> sint regno < int reg64cnt then do {
         v \<leftarrow> getReg64 (unat regno) idx g1;
         (g2, b, q2) \<leftarrow> mem2hex (list_mem (le_bytes 8 v)) 8 (outbuf g1) 0 False g1;
         Some (True, g2\<lparr>outbuf := b\<rparr>) }
       else do {
         let regno' = regno - of_nat reg64cnt;
         if 0 \<le> sint regno' \<and> sint regno' < int reg32cnt then do {
           v \<leftarrow> getReg32 (unat regno') idx g1;
           (g2, b, q2) \<leftarrow> mem2hex (list_mem (le_bytes 4 v)) 4 (outbuf g1) 0 False g1;
           Some (True, g2\<lparr>outbuf := b\<rparr>) }
         else error_reply g1 } } }"

definition handleWriteRegister :: "int \<Rightarrow> nat \<Rightarrow> gdb \<Rightarrow> (bool \<times> gdb) option" where
  "handleWriteRegister tid p g = do {
     let (idx, g1) = reg_idx tid g;
     (n, regno, q) \<leftarrow> hexToInt (inbuf g1) p;
     if n = 0 then error_reply g1 else do {
       e \<leftarrow> buf_read (inbuf g1) q;
       if e \<noteq> chr CHR ''='' then error_reply g1
       else if 0 \<le> sint regno \<and> sint regno < int reg64cnt then do {
         v \<leftarrow> getReg64 (unat regno) idx g1;
         (fault, bs) \<leftarrow> hex2mem (inbuf g1) (q + 1) (\<lambda>i v bs. buf_write bs i v) 8 False (le_bytes 8 v);
         g2 \<leftarrow> setReg64 (unat regno) (le_word bs) idx (fault_flags fault g1);
         ok_reply g2 }
       else do {
         let regno' = regno - of_nat reg64cnt;
         if 0 \<le> sint regno' \<and> sint regno' < int reg32cnt then do {
           v \<leftarrow> getReg32 (unat regno') idx g1;
           (fault, bs) \<leftarrow> hex2mem (inbuf g1) (q + 1) (\<lambda>i v bs. buf_write bs i v) 4 False (le_bytes 4 v);
           g2 \<leftarrow> setReg32 (unat regno') (le_word bs) idx (fault_flags fault g1);
           ok_reply g2 }
         else error_reply g1 } } }"

definition handleH :: "nat \<Rightarrow> gdb \<Rightarrow> (bool \<times> gdb) option" where
  "handleH p g = do {
     op \<leftarrow> buf_read (inbuf g) p;
     if op = chr CHR ''g'' then do {
       (n, threadId, q) \<leftarrow> hexToInt (inbuf g) (p + 1);
       if n \<noteq> 0 \<and> sint threadId > 0
       then ok_reply (g\<lparr>Htid := sint (ucast threadId :: 32 word)\<rparr>)
       else error_reply g }
     else error_reply g }"

section \<open>Memory and breakpoints\<close>

definition parse_range :: "nat \<Rightarrow> gdb \<Rightarrow> ((64 word \<times> 64 word \<times> nat) option) option" where
  "parse_range p g = do {
     (n, addr, q) \<leftarrow> hexToInt (inbuf g) p;
     if n = 0 then Some None else do {
       c \<leftarrow> buf_read (inbuf g) q;
       if c \<noteq> chr CHR '','' then Some None else do {
         (n', len, q') \<leftarrow> hexToInt (inbuf g) (q + 1);
         if n' = 0 then Some None else Some (Some (addr, len, q')) } } }"

definition handleReadMemory :: "nat \<Rightarrow> gdb \<Rightarrow> (bool \<times> gdb) option" where
  "handleReadMemory p g = do {
     r \<leftarrow> parse_range p g;
     (case r of
        None \<Rightarrow> error_reply g
      | Some (addr, len, q) \<Rightarrow> do {
          (g1, b, q') \<leftarrow> mem2hex (\<lambda>i. get_char (addr + of_nat i) g) (to_int_arg len) (outbuf g) 0 True g;
          if gdbFaultHandlerCalled g1 then error_reply (g1\<lparr>outbuf := b\<rparr>)
          else Some (True, g1\<lparr>outbuf := b\<rparr>) }) }"

definition handleWriteMemory :: "nat \<Rightarrow> gdb \<Rightarrow> (bool \<times> gdb) option" where
  "handleWriteMemory p g = do {
     r \<leftarrow> parse_range p g;
     (case r of
        None \<Rightarrow> error_reply g
      | Some (addr, len, q) \<Rightarrow> do {
          c \<leftarrow> buf_read (inbuf g) q;
          if c \<noteq> chr CHR '':'' then error_reply g
          else do {
            (fault, g1) \<leftarrow> hex2mem (inbuf g) (q + 1) (\<lambda>i v g. set_char (addr + of_nat i) v g) (to_int_arg len) True g;
            if fault then error_reply (fault_flags True g1) else ok_reply (fault_flags False g1) } }) }"

definition handleSetSoftBreak :: "nat \<Rightarrow> gdb \<Rightarrow> (bool \<times> gdb) option" where
  "handleSetSoftBreak p g = do {
     r \<leftarrow> parse_range p g;
     (case r of
        None \<Rightarrow> error_reply g
      | Some (addr, len, q) \<Rightarrow>
          (case get_char addr g of
             None \<Rightarrow> error_reply (fault_flags True g)
           | Some opCode \<Rightarrow> do {
               let g1 = (fault_flags False g)\<lparr>bpMap := (bpMap g)(addr \<mapsto> opCode)\<rparr>;
               kassert (len = 1);
               (case set_char addr 0xcc g1 of
                  None \<Rightarrow> error_reply (fault_flags True g1)
                | Some g2 \<Rightarrow> ok_reply (if addr = hook_addr g2 then g2\<lparr>hook_break := True\<rparr> else g2)) })) }"

definition handleRemoveSoftBreak :: "nat \<Rightarrow> gdb \<Rightarrow> (bool \<times> gdb) option" where
  "handleRemoveSoftBreak p g = do {
     r \<leftarrow> parse_range p g;
     (case r of
        None \<Rightarrow> error_reply g
      | Some (addr, len, q) \<Rightarrow>
          (case bpMap g addr of
             None \<Rightarrow> error_reply g
           | Some opCode \<Rightarrow>
               (case set_char addr opCode g of
                  None \<Rightarrow> error_reply (fault_flags True g)
                | Some g1 \<Rightarrow> ok_reply (fault_flags False (if addr = hook_addr g1 then g1\<lparr>hook_break := False\<rparr> else g1))))) }"

section \<open>The vCont packet\<close>

definition VCont_init :: vcont where
  "VCont_init = \<lparr>action = 0, vsignal = 0, vtid = 0\<rparr>"

definition VCont_pending :: "int \<Rightarrow> vcont \<Rightarrow> bool" where
  "VCont_pending tid v = (action v \<noteq> 0 \<and> (sint (vtid v) \<le> 0 \<or> sint (vtid v) = tid))"

definition VCont_detach :: "vcont \<Rightarrow> vcont" where
  "VCont_detach v = v\<lparr>action := chr CHR ''c'', vsignal := 0, vtid := -1\<rparr>"

function skip_blanks :: "buf \<Rightarrow> nat \<Rightarrow> nat option" where
  "skip_blanks b p =
     (case buf_read b p of None \<Rightarrow> None | Some c \<Rightarrow> if c = chr CHR '' '' then skip_blanks b (p + 1) else Some p)"
  by pat_completeness auto
termination
  by (relation "measure (\<lambda>(b, p). length b - p)") (auto simp: buf_read_def split: if_splits)

declare skip_blanks.simps [simp del]

definition VCont_finish :: "byte \<Rightarrow> vcont \<Rightarrow> vcont" where
  "VCont_finish a v = (if a \<noteq> chr CHR ''c'' \<and> a \<noteq> chr CHR ''s'' then v else v\<lparr>action := a\<rparr>)"

definition VCont_tid :: "byte \<Rightarrow> nat \<Rightarrow> buf \<Rightarrow> vcont \<Rightarrow> vcont option" where
  "VCont_tid a p b v = do {
     c \<leftarrow> buf_read b p;
     if c = chr CHR '':'' then do {
       (n, t, q) \<leftarrow> hexToInt b (p + 1);
       Some (if n = 0 then v\<lparr>vtid := t\<rparr> else VCont_finish a (v\<lparr>vtid := t\<rparr>)) }
     else Some (VCont_finish a (v\<lparr>vtid := -1\<rparr>)) }"

definition VCont_parse :: "nat \<Rightarrow> gdb \<Rightarrow> gdb option" where
  "VCont_parse p g = do {
     m \<leftarrow> strncmp_eq ''Cont'' p g;
     if \<not> m then Some g else do {
       c \<leftarrow> buf_read (inbuf g) (p + 4);
       if c = chr CHR ''?'' then strcpy ''vCont;c;C;s;S'' g
       else do {
         kassert (action (vCont g) = 0);
         if c \<noteq> chr CHR '';'' then Some g else do {
           a \<leftarrow> buf_read (inbuf g) (p + 5);
           if a = chr CHR ''C'' \<or> a = chr CHR ''S'' then do {
             q \<leftarrow> skip_blanks (inbuf g) (p + 6);
             (n, s, q') \<leftarrow> hexToInt (inbuf g) q;
             let v = (vCont g)\<lparr>vsignal := s\<rparr>;
             if n = 0 then Some (g\<lparr>vCont := v\<rparr>)
             else do { v' \<leftarrow> VCont_tid (a + 32) q' (inbuf g) v; Some (g\<lparr>vCont := v'\<rparr>) } }
           else do {
             v' \<leftarrow> VCont_tid a (p + 6) (inbuf g) ((vCont g)\<lparr>vsignal := 0\<rparr>);
             Some (g\<lparr>vCont := v'\<rparr>) } } } } }"

section \<open>Dispatch\<close>

fun first_handled :: "(gdb \<Rightarrow> (bool \<times> gdb) option) list \<Rightarrow> gdb \<Rightarrow> gdb option" where
  "first_handled [] g = strcpy ''qUnimplemented'' g"
| "first_handled (h # hs) g = do { (r, g') \<leftarrow> h g; if r then Some g' else first_handled hs g' }"

definition handle_query :: "int \<Rightarrow> nat \<Rightarrow> gdb \<Rightarrow> gdb option" where
  "handle_query tid p = first_handled
     [handle_qSupported p, handle_qC tid p, handle_qAttached p, handle_qOffsets p, handle_qSymbol p,
      handle_qSymbolResponse p, handle_qTStatus p, handle_qfThreadInfo p, handle_qsThreadInfo p,
      handle_qThreadExtraInfo p]"

definition handle_break :: "(nat \<Rightarrow> gdb \<Rightarrow> (bool \<times> gdb) option) \<Rightarrow> nat \<Rightarrow> gdb \<Rightarrow> gdb option" where
  "handle_break h p g = do {
     (n, ty, q) \<leftarrow> hexToInt (inbuf g) p;
     if n = 0 then Some g
     else if ty = 0 then map_option snd (h (q + 1) g)
     else strcpy ''E01'' g }"

definition dispatch :: "int \<Rightarrow> int \<Rightarrow> byte \<Rightarrow> nat \<Rightarrow> gdb \<Rightarrow> gdb option" where
  "dispatch sigval tid c p g =
     (if c = chr CHR ''q'' then handle_query tid p g
      else if c = chr CHR ''v'' then VCont_parse p g
      else if c = chr CHR ''T'' then map_option snd (handleThreadAlive p g)
      else if c = chr CHR ''?'' then do { (b, g') \<leftarrow> handleReasonTargetHalted sigval tid (outbuf g) g; Some (g'\<lparr>outbuf := b\<rparr>) }
      else if c = chr CHR ''g'' then map_option snd (handleReadRegisters tid g)
      else if c = chr CHR ''G'' then map_option snd (handleWriteRegisters tid p g)
      else if c = chr CHR ''p'' then map_option snd (handleReadRegister tid p g)
      else if c = chr CHR ''P'' then map_option snd (handleWriteRegister tid p g)
      else if c = chr CHR ''H'' then map_option snd (handleH p g)
      else if c = chr CHR ''m'' then map_option snd (handleReadMemory p g)
      else if c = chr CHR ''M'' then map_option snd (handleWriteMemory p g)
      else if c = chr CHR ''k'' then Some (g\<lparr>vCont := VCont_detach (vCont g)\<rparr>)
      else if c = chr CHR ''Z'' then handle_break handleSetSoftBreak p g
      else if c = chr CHR ''z'' then handle_break handleRemoveSoftBreak p g
      else strcpy ''E01'' g)"

definition handlePacket :: "int \<Rightarrow> int \<Rightarrow> gdb \<Rightarrow> gdb option" where
  "handlePacket sigval tid g = do {
     ob \<leftarrow> buf_write (outbuf g) 0 0;
     (p, ib, s) \<leftarrow> getpacket 4096 (inbuf g) (line g);
     let g1 = g\<lparr>outbuf := ob, inbuf := ib, line := s\<rparr>;
     c \<leftarrow> buf_read ib p;
     g2 \<leftarrow> dispatch sigval tid c (p + 1) g1;
     let g3 = (if c = chr CHR ''H'' then g2 else g2\<lparr>Htid := -2\<rparr>);
     o0 \<leftarrow> buf_read (outbuf g3) 0;
     if o0 \<noteq> 0 then do { s' \<leftarrow> putpacket (outbuf g3) (line g3); Some (g3\<lparr>line := s'\<rparr>) } else Some g3 }"

end
