(* ===== verification/GdbRoundTrips.thy ===== *)
theory GdbRoundTrips
  imports GdbHandlers
begin

text \<open>
  What the debugger front-end relies on in the handlers of
  \<open>src/gdb/Gdb.cc\<close>: a reply survives the serial line, registers and memory read back
  as they were written, and a breakpoint leaves no trace once it is removed. Two
  lemmas show where the stub falls short: a breakpoint that is set twice is not
  removed, and a failed read leaves the fault handler armed.
\<close>

lemma length_buf_puts: "buf_puts b p cs = Some b' \<Longrightarrow> length b' = length b"
  by (induction cs arbitrary: b p) (auto simp: buf_write_def split: bind_splits if_splits)

lemma buf_puts_0: "length cs \<le> length b \<Longrightarrow> buf_puts b 0 cs = Some (cs @ drop (length cs) b)"
  using buf_puts_eq [of 0 cs b] by simp

lemma strcpy_eq:
  "length s < length (outbuf g) \<Longrightarrow>
   strcpy s g = Some (g\<lparr>outbuf := lit s @ 0 # drop (length s + 1) (outbuf g)\<rparr>)"
  by (simp add: strcpy_def buf_puts_0 lit_def)

lemma replies:
  "3 < length (outbuf g) \<Longrightarrow> ok_reply g = Some (True, g\<lparr>outbuf := lit ''OK'' @ 0 # drop 3 (outbuf g)\<rparr>)"
  "3 < length (outbuf g) \<Longrightarrow> error_reply g = Some (False, g\<lparr>outbuf := lit ''E01'' @ 0 # drop 4 (outbuf g)\<rparr>)"
  by (simp_all add: ok_reply_def error_reply_def strcpy_eq eval_nat_numeral)

section \<open>Packets\<close>

lemma c_string_prefix: "c_string b p = Some cs \<Longrightarrow> 0 \<notin> set cs"
  by (auto simp: c_string_def split: if_splits dest: set_takeWhileD)


lemma c_string_append: "0 \<notin> set cs \<Longrightarrow> c_string (cs @ 0 # r) 0 = Some cs"
  by (induction cs) (auto simp: c_string_def)

section \<open>Registers\<close>

lemma hex_digits_all: "\<forall>n \<in> set [0..<256]. hex_hi (word_of_nat n) \<noteq> 0 \<and> hex_lo (word_of_nat n) \<noteq> 0"
  by code_simp

lemma hex_digits_nonzero: "hex_hi c \<noteq> 0 \<and> hex_lo c \<noteq> 0"
  by (rule byte_cases) (use hex_digits_all in \<open>simp only: set_upt atLeastLessThan_iff le0 simp_thms Ball_def\<close>)

lemma hexstr_nonzero: "0 \<notin> set (hexstr cs)"
  using hex_digits_nonzero by (induction cs) (auto simp: eq_commute [of 0])

definition wf_gdb_cpu :: "gdb_cpu \<Rightarrow> bool" where
  "wf_gdb_cpu c = (length (reg64buf c) = reg64cnt \<and> length (reg32buf c) = reg32cnt)"

lemma length_concat_le_bytes: "length (concat (map (le_bytes k) ws)) = k * length ws"
  by (induction ws) simp_all

lemma length_reg_bytes: "wf_gdb_cpu c \<Longrightarrow> length (reg_bytes c) = reg_size"
  by (simp add: reg_bytes_def wf_gdb_cpu_def reg_size_def length_concat_le_bytes)

lemma le_words_le_bytes:
  "8 * k = LENGTH('a) \<Longrightarrow> le_words k (length ws) (concat (map (le_bytes k) ws) @ r) = (ws :: 'a::len word list)"
  by (induction ws) simp_all

lemma set_reg_bytes_reg_bytes:
  assumes "wf_gdb_cpu c"
  shows "set_reg_bytes (reg_bytes c) d = d\<lparr>reg64buf := reg64buf c, reg32buf := reg32buf c\<rparr>"
proof -
  have "drop (8 * reg64cnt) (reg_bytes c) = concat (map (le_bytes 4) (reg32buf c)) @ []"
    using assms by (simp add: reg_bytes_def wf_gdb_cpu_def length_concat_le_bytes)
  then show ?thesis
    using assms le_words_le_bytes [of 8 "reg64buf c" "concat (map (le_bytes 4) (reg32buf c))"]
      le_words_le_bytes [of 4 "reg32buf c" "[]"]
    by (simp add: set_reg_bytes_def wf_gdb_cpu_def reg_bytes_def)
qed

lemma mem2hex_list:
  assumes "p + 2 * length cs < length b"
  shows "mem2hex (list_mem cs) (length cs) b p may g =
    Some (fault_flags False g, take p b @ hexstr cs @ 0 # drop (p + 2 * length cs + 1) b, p + 2 * length cs)"
proof -
  have "\<forall>k<length cs. list_mem cs (0 + k) = Some (cs ! k)" by (simp add: list_mem_def buf_read_def)
  from mem2hex_puts [OF this assms] show ?thesis by (simp add: mem2hex_def fault_flags_def)
qed

lemma hex2mem_list:
  assumes "take (2 * length cs) (drop p b) = hexstr cs" "length m = length cs"
  shows "hex2mem b p (\<lambda>j v m. buf_write m j v) (length cs) may m = Some (False, cs)"
  using hex2mem_puts [of cs p b 0 0 m] assms by (simp add: hex2mem_def)

text \<open>
  C28: The reply to a request for all registers of a processor is the text of its
  registers, and a packet that carries this text restores them in any processor
  it is applied to, whatever its registers were.
\<close>
theorem registers_roundtrip:
  assumes "reg_idx tid g = (idx, g1)" "cpu_at idx g1 = Some c" "wf_gdb_cpu c" "length (outbuf g) = 4096"
    and "reg_idx tid' h = (idx', h1)" "cpu_at idx' h1 = Some d" "wf_gdb_cpu d" "length (outbuf h) = 4096"
  shows "\<exists>g2. handleReadRegisters tid g = Some (True, g2) \<and>
    c_string (outbuf g2) 0 = Some (hexstr (reg_bytes c)) \<and>
    (take (2 * reg_size) (drop p (inbuf h)) = hexstr (reg_bytes c) \<longrightarrow>
      (\<exists>h2. handleWriteRegisters tid' p h = Some (True, h2) \<and>
        cpu_at idx' h2 = Some (d\<lparr>reg64buf := reg64buf c, reg32buf := reg32buf c\<rparr>)))"
proof -
  have len: "length (reg_bytes c) = reg_size" "length (reg_bytes d) = reg_size" "reg_size = 164"
    using assms by (simp_all add: length_reg_bytes reg_size_def reg64cnt_def reg32cnt_def)
  have out: "outbuf g1 = outbuf g" "outbuf h1 = outbuf h" "inbuf h1 = inbuf h"
    using assms by (auto simp: reg_idx_def split: if_splits)
  let ?b = "hexstr (reg_bytes c) @ 0 # drop 329 (outbuf g)"
  have r: "mem2hex (list_mem (reg_bytes c)) reg_size (outbuf g1) 0 False g1 = Some (fault_flags False g1, ?b, 328)"
    using mem2hex_list [of 0 "reg_bytes c" "outbuf g1" False g1] len(1) assms(4) out(1)
    by (simp add: len(3))
  have rd: "handleReadRegisters tid g = Some (True, (fault_flags False g1)\<lparr>outbuf := ?b\<rparr>)"
    using assms r by (simp add: handleReadRegisters_def)
  have nz: "0 \<notin> set (hexstr (reg_bytes c))" by (rule hexstr_nonzero)
  have wr: "\<exists>h2. handleWriteRegisters tid' p h = Some (True, h2) \<and>
        cpu_at idx' h2 = Some (d\<lparr>reg64buf := reg64buf c, reg32buf := reg32buf c\<rparr>)"
    if body: "take (2 * reg_size) (drop p (inbuf h)) = hexstr (reg_bytes c)"
  proof -
    have "hex2mem (inbuf h1) p (\<lambda>i v bs. buf_write bs i v) reg_size False (reg_bytes d) = Some (False, reg_bytes c)"
      using hex2mem_list [of "reg_bytes c" p "inbuf h1" "reg_bytes d" False] body len out by simp
    moreover have "3 < length (outbuf h1)" using assms out by simp
    ultimately show ?thesis
      using assms by (auto simp: handleWriteRegisters_def set_reg_bytes_reg_bytes set_cpu_at_def cpu_at_def
          fault_flags_def replies split: if_splits)
  qed
  show ?thesis
    using rd wr nz by (auto simp: c_string_append)
qed

section \<open>Memory\<close>

definition written :: "vaddr \<Rightarrow> nat \<Rightarrow> byte list \<Rightarrow> (vaddr \<rightharpoonup> byte) \<Rightarrow> vaddr \<rightharpoonup> byte" where
  "written addr i cs m = (\<lambda>a. let k = unat (a - addr) in if i \<le> k \<and> k < i + length cs then Some (cs ! (k - i)) else m a)"

lemma unat_offset: "i < 2 ^ 64 \<Longrightarrow> unat ((a :: vaddr) - addr) = i \<longleftrightarrow> a = addr + of_nat i"
proof -
  assume i: "i < 2 ^ 64"
  then have "unat (of_nat i :: vaddr) = i" by (simp add: unat_of_nat take_bit_eq_mod)
  moreover have "(of_nat (unat (a - addr)) :: vaddr) = a - addr" by simp
  ultimately show ?thesis by (metis add_diff_cancel_left' diff_add_cancel add.commute)
qed

lemma written_Nil [simp]: "written addr i [] m = m"
  by (rule ext) (auto simp: written_def Let_def)

lemma written_Cons:
  assumes "i < 2 ^ 64"
  shows "written addr i (c # cs) m = written addr (Suc i) cs (m(addr + of_nat i \<mapsto> c))"
proof
  fix a
  show "written addr i (c # cs) m a = written addr (Suc i) cs (m(addr + of_nat i \<mapsto> c)) a"
  proof (cases "a = addr + of_nat i")
    case True
    then have "unat (a - addr) = i" using assms unat_offset by blast
    then show ?thesis using True by (simp add: written_def)
  next
    case False
    then have "unat (a - addr) \<noteq> i" using assms unat_offset by blast
    then show ?thesis using False by (auto simp: written_def Let_def nth_Cons' Suc_le_eq)
  qed
qed

lemma hex2mem_memory:
  assumes "take (2 * length cs) (drop p b) = hexstr cs" "i + length cs < 2 ^ 64"
    and "\<forall>k<length cs. memory g (addr + of_nat (i + k)) \<noteq> None \<and> writable g (addr + of_nat (i + k))"
  shows "hex2mem_loop b p (\<lambda>j v g. set_char (addr + of_nat j) v g) i (length cs) g =
    Some (False, g\<lparr>memory := written addr i cs (memory g)\<rparr>)"
  using assms
proof (induction cs arbitrary: p i g)
  case Nil
  then show ?case by simp
next
  case (Cons c cs)
  have two: "Suc p < length b"
    using arg_cong [OF Cons.prems(1), of length] by simp
  have eq: "drop p b = b ! p # b ! Suc p # drop (Suc (Suc p)) b"
    using two by (simp add: Cons_nth_drop_Suc)
  have h: "b ! p = hex_hi c" "b ! Suc p = hex_lo c" "take (2 * length cs) (drop (Suc (Suc p)) b) = hexstr cs"
    using Cons.prems(1) unfolding eq by simp_all
  let ?g = "g\<lparr>memory := (memory g)(addr + of_nat i \<mapsto> c)\<rparr>"
  have s: "set_char (addr + of_nat i) c g = Some ?g"
    using spec [OF Cons.prems(3), of 0] by (simp add: set_char_def)
  have "hex2mem_loop b (Suc (Suc p)) (\<lambda>j v g. set_char (addr + of_nat j) v g) (Suc i) (length cs) ?g =
      Some (False, ?g\<lparr>memory := written addr (Suc i) cs (memory ?g)\<rparr>)"
  proof (rule Cons.IH)
    show "\<forall>k<length cs. memory ?g (addr + of_nat (Suc i + k)) \<noteq> None \<and> writable ?g (addr + of_nat (Suc i + k))"
    proof (intro allI impI)
      fix k assume "k < length cs"
      then show "memory ?g (addr + of_nat (Suc i + k)) \<noteq> None \<and> writable ?g (addr + of_nat (Suc i + k))"
        using spec [OF Cons.prems(3), of "Suc k"] by simp
    qed
  qed (use h Cons.prems in simp_all)
  then show ?case
    using h two s Cons.prems(2) written_Cons [of i addr c cs "memory g"] by (simp add: buf_read_def)
qed

lemma parse_range_inbuf: "inbuf g = inbuf h \<Longrightarrow> parse_range p g = parse_range p h"
  by (simp add: parse_range_def cong: if_cong)

text \<open>
  C29: A memory write packet changes exactly the bytes it names, and a later read
  request for the same range is answered with the text of the bytes written. The
  bound of 2047 bytes is what fits into the reply buffer.
\<close>
theorem memory_roundtrip:
  assumes "parse_range p g = Some (Some (addr, len, q))" "to_int_arg len = length cs" "length cs \<le> 2047"
    and "buf_read (inbuf g) q = Some (chr CHR '':'')" "take (2 * length cs) (drop (q + 1) (inbuf g)) = hexstr cs"
    and "\<forall>k<length cs. memory g (addr + of_nat k) \<noteq> None \<and> writable g (addr + of_nat k)"
    and "length (outbuf g) = 4096"
  shows "\<exists>h. handleWriteMemory p g = Some (True, h) \<and>
    memory h = written addr 0 cs (memory g) \<and>
    (\<forall>b p' q'. parse_range p' (h\<lparr>inbuf := b\<rparr>) = Some (Some (addr, len, q')) \<longrightarrow>
      (\<exists>h'. handleReadMemory p' (h\<lparr>inbuf := b\<rparr>) = Some (True, h') \<and>
        c_string (outbuf h') 0 = Some (hexstr cs) \<and> memory h' = memory h))"
proof -
  let ?g = "fault_flags False (g\<lparr>memory := written addr 0 cs (memory g)\<rparr>)"
  let ?h = "?g\<lparr>outbuf := lit ''OK'' @ 0 # drop 3 (outbuf g)\<rparr>"
  have "hex2mem (inbuf g) (Suc q) (\<lambda>i v g. set_char (addr + of_nat i) v g) (length cs) True g =
      Some (False, g\<lparr>memory := written addr 0 cs (memory g)\<rparr>)"
    using hex2mem_memory [of cs "Suc q" "inbuf g" 0 g addr] assms by (simp add: hex2mem_def)
  then have w: "handleWriteMemory p g = Some (True, ?h)"
    using assms replies(1) [of ?g] by (simp add: handleWriteMemory_def fault_flags_def)
  have rd: "\<exists>h'. handleReadMemory p' (?h\<lparr>inbuf := b\<rparr>) = Some (True, h') \<and>
      c_string (outbuf h') 0 = Some (hexstr cs) \<and> memory h' = memory ?h"
    if "parse_range p' (?h\<lparr>inbuf := b\<rparr>) = Some (Some (addr, len, q'))" for b p' q'
  proof -
    let ?m = "\<lambda>i. get_char (addr + of_nat i) (?h\<lparr>inbuf := b\<rparr>)"
    have "unat (of_nat k :: vaddr) = k" if "k < length cs" for k
      using that assms(3) by (simp add: unat_of_nat take_bit_eq_mod)
    then have m: "\<forall>k<length cs. ?m (0 + k) = Some (cs ! k)"
      by (simp add: get_char_def written_def fault_flags_def)
    have "length (outbuf ?h) = 4096" using assms by (simp add: lit_def)
    then have "mem2hex_loop ?m 0 (length cs) (outbuf ?h) 0 =
        Some (False, hexstr cs @ 0 # drop (2 * length cs + 1) (outbuf ?h), 2 * length cs)"
      using mem2hex_puts [OF m, of 0 "outbuf ?h"] assms(3) by simp
    then show ?thesis
      using that assms(2) by (auto simp: handleReadMemory_def mem2hex_def c_string_append hexstr_nonzero)
  qed
  show ?thesis using w rd by (intro exI [of _ ?h]) (auto simp: fault_flags_def)
qed

section \<open>Breakpoints\<close>

text \<open>
  C30: Setting a breakpoint on a writable byte puts the trap instruction there, and the
  packet that removes it puts the original byte back: the memory is as before.
\<close>
theorem breakpoint_roundtrip:
  assumes "parse_range p g = Some (Some (addr, 1, q))" "memory g addr = Some op" "writable g addr"
    and "3 < length (outbuf g)"
  shows "\<exists>g1 g2. handleSetSoftBreak p g = Some (True, g1) \<and> memory g1 = (memory g)(addr \<mapsto> 0xcc) \<and>
    handleRemoveSoftBreak p g1 = Some (True, g2) \<and> memory g2 = memory g \<and>
    hook_break g2 = (hook_break g \<and> addr \<noteq> hook_addr g)"
proof -
  let ?g = "(fault_flags False g)\<lparr>bpMap := (bpMap g)(addr \<mapsto> op), memory := (memory g)(addr \<mapsto> 0xcc),
      hook_break := (addr = hook_addr g \<or> hook_break g), outbuf := lit ''OK'' @ 0 # drop 3 (outbuf g)\<rparr>"
  have s: "handleSetSoftBreak p g = Some (True, ?g)"
    using assms by (auto simp: handleSetSoftBreak_def get_char_def set_char_def fault_flags_def replies Let_def)
  have pr: "parse_range p ?g = Some (Some (addr, 1, q))"
    using assms(1) parse_range_inbuf [of ?g g p] by (simp add: fault_flags_def)
  have "\<exists>g2. handleRemoveSoftBreak p ?g = Some (True, g2) \<and> memory g2 = memory g \<and>
      hook_break g2 = (hook_break g \<and> addr \<noteq> hook_addr g)"
    using assms pr
    by (auto simp: handleRemoveSoftBreak_def set_char_def fault_flags_def replies lit_def fun_upd_idem)
  then show ?thesis using s by (auto simp: fault_flags_def)
qed

text \<open>
  A breakpoint that is set twice is lost: the second packet saves the trap
  instruction itself as the original byte, and removing the breakpoint leaves the
  trap in the code.
\<close>
theorem breakpoint_set_twice:
  assumes "parse_range p g = Some (Some (addr, 1, q))" "memory g addr = Some 0xcc" "writable g addr"
    and "3 < length (outbuf g)" "bpMap g addr = Some op"
  shows "\<exists>g1 g2. handleSetSoftBreak p g = Some (True, g1) \<and> bpMap g1 addr = Some 0xcc \<and>
    handleRemoveSoftBreak p g1 = Some (True, g2) \<and> memory g2 addr = Some 0xcc"
proof -
  let ?g = "(fault_flags False g)\<lparr>bpMap := (bpMap g)(addr \<mapsto> 0xcc), memory := (memory g)(addr \<mapsto> 0xcc),
      hook_break := (addr = hook_addr g \<or> hook_break g), outbuf := lit ''OK'' @ 0 # drop 3 (outbuf g)\<rparr>"
  have s: "handleSetSoftBreak p g = Some (True, ?g)"
    using assms by (auto simp: handleSetSoftBreak_def get_char_def set_char_def fault_flags_def replies Let_def)
  have pr: "parse_range p ?g = Some (Some (addr, 1, q))"
    using assms(1) parse_range_inbuf [of ?g g p] by (simp add: fault_flags_def)
  have "\<exists>g2. handleRemoveSoftBreak p ?g = Some (True, g2) \<and> memory g2 addr = Some 0xcc"
    using assms pr by (auto simp: handleRemoveSoftBreak_def set_char_def fault_flags_def replies lit_def)
  then show ?thesis using s by (auto simp: fault_flags_def)
qed

text \<open>
  A read request that touches an unmapped byte is answered with an error, but the
  fault handler stays armed: \<open>mem2hex\<close> returns before it resets
  \<open>gdbFaultHandlerEnabled\<close>.
\<close>
theorem failed_read_keeps_handler:
  assumes "parse_range p g = Some (Some (addr, len, q))" "k < to_int_arg len" "k < 2048"
    and "\<forall>j<k. memory g (addr + of_nat j) \<noteq> None" "memory g (addr + of_nat k) = None"
    and "length (outbuf g) = 4096"
  shows "\<exists>h. handleReadMemory p g = Some (False, h) \<and> gdbFaultHandlerEnabled h"
proof -
  let ?m = "\<lambda>i. get_char (addr + of_nat i) g"
  have "\<exists>b' r. mem2hex_loop ?m 0 (to_int_arg len) (outbuf g) 0 = Some (True, b', r) \<and> length b' = length (outbuf g)"
    by (rule mem2hex_fault [where k = k]) (use assms in \<open>simp_all add: get_char_def\<close>)
  then show ?thesis
    using assms by (auto simp: handleReadMemory_def mem2hex_def replies)
qed

section \<open>Examples\<close>

definition ex_in :: "string \<Rightarrow> buf" where
  "ex_in s = lit s @ replicate (4096 - length s) 0"

definition ex_gdb :: "string \<Rightarrow> gdb" where
  "ex_gdb s = \<lparr>line = \<lparr>rx = lit ''+'', tx = []\<rparr>, gcpus = [GdbCpu_init, GdbCpu_init],
     memory = (\<lambda>a. if a < 0x2000 then Some 0x90 else None), writable = (\<lambda>a. a < 0x2000),
     gdbFaultHandlerCalled = False, gdbFaultHandlerEnabled = False, bpMap = (\<lambda>_. None),
     hook_addr = 0, hook_break = False, Htid = -2, vCont = VCont_init,
     inbuf = ex_in s, outbuf = replicate 4096 0\<rparr>"

lemma ex_in_nth: "i < length s \<Longrightarrow> length s \<le> 4096 \<Longrightarrow> buf_read (ex_in s) i = Some (chr (s ! i))"
  by (simp add: ex_in_def buf_read_def lit_def nth_append)

lemma ex_in_end: "length s < 4096 \<Longrightarrow> buf_read (ex_in s) (length s) = Some 0"
  by (simp add: ex_in_def buf_read_def lit_def nth_append)

lemma ex_gdb_simps [simp]:
  "inbuf (ex_gdb s) = ex_in s" "outbuf (ex_gdb s) = replicate 4096 0" "Htid (ex_gdb s) = -2"
  "memory (ex_gdb s) a = (if a < 0x2000 then Some 0x90 else None)" "writable (ex_gdb s) a = (a < 0x2000)"
  "gcpus (ex_gdb s) = [GdbCpu_init, GdbCpu_init]" "bpMap (ex_gdb s) a = None"
  by (simp_all add: ex_gdb_def)

lemma ex_hexToInt:
  assumes "length s < 4096" "p \<le> length s"
  shows "hexToInt_loop (ex_in s) p n v =
    (if p < length s \<and> chr (s ! p) \<noteq> 0 \<and> char2hex (chr (s ! p)) \<ge> 0
     then hexToInt_loop (ex_in s) (Suc p) (Suc n) (push_bit 4 v OR word_of_int (char2hex (chr (s ! p))))
     else Some (n, v, p))"
proof (cases "p < length s")
  case True
  then show ?thesis using assms by (subst hexToInt_loop.simps) (simp add: ex_in_nth)
next
  case False
  then have "p = length s" using assms by simp
  then show ?thesis using assms by (subst hexToInt_loop.simps) (simp add: ex_in_end)
qed

lemma ex_digits:
  "chr CHR ''1'' = 0x31" "chr CHR ''0'' = 0x30" "chr CHR ''2'' = 0x32" "chr CHR '','' = 0x2c" "chr CHR '':'' = 0x3a"
  "chr CHR ''f'' = 0x66" "chr CHR ''$'' = 0x24" "chr CHR ''#'' = 0x23" "chr CHR ''O'' = 0x4f" "chr CHR ''K'' = 0x4b"
  "char2hex 0x31 = 1" "char2hex 0x30 = 0" "char2hex 0x32 = 2" "char2hex 0x2c = -1" "char2hex 0x3a = -1"
  "hex_hi 0x12 = 0x31" "hex_lo 0x12 = 0x32" "hex_hi 0x02 = 0x30" "hex_lo 0x02 = 0x32"
  by code_simp+

lemma ex_range_write: "parse_range 0 (ex_gdb ''1000,2:0212'') = Some (Some (0x1000, 2, 6))"
  by (simp add: parse_range_def hexToInt_def ex_hexToInt ex_in_nth ex_digits)

lemma ex_range_break: "parse_range 0 (ex_gdb ''1000,1'') = Some (Some (0x1000, 1, 6))"
  by (simp add: parse_range_def hexToInt_def ex_hexToInt ex_in_nth ex_digits)

lemma ex_range_fault: "parse_range 0 (ex_gdb ''2000,1'') = Some (Some (0x2000, 1, 6))"
  by (simp add: parse_range_def hexToInt_def ex_hexToInt ex_in_nth ex_digits)


theorem registers_roundtrip_witness:
  "\<exists>g2. handleReadRegisters 1 (ex_gdb ''g'') = Some (True, g2) \<and>
    c_string (outbuf g2) 0 = Some (hexstr (reg_bytes GdbCpu_init)) \<and>
    (take (2 * reg_size) (drop 0 (hexstr (reg_bytes GdbCpu_init))) = hexstr (reg_bytes GdbCpu_init)) \<and>
    (\<exists>h2. handleWriteRegisters 2 0 ((ex_gdb ''G'')\<lparr>inbuf := hexstr (reg_bytes GdbCpu_init)\<rparr>) = Some (True, h2) \<and>
        cpu_at 1 h2 = Some GdbCpu_init)"
proof -
  let ?h = "(ex_gdb ''G'')\<lparr>inbuf := hexstr (reg_bytes GdbCpu_init)\<rparr>"
  have wf: "wf_gdb_cpu GdbCpu_init" by (simp add: wf_gdb_cpu_def GdbCpu_init_def)
  have "take (2 * reg_size) (drop 0 (inbuf ?h)) = hexstr (reg_bytes GdbCpu_init)"
    using length_reg_bytes [OF wf] by simp
  moreover have "reg_idx 1 (ex_gdb ''g'') = (0, ex_gdb ''g'')" "reg_idx 2 ?h = (1, ?h)"
    by (simp_all add: reg_idx_def)
  moreover have "cpu_at 0 (ex_gdb ''g'') = Some GdbCpu_init" "cpu_at 1 ?h = Some GdbCpu_init"
    by (simp_all add: cpu_at_def)
  ultimately show ?thesis
    using registers_roundtrip [of 1 "ex_gdb ''g''" 0 "ex_gdb ''g''" GdbCpu_init 2 ?h 1 ?h GdbCpu_init 0] wf
    by simp
qed

theorem memory_roundtrip_witness:
  "\<exists>h. handleWriteMemory 0 (ex_gdb ''1000,2:0212'') = Some (True, h) \<and>
    memory h = written 0x1000 0 [2, 0x12] (memory (ex_gdb ''g''))"
proof -
  let ?g = "ex_gdb ''1000,2:0212''"
  have t: "to_int_arg 2 = length [2 :: byte, 0x12]" by code_simp
  have c: "buf_read (inbuf ?g) 6 = Some (chr CHR '':'')" by (simp add: ex_in_nth)
  have x: "take (2 * length [2 :: byte, 0x12]) (drop (6 + 1) (inbuf ?g)) = hexstr [2, 0x12]"
    by (simp add: ex_in_def lit_def ex_digits)
  have m: "\<forall>k<length [2 :: byte, 0x12]. memory ?g (0x1000 + of_nat k) \<noteq> None \<and> writable ?g (0x1000 + of_nat k)"
    by (auto simp: less_Suc_eq)
  have "memory ?g = memory (ex_gdb ''g'')" by (simp add: ex_gdb_def)
  then show ?thesis
    using memory_roundtrip [OF ex_range_write t _ c x m] by auto
qed

theorem breakpoint_roundtrip_witness:
  "\<exists>g1 g2. handleSetSoftBreak 0 (ex_gdb ''1000,1'') = Some (True, g1) \<and> memory g1 0x1000 = Some 0xcc \<and>
    handleRemoveSoftBreak 0 g1 = Some (True, g2) \<and> memory g2 0x1000 = Some 0x90"
  using breakpoint_roundtrip [OF ex_range_break, where op = "0x90"] by auto

theorem breakpoint_set_twice_witness:
  "\<exists>g1 g2. handleSetSoftBreak 0 ((ex_gdb ''1000,1'')\<lparr>memory := [0x1000 \<mapsto> 0xcc], bpMap := [0x1000 \<mapsto> 0x90]\<rparr>) = Some (True, g1) \<and>
    handleRemoveSoftBreak 0 g1 = Some (True, g2) \<and> memory g2 0x1000 = Some 0xcc"
proof -
  let ?g = "(ex_gdb ''1000,1'')\<lparr>memory := [0x1000 \<mapsto> 0xcc], bpMap := [0x1000 \<mapsto> 0x90]\<rparr>"
  have "parse_range 0 ?g = Some (Some (0x1000, 1, 6))"
    using ex_range_break parse_range_inbuf [of ?g "ex_gdb ''1000,1''" 0] by simp
  from breakpoint_set_twice [OF this] show ?thesis by auto
qed

theorem failed_read_keeps_handler_witness:
  "\<exists>h. handleReadMemory 0 (ex_gdb ''2000,1'') = Some (False, h) \<and> gdbFaultHandlerEnabled h"
proof -
  have "0 < to_int_arg 1" by code_simp
  from failed_read_keeps_handler [OF ex_range_fault this] show ?thesis by simp
qed

end
