(* ===== verification/GdbCores.thy ===== *)
theory GdbCores
  imports GdbHandlers Scheduling
begin

unbundle bit_operations_syntax

text \<open>
  The debugger stub on several processors (\<open>handle_exception\<close> in
  \<open>src/gdb/Gdb.cc\<close>). A processor that takes an exception draws a ticket, waits for
  its turn, stops the other processors with an inter-processor interrupt, talks to
  the front-end until a \<open>vCont\<close> packet arrives, and then all processors pass the
  turn round until the packet's addressee resumes.

  The state adds to the stub's variables the ticket counters, the pinned thread and
  for each processor the place in \<open>handle_exception\<close> it has reached (\<open>gpc\<close>). A step
  is one of the sections between two points at which processors observe each
  other; a wait loop is a step that is enabled only when its condition holds. The
  critical section of the ticket lock is one step.

  The invariant gives mutual exclusion on the front-end and that the turn is never
  lost: every ticket that was drawn and not yet served belongs to a processor that
  is still inside the handler.
\<close>

datatype gpc =
    GRun
  | GTurn int
  | GStopping int nat
  | GStopWait int nat
  | GReport int
  | GTalk int
  | GLoop
  | GResume
  | GLeave

record gsys =
  stub :: gdb
  tcounter :: int
  serving :: int
  allstop :: bool
  savedThread :: "nat option"
  savedAffinity :: "nat option"
  gthread :: "nat \<Rightarrow> thread"
  gcurr :: "nat \<Rightarrow> nat"
  glock :: "nat \<Rightarrow> cpu"
  ipi :: "nat \<Rightarrow> bool"
  gpc :: "nat \<Rightarrow> gpc"

definition StopIPI :: int where "StopIPI = 0xef"

definition cTID :: "nat \<Rightarrow> int" where
  "cTID p = int p + 1"

definition sigval_of :: "int \<Rightarrow> int" where
  "sigval_of vec =
     (if vec = 0 then 8 else if vec = 1 then 5 else if vec = 2 then 0 else if vec = 3 then 5
      else if vec = 4 then 16 else if vec = 5 then 16 else if vec = 6 then 4 else if vec = 7 then 8
      else if vec = 8 then 7 else if vec = 9 then 11 else if vec = 10 then 11 else if vec = 11 then 11
      else if vec = 12 then 11 else if vec = 13 then 11 else if vec = 14 then 11 else if vec = 16 then 7
      else 7)"

definition my_cpu :: "nat \<Rightarrow> gsys \<Rightarrow> gdb_cpu option" where
  "my_cpu p s = cpu_at (int p) (stub s)"

definition set_my_cpu :: "nat \<Rightarrow> gdb_cpu \<Rightarrow> gsys \<Rightarrow> gsys option" where
  "set_my_cpu p c s = do { g \<leftarrow> set_cpu_at (int p) c (stub s); Some (s\<lparr>stub := g\<rparr>) }"

definition goto :: "nat \<Rightarrow> gpc \<Rightarrow> gsys \<Rightarrow> gsys" where
  "goto p pc s = s\<lparr>gpc := (gpc s)(p := pc)\<rparr>"

definition draw_ticket :: "nat \<Rightarrow> gsys \<Rightarrow> gsys option" where
  "draw_ticket p s = do {
     c \<leftarrow> my_cpu p s;
     if serving s - ticket c > 0
     then map_option (\<lambda>s. s\<lparr>tcounter := tcounter s + 1\<rparr>) (set_my_cpu p (c\<lparr>ticket := tcounter s\<rparr>) s)
     else Some s }"

definition exc_note :: "nat \<Rightarrow> int \<Rightarrow> gsys \<Rightarrow> gsys option" where
  "exc_note p vec s = do {
     l \<leftarrow> lp_lock False (glock s p);
     let s1 = s\<lparr>glock := (glock s)(p := l)\<rparr>;
     c \<leftarrow> my_cpu p s1;
     s2 \<leftarrow> set_my_cpu p (c\<lparr>gstate := Stopped\<rparr>) s1;
     if vec = 3 then do {
       rip \<leftarrow> getReg64 RIP (int p) (stub s2);
       g \<leftarrow> setReg64 RIP (rip - 1) (int p) (stub s2);
       kassert (memory g (rip - 1) = Some 0xcc);
       Some (s2\<lparr>stub := g\<rparr>) }
     else Some s2 }"

definition exc_enter :: "nat \<Rightarrow> int \<Rightarrow> gsys \<Rightarrow> gsys option" where
  "exc_enter p vec s = do {
     s1 \<leftarrow> exc_note p vec s;
     if vec = StopIPI then Some (goto p GLoop (s1\<lparr>ipi := (ipi s1)(p := False)\<rparr>))
     else do { s2 \<leftarrow> draw_ticket p s1; Some (goto p (GTurn (sigval_of vec)) s2) } }"

definition exc_turn :: "nat \<Rightarrow> int \<Rightarrow> gsys \<Rightarrow> gsys option" where
  "exc_turn p sg s = do {
     c \<leftarrow> my_cpu p s;
     if ticket c = serving s then Some (goto p (GStopping sg 0) (s\<lparr>allstop := True\<rparr>)) else None }"

definition exc_stopping :: "nat \<Rightarrow> int \<Rightarrow> nat \<Rightarrow> gsys \<Rightarrow> gsys option" where
  "exc_stopping p sg i s =
     (if i < length (gcpus (stub s)) then
        if gstate (gcpus (stub s) ! i) = gdb_state.Running
        then Some (goto p (GStopWait sg i) (s\<lparr>ipi := (ipi s)(i := True)\<rparr>))
        else Some (goto p (GStopping sg (i + 1)) s)
      else Some (goto p (GReport sg) s))"

definition exc_stopwait :: "nat \<Rightarrow> int \<Rightarrow> nat \<Rightarrow> gsys \<Rightarrow> gsys option" where
  "exc_stopwait p sg i s =
     (if gstate (gcpus (stub s) ! i) = Stopped then Some (goto p (GStopping sg (i + 1)) s) else None)"

definition exc_report :: "nat \<Rightarrow> int \<Rightarrow> gsys \<Rightarrow> gsys option" where
  "exc_report p sg s =
     (if action (vCont (stub s)) \<noteq> 0 then do {
        (b, g) \<leftarrow> handleReasonTargetHalted sg (cTID p) (replicate 128 0) (stub s);
        l \<leftarrow> putpacket b (line g);
        Some (goto p (GTalk sg) (s\<lparr>stub := g\<lparr>line := l, vCont := (vCont g)\<lparr>action := 0\<rparr>\<rparr>\<rparr>)) }
      else Some (goto p (GTalk sg) s))"

definition exc_talk :: "nat \<Rightarrow> int \<Rightarrow> gsys \<Rightarrow> gsys option" where
  "exc_talk p sg s = do {
     g \<leftarrow> handlePacket sg (cTID p) (stub s);
     Some (goto p (if action (vCont g) = 0 then GTalk sg else GLoop) (s\<lparr>stub := g\<rparr>)) }"

definition exc_loop :: "nat \<Rightarrow> gsys \<Rightarrow> gsys option" where
  "exc_loop p s =
     (if allstop s then do { s1 \<leftarrow> draw_ticket p s; Some (goto p GResume s1) } else Some (goto p GLeave s))"

definition setGdbAffinity :: "nat \<Rightarrow> gsys \<Rightarrow> gsys" where
  "setGdbAffinity p s =
     (if savedThread s = None then
        (let t = gcurr s p in
         s\<lparr>savedThread := Some t, savedAffinity := getAffinity (gthread s t),
           gthread := (gthread s)(t := setAffinity (Some p) (gthread s t))\<rparr>)
      else s)"

definition resetGdbAffinity :: "gsys \<Rightarrow> gsys" where
  "resetGdbAffinity s =
     (case savedThread s of
        None \<Rightarrow> s
      | Some t \<Rightarrow> s\<lparr>gthread := (gthread s)(t := setAffinity (savedAffinity s) (gthread s t)), savedThread := None\<rparr>)"

definition exc_action :: "nat \<Rightarrow> gsys \<Rightarrow> (gsys \<times> 32 word) option" where
  "exc_action p s = do {
     e \<leftarrow> getReg32 EFLAGS (int p) (stub s);
     let eflags = e AND NOT TF;
     let v = vCont (stub s);
     if action v = chr CHR ''s'' then do {
       kassert (sint (vtid v) = cTID p);
       Some (setGdbAffinity p s, eflags OR TF) }
     else if action v = chr CHR ''c'' then do {
       kassert (vtid v = - 1);
       if hook_break (stub s) then Some (setGdbAffinity p (s\<lparr>allstop := False\<rparr>), eflags)
       else Some (resetGdbAffinity (s\<lparr>allstop := False\<rparr>), eflags) }
     else Some (s, eflags) }"

definition exc_resume :: "nat \<Rightarrow> gsys \<Rightarrow> gsys option" where
  "exc_resume p s = do {
     c \<leftarrow> my_cpu p s;
     if ticket c \<noteq> serving s then None
     else if VCont_pending (cTID p) (vCont (stub s)) then do {
       (s1, eflags) \<leftarrow> exc_action p s;
       g \<leftarrow> setReg32 EFLAGS eflags (int p) (stub s1);
       Some (goto p GLeave (s1\<lparr>stub := g, serving := serving s1 + 1\<rparr>)) }
     else Some (goto p GLoop (s\<lparr>serving := serving s + 1\<rparr>)) }"

definition exc_leave :: "nat \<Rightarrow> gsys \<Rightarrow> gsys option" where
  "exc_leave p s = do {
     c \<leftarrow> my_cpu p s;
     s1 \<leftarrow> set_my_cpu p (c\<lparr>gstate := gdb_state.Running\<rparr>) s;
     l \<leftarrow> lp_unlock False (glock s1 p);
     Some (goto p GRun (s1\<lparr>glock := (glock s1)(p := l)\<rparr>)) }"

definition handle_exception :: "nat \<Rightarrow> gsys \<Rightarrow> gsys option" where
  "handle_exception p s =
     (case gpc s p of
        GRun \<Rightarrow> None
      | GTurn sg \<Rightarrow> exc_turn p sg s
      | GStopping sg i \<Rightarrow> exc_stopping p sg i s
      | GStopWait sg i \<Rightarrow> exc_stopwait p sg i s
      | GReport sg \<Rightarrow> exc_report p sg s
      | GTalk sg \<Rightarrow> exc_talk p sg s
      | GLoop \<Rightarrow> exc_loop p s
      | GResume \<Rightarrow> exc_resume p s
      | GLeave \<Rightarrow> exc_leave p s)"

definition kernel_runs :: "nat \<Rightarrow> (vaddr \<rightharpoonup> byte) \<Rightarrow> 64 word list \<Rightarrow> 32 word list \<Rightarrow> gsys \<Rightarrow> gsys" where
  "kernel_runs p m r64 r32 s =
     (let g = stub s; c = gcpus g ! p in
      s\<lparr>stub := g\<lparr>memory := m, gcpus := (gcpus g)[p := c\<lparr>reg64buf := r64, reg32buf := r32\<rparr>]\<rparr>\<rparr>)"

inductive gdb_step :: "gsys \<Rightarrow> gsys \<Rightarrow> bool" where
  exception: "p < length (gcpus (stub s)) \<Longrightarrow> gpc s p = GRun \<Longrightarrow> vec \<noteq> StopIPI \<or> ipi s p \<Longrightarrow>
    exc_enter p vec s = Some s' \<Longrightarrow> gdb_step s s'"
| handler: "p < length (gcpus (stub s)) \<Longrightarrow> handle_exception p s = Some s' \<Longrightarrow> gdb_step s s'"
| kernel: "p < length (gcpus (stub s)) \<Longrightarrow> gpc s p = GRun \<Longrightarrow> gdb_step s (kernel_runs p m r64 r32 s)"
| start: "p < length (gcpus (stub s)) \<Longrightarrow> gpc s p = GRun \<Longrightarrow> startGdbCpu True (int p) (stub s) = Some g \<Longrightarrow>
    gdb_step s (s\<lparr>stub := g\<rparr>)"

definition gsys_init :: "nat \<Rightarrow> gdb \<Rightarrow> gsys \<Rightarrow> gsys" where
  "gsys_init n g s = s\<lparr>stub := g\<lparr>gcpus := replicate n GdbCpu_init\<rparr>, tcounter := 1, serving := 1,
     allstop := False, savedThread := None, savedAffinity := None, gpc := (\<lambda>_. GRun)\<rparr>"

definition initGdb :: "bool \<Rightarrow> nat \<Rightarrow> nat \<Rightarrow> gdb \<Rightarrow> gsys \<Rightarrow> gsys option" where
  "initGdb enabled n bspIdx g s =
     (if \<not> enabled then Some s else do {
        let s1 = gsys_init n g s;
        g1 \<leftarrow> startGdbCpu True (int bspIdx) (stub s1);
        Some (s1\<lparr>stub := g1\<rparr>) })"

section \<open>The handlers leave the tickets alone\<close>

definition tickets :: "gdb \<Rightarrow> int list" where
  "tickets g = map ticket (gcpus g)"

lemma tickets_upd [simp]:
  "tickets (g\<lparr>outbuf := b\<rparr>) = tickets g" "tickets (g\<lparr>inbuf := b\<rparr>) = tickets g" "tickets (g\<lparr>line := l\<rparr>) = tickets g"
  "tickets (g\<lparr>memory := m\<rparr>) = tickets g" "tickets (g\<lparr>vCont := v\<rparr>) = tickets g" "tickets (g\<lparr>Htid := t\<rparr>) = tickets g"
  "tickets (g\<lparr>bpMap := bp\<rparr>) = tickets g" "tickets (g\<lparr>hook_break := hb\<rparr>) = tickets g" "tickets (g\<lparr>hook_addr := ha\<rparr>) = tickets g"
  "tickets (g\<lparr>gdbFaultHandlerCalled := fc\<rparr>) = tickets g" "tickets (g\<lparr>gdbFaultHandlerEnabled := fe\<rparr>) = tickets g"
  "tickets (fault_flags f g) = tickets g"
  by (simp_all add: tickets_def fault_flags_def)

named_theorems tk \<open>handlers keep the tickets\<close>

lemma strcpy_tk [tk]: "strcpy x g = Some g' \<Longrightarrow> tickets g' = tickets g"
  by (auto simp: strcpy_def split: bind_splits)

lemma replies_tk [tk]:
  "ok_reply g = Some (r, g') \<Longrightarrow> tickets g' = tickets g"
  "error_reply g = Some (r, g') \<Longrightarrow> tickets g' = tickets g"
  by (auto simp: ok_reply_def error_reply_def split: bind_splits dest: strcpy_tk)

lemma mem2hex_tk [tk]: "mem2hex mem n b p f g = Some (g', b', q) \<Longrightarrow> tickets g' = tickets g"
  by (auto simp: mem2hex_def split: bind_splits)

lemma set_cpu_at_tk [tk]:
  "set_cpu_at i c g = Some g' \<Longrightarrow> cpu_at i g = Some d \<Longrightarrow> ticket c = ticket d \<Longrightarrow> tickets g' = tickets g"
  by (auto simp: set_cpu_at_def cpu_at_def tickets_def map_update split: if_splits)
    (metis length_map list_update_id nat_less_iff nth_map)

lemma setReg_tk [tk]:
  "setReg64 n v i g = Some g' \<Longrightarrow> tickets g' = tickets g"
  "setReg32 n w i g = Some g' \<Longrightarrow> tickets g' = tickets g"
  by (auto simp: setReg64_def setReg32_def split: bind_splits dest: set_cpu_at_tk)

lemma set_char_tk [tk]: "set_char a v g = Some g' \<Longrightarrow> tickets g' = tickets g"
  by (auto simp: set_char_def split: if_splits)

lemma hex2mem_tk [tk]:
  "hex2mem b p (\<lambda>i v g. set_char (a i) v g) n f g = Some (x, g') \<Longrightarrow> tickets g' = tickets g"
proof -
  have "hex2mem_loop b p (\<lambda>i v g. set_char (a i) v g) i n g = Some (x, g') \<Longrightarrow> tickets g' = tickets g" for i x
    by (induction n arbitrary: p i g) (auto split: bind_splits option.splits dest: set_char_tk)
  then show "hex2mem b p (\<lambda>i v g. set_char (a i) v g) n f g = Some (x, g') \<Longrightarrow> tickets g' = tickets g"
    by (auto simp: hex2mem_def split: bind_splits)
qed

lemma reg_idx_tk [tk]: "reg_idx t g = (i, g') \<Longrightarrow> tickets g' = tickets g"
  by (auto simp: reg_idx_def split: if_splits)

lemma queries_tk [tk]:
  "handle_qSupported p g = Some (r, g') \<Longrightarrow> tickets g' = tickets g"
  "handle_qC t p g = Some (r, g') \<Longrightarrow> tickets g' = tickets g"
  "handle_qAttached p g = Some (r, g') \<Longrightarrow> tickets g' = tickets g"
  "handle_qOffsets p g = Some (r, g') \<Longrightarrow> tickets g' = tickets g"
  "handle_qTStatus p g = Some (r, g') \<Longrightarrow> tickets g' = tickets g"
  "handle_qfThreadInfo p g = Some (r, g') \<Longrightarrow> tickets g' = tickets g"
  "handle_qsThreadInfo p g = Some (r, g') \<Longrightarrow> tickets g' = tickets g"
  by (auto simp: handle_qSupported_def handle_qC_def handle_qAttached_def handle_qOffsets_def
      handle_qTStatus_def handle_qfThreadInfo_def handle_qsThreadInfo_def
      split: bind_splits if_splits dest!: strcpy_tk)

lemma symbol_queries_tk [tk]:
  "handle_qSymbol p g = Some (r, g') \<Longrightarrow> tickets g' = tickets g"
  "handle_qSymbolResponse p g = Some (r, g') \<Longrightarrow> tickets g' = tickets g"
  "handle_qThreadExtraInfo p g = Some (r, g') \<Longrightarrow> tickets g' = tickets g"
  by (auto simp: handle_qSymbol_def handle_qSymbolResponse_def handle_qThreadExtraInfo_def
      split: bind_splits if_splits dest!: strcpy_tk mem2hex_tk)

lemma handle_query_tk [tk]: "handle_query t p g = Some g' \<Longrightarrow> tickets g' = tickets g"
  unfolding handle_query_def
  by (auto split: bind_splits if_splits dest!: queries_tk symbol_queries_tk strcpy_tk)

lemma thread_handlers_tk [tk]:
  "handleThreadAlive p g = Some (r, g') \<Longrightarrow> tickets g' = tickets g"
  "handleReasonTargetHalted sg t b g = Some (b', g') \<Longrightarrow> tickets g' = tickets g"
  "handleH p g = Some (r, g') \<Longrightarrow> tickets g' = tickets g"
  by (auto simp: handleThreadAlive_def handleReasonTargetHalted_def handleH_def Let_def
      split: bind_splits if_splits dest!: replies_tk mem2hex_tk)

lemma set_reg_bytes_ticket [simp]: "ticket (set_reg_bytes bs c) = ticket c"
  by (simp add: set_reg_bytes_def)

lemma cpu_at_flags [simp]: "cpu_at i (fault_flags f g) = cpu_at i g"
  by (simp add: cpu_at_def fault_flags_def)

lemma register_handlers_tk [tk]:
  "handleReadRegisters t g = Some (r, g') \<Longrightarrow> tickets g' = tickets g"
  "handleWriteRegisters t p g = Some (r, g') \<Longrightarrow> tickets g' = tickets g"
  by (auto simp: handleReadRegisters_def handleWriteRegisters_def
      split: bind_splits prod.splits dest!: replies_tk mem2hex_tk reg_idx_tk dest: set_cpu_at_tk)

lemma register_handler_tk [tk]:
  "handleReadRegister t p g = Some (r, g') \<Longrightarrow> tickets g' = tickets g"
  "handleWriteRegister t p g = Some (r, g') \<Longrightarrow> tickets g' = tickets g"
  by (auto simp: handleReadRegister_def handleWriteRegister_def Let_def
      split: bind_splits prod.splits if_splits dest!: replies_tk mem2hex_tk reg_idx_tk setReg_tk)

lemma memory_handlers_tk [tk]:
  "handleReadMemory p g = Some (r, g') \<Longrightarrow> tickets g' = tickets g"
  "handleWriteMemory p g = Some (r, g') \<Longrightarrow> tickets g' = tickets g"
  by (auto simp: handleReadMemory_def handleWriteMemory_def
      split: bind_splits prod.splits if_splits option.splits dest!: replies_tk mem2hex_tk hex2mem_tk)

lemma break_handlers_tk [tk]:
  "handleSetSoftBreak p g = Some (r, g') \<Longrightarrow> tickets g' = tickets g"
  "handleRemoveSoftBreak p g = Some (r, g') \<Longrightarrow> tickets g' = tickets g"
  by (auto simp: handleSetSoftBreak_def handleRemoveSoftBreak_def Let_def
      split: bind_splits prod.splits if_splits option.splits dest!: replies_tk set_char_tk)

lemma VCont_parse_tk [tk]: "VCont_parse p g = Some g' \<Longrightarrow> tickets g' = tickets g"
  by (auto simp: VCont_parse_def Let_def split: bind_splits if_splits dest!: strcpy_tk)

lemma handle_break_tk:
  assumes "\<And>p g r g'. h p g = Some (r, g') \<Longrightarrow> tickets g' = tickets g"
  shows "handle_break h p g = Some g' \<Longrightarrow> tickets g' = tickets g"
  by (auto simp: handle_break_def split: bind_splits if_splits dest!: strcpy_tk assms)

lemma breaks_tk [tk]:
  "handle_break handleSetSoftBreak p g = Some g' \<Longrightarrow> tickets g' = tickets g"
  "handle_break handleRemoveSoftBreak p g = Some g' \<Longrightarrow> tickets g' = tickets g"
  by (rule handle_break_tk; (rule break_handlers_tk)?; assumption)+

lemma dispatch_tk: "dispatch sg t c p g = Some g' \<Longrightarrow> tickets g' = tickets g"
  by (auto simp: dispatch_def split: bind_splits if_splits
      dest!: tk)

lemma handlePacket_tk: "handlePacket sg t g = Some g' \<Longrightarrow> tickets g' = tickets g"
  by (auto simp: handlePacket_def Let_def split: bind_splits if_splits dest!: dispatch_tk)

section \<open>The turn\<close>

abbreviation tick :: "gsys \<Rightarrow> nat \<Rightarrow> int" where
  "tick s p \<equiv> tickets (stub s) ! p"

abbreviation ncpu :: "gsys \<Rightarrow> nat" where
  "ncpu s \<equiv> length (tickets (stub s))"

definition pc_ok :: "gsys \<Rightarrow> nat \<Rightarrow> gpc \<Rightarrow> bool" where
  "pc_ok s p pc = (case pc of
      GRun \<Rightarrow> tick s p < serving s
    | GLeave \<Rightarrow> tick s p < serving s
    | GTurn _ \<Rightarrow> serving s \<le> tick s p
    | GResume \<Rightarrow> serving s \<le> tick s p
    | GLoop \<Rightarrow> tick s p < serving s \<or> tick s p = serving s \<and> allstop s
    | _ \<Rightarrow> tick s p = serving s \<and> allstop s)"

definition turn_inv :: "gsys \<Rightarrow> bool" where
  "turn_inv s =
     (serving s \<le> tcounter s \<and>
      (\<forall>p<ncpu s. tick s p < tcounter s) \<and>
      (\<forall>p<ncpu s. \<forall>q<ncpu s. serving s \<le> tick s p \<longrightarrow> tick s p = tick s q \<longrightarrow> p = q) \<and>
      (\<forall>k. serving s \<le> k \<longrightarrow> k < tcounter s \<longrightarrow> (\<exists>p<ncpu s. tick s p = k)) \<and>
      (\<forall>p<ncpu s. pc_ok s p (gpc s p)))"

lemma length_tickets: "ncpu s = length (gcpus (stub s))"
  by (simp add: tickets_def)

lemma turn_invI:
  assumes "serving s \<le> tcounter s" "\<forall>p<ncpu s. tick s p < tcounter s"
    and "\<forall>p<ncpu s. \<forall>q<ncpu s. serving s \<le> tick s p \<longrightarrow> tick s p = tick s q \<longrightarrow> p = q"
    and "\<forall>k. serving s \<le> k \<longrightarrow> k < tcounter s \<longrightarrow> (\<exists>p<ncpu s. tick s p = k)"
    and "\<forall>p<ncpu s. pc_ok s p (gpc s p)"
  shows "turn_inv s"
  using assms by (simp add: turn_inv_def)

lemma turn_invD:
  assumes "turn_inv s"
  shows "serving s \<le> tcounter s" "\<forall>p<ncpu s. tick s p < tcounter s"
    and "\<forall>p<ncpu s. \<forall>q<ncpu s. serving s \<le> tick s p \<longrightarrow> tick s p = tick s q \<longrightarrow> p = q"
    and "\<forall>k. serving s \<le> k \<longrightarrow> k < tcounter s \<longrightarrow> (\<exists>p<ncpu s. tick s p = k)"
    and "\<forall>p<ncpu s. pc_ok s p (gpc s p)"
  using assms by (simp_all add: turn_inv_def)

lemma turn_move:
  assumes "turn_inv s" "tickets (stub s') = tickets (stub s)" "serving s' = serving s" "tcounter s' = tcounter s"
    and "allstop s \<longrightarrow> allstop s'" "gpc s' = (gpc s)(p := pc)" "pc_ok s' p pc"
  shows "turn_inv s'"
proof -
  note I = turn_invD [OF assms(1)]
  have "pc_ok s' q (gpc s' q)" if "q < ncpu s" for q
    using I(5) [rule_format, OF that] assms(2,3,5-7) by (auto simp: pc_ok_def split: gpc.splits)
  then have "\<forall>q<ncpu s'. pc_ok s' q (gpc s' q)" unfolding assms(2) by simp
  then show ?thesis
    using I(1-4) unfolding assms(2-4) [symmetric] by (rule turn_invI [rotated 4])
qed

lemma turn_draw:
  assumes "turn_inv s" "tickets (stub s') = (tickets (stub s))[p := tcounter s]" "serving s' = serving s"
    and "tcounter s' = tcounter s + 1" "allstop s' = allstop s" "p < ncpu s" "tick s p < serving s"
    and "gpc s' = (gpc s)(p := pc)" "pc = GResume \<or> (\<exists>sg. pc = GTurn sg)"
  shows "turn_inv s'"
proof (rule turn_invI)
  note I = turn_invD [OF assms(1)]
  have T: "ncpu s' = ncpu s" "tick s' q = (if q = p then tcounter s else tick s q)" if "q < ncpu s" for q
    using assms(2,6) that by (simp_all add: nth_list_update)
  have n: "ncpu s' = ncpu s" using assms(2) by simp
  have old: "tick s q < tcounter s" "pc_ok s q (gpc s q)" if "q < ncpu s" for q
    using I(2) [rule_format, OF that] I(5) [rule_format, OF that] .
  show "serving s' \<le> tcounter s'" using I(1) assms(3,4) by simp
  show "\<forall>q<ncpu s'. tick s' q < tcounter s'"
    unfolding n assms(4)
  proof (intro allI impI)
    fix q assume q: "q < ncpu s"
    show "tick s' q < tcounter s + 1" using old(1) [OF q] by (simp add: T(2) [OF q])
  qed
  show "\<forall>q<ncpu s'. \<forall>r<ncpu s'. serving s' \<le> tick s' q \<longrightarrow> tick s' q = tick s' r \<longrightarrow> q = r"
    unfolding n assms(3)
  proof (intro allI impI)
    fix q r assume qr: "q < ncpu s" "r < ncpu s" "serving s \<le> tick s' q" "tick s' q = tick s' r"
    show "q = r"
      using qr(3,4) old(1) [OF qr(1)] old(1) [OF qr(2)] I(3) [rule_format, OF qr(1,2)]
      by (simp add: T(2) [OF qr(1)] T(2) [OF qr(2)] split: if_splits)
  qed
  show "\<forall>k. serving s' \<le> k \<longrightarrow> k < tcounter s' \<longrightarrow> (\<exists>q<ncpu s'. tick s' q = k)"
    unfolding n assms(3,4)
  proof (intro allI impI)
    fix k assume k: "serving s \<le> k" "k < tcounter s + 1"
    show "\<exists>q<ncpu s. tick s' q = k"
    proof (cases "k = tcounter s")
      case True
      then show ?thesis using assms(6) T(2) [OF assms(6)] by (intro exI [of _ p]) simp
    next
      case False
      then have "k < tcounter s" using k by simp
      then have "\<exists>q<ncpu s. tick s q = k" by (rule I(4) [rule_format, OF k(1)])
      then obtain q where q: "q < ncpu s" "tick s q = k" by (elim exE conjE)
      then have "q \<noteq> p" using k(1) assms(7) by auto
      then show ?thesis using q T(2) [OF q(1)] by (intro exI [of _ q]) simp
    qed
  qed
  show "\<forall>q<ncpu s'. pc_ok s' q (gpc s' q)"
    unfolding n
  proof (intro allI impI)
    fix q assume q: "q < ncpu s"
    show "pc_ok s' q (gpc s' q)"
    proof (cases "q = p")
      case True
      have "tick s' q = tcounter s" using T(2) [OF q] True by simp
      then show ?thesis using True I(1) assms(3,8,9) by (auto simp: pc_ok_def)
    next
      case False
      have "tick s' q = tick s q" using T(2) [OF q] False by simp
      then show ?thesis using old(2) [OF q] False assms(3,5,8) by (simp add: pc_ok_def split: gpc.splits)
    qed
  qed
qed

lemma turn_pass:
  assumes "turn_inv s" "tickets (stub s') = tickets (stub s)" "serving s' = serving s + 1" "tcounter s' = tcounter s"
    and "p < ncpu s" "tick s p = serving s"
    and "gpc s' = (gpc s)(p := pc)" "pc = GLeave \<or> pc = GLoop"
  shows "turn_inv s'"
proof (rule turn_invI)
  note I = turn_invD [OF assms(1)]
  have other: "tick s q \<noteq> serving s" if "q < ncpu s" "q \<noteq> p" for q
    using I(3) [rule_format, OF assms(5) that(1)] assms(6) that(2) by auto
  have "tick s p < tcounter s" by (rule I(2) [rule_format, OF assms(5)])
  then show "serving s' \<le> tcounter s'" using assms(3,4,6) by simp
  show "\<forall>q<ncpu s'. tick s' q < tcounter s'" using I(2) unfolding assms(2,4) .
  show "\<forall>q<ncpu s'. \<forall>r<ncpu s'. serving s' \<le> tick s' q \<longrightarrow> tick s' q = tick s' r \<longrightarrow> q = r"
    unfolding assms(2,3)
  proof (intro allI impI)
    fix q r assume "q < ncpu s" "r < ncpu s" "serving s + 1 \<le> tick s q" "tick s q = tick s r"
    then show "q = r" using I(3) [rule_format, of q r] by simp
  qed
  show "\<forall>k. serving s' \<le> k \<longrightarrow> k < tcounter s' \<longrightarrow> (\<exists>q<ncpu s'. tick s' q = k)"
  proof (intro allI impI)
    fix k assume "serving s' \<le> k" "k < tcounter s'"
    then have "serving s \<le> k" "k < tcounter s" using assms(3,4) by simp_all
    then have "\<exists>q<ncpu s. tick s q = k" by (rule I(4) [rule_format])
    then obtain q where "q < ncpu s" "tick s q = k" by (elim exE conjE)
    then show "\<exists>q<ncpu s'. tick s' q = k" using assms(2) by (intro exI [of _ q]) simp
  qed
  show "\<forall>q<ncpu s'. pc_ok s' q (gpc s' q)"
  proof (intro allI impI)
    fix q assume q: "q < ncpu s'"
    show "pc_ok s' q (gpc s' q)"
    proof (cases "q = p")
      case True
      then show ?thesis using assms(2,3,6-8) by (auto simp: pc_ok_def)
    next
      case False
      have q': "q < ncpu s" using q unfolding assms(2) .
      have "pc_ok s q (gpc s q)" by (rule I(5) [rule_format, OF q'])
      moreover have "tick s q \<noteq> serving s" by (rule other [OF q' False])
      ultimately show ?thesis
        using False assms(2,3,7) by (auto simp: pc_ok_def split: gpc.splits)
    qed
  qed
qed

section \<open>Every step keeps the turn\<close>

lemma my_cpu_eq: "p < ncpu s \<Longrightarrow> my_cpu p s = Some (gcpus (stub s) ! p)"
  by (simp add: my_cpu_def cpu_at_def tickets_def)

lemma tick_cpu: "p < ncpu s \<Longrightarrow> ticket (gcpus (stub s) ! p) = tick s p"
  by (simp add: tickets_def)

lemma set_my_cpu_eq:
  "p < ncpu s \<Longrightarrow> set_my_cpu p c s = Some (s\<lparr>stub := (stub s)\<lparr>gcpus := (gcpus (stub s))[p := c]\<rparr>\<rparr>)"
  by (simp add: set_my_cpu_def set_cpu_at_def tickets_def)

lemma tickets_set_cpu:
  "tickets (g\<lparr>gcpus := (gcpus g)[p := c]\<rparr>) = (tickets g)[p := ticket c]"
  by (simp add: tickets_def map_update)

lemma tickets_same: "p < length (tickets g) \<Longrightarrow> (tickets g)[p := ticket (gcpus g ! p)] = tickets g"
  by (simp add: tickets_def list_update_same_conv)

lemma draw_ticket_ok:
  assumes "turn_inv s" "p < ncpu s" "draw_ticket p s = Some s'" "pc = GResume \<or> (\<exists>sg. pc = GTurn sg)"
  shows "turn_inv (goto p pc s')"
proof (cases "tick s p < serving s")
  case True
  then have s': "s' = s\<lparr>stub := (stub s)\<lparr>gcpus := (gcpus (stub s))[p := (gcpus (stub s) ! p)\<lparr>ticket := tcounter s\<rparr>]\<rparr>,
      tcounter := tcounter s + 1\<rparr>"
    using assms(2,3) by (simp add: draw_ticket_def my_cpu_eq set_my_cpu_eq tick_cpu)
  show ?thesis
    by (rule turn_draw [OF assms(1), where p = p and pc = pc])
      (use assms(2,4) True in \<open>simp_all add: s' goto_def tickets_set_cpu\<close>)
next
  case False
  then have s': "s' = s" using assms(2,3) by (simp add: draw_ticket_def my_cpu_eq tick_cpu)
  show ?thesis
    by (rule turn_move [OF assms(1), where p = p and pc = pc])
      (use assms(4) False in \<open>auto simp: s' goto_def pc_ok_def\<close>)
qed

lemma turn_cong:
  assumes "turn_inv s" "tickets (stub s') = tickets (stub s)" "serving s' = serving s" "tcounter s' = tcounter s"
    and "allstop s' = allstop s" "gpc s' = gpc s"
  shows "turn_inv s'"
  using assms(1) unfolding turn_inv_def pc_ok_def assms(2-6) .

lemma getReg64_Some: "getReg64 n (int p) g = Some v \<Longrightarrow> p < length (tickets g)"
  by (auto simp: getReg64_def cpu_at_def tickets_def split: bind_splits if_splits)

lemma exc_note_fields:
  assumes "exc_note p vec s = Some s'" "p < ncpu s"
  shows "tickets (stub s') = tickets (stub s)" "serving s' = serving s" "tcounter s' = tcounter s"
    "allstop s' = allstop s" "gpc s' = gpc s"
proof -
  let ?c = "(gcpus (stub s) ! p)\<lparr>gstate := Stopped\<rparr>"
  obtain l where l: "lp_lock False (glock s p) = Some l" by (simp add: lp_lock_spec)
  let ?s2 = "s\<lparr>glock := (glock s)(p := l), stub := (stub s)\<lparr>gcpus := (gcpus (stub s))[p := ?c]\<rparr>\<rparr>"
  have "tickets (stub ?s2) = tickets (stub s)"
    using assms(2) by (simp add: tickets_set_cpu tickets_same)
  moreover have "\<exists>g. tickets g = tickets (stub ?s2) \<and> s' = ?s2\<lparr>stub := g\<rparr>"
    using assms l my_cpu_eq [of p "s\<lparr>glock := (glock s)(p := l)\<rparr>"] set_my_cpu_eq [of p "s\<lparr>glock := (glock s)(p := l)\<rparr>"]
    by (auto simp: exc_note_def Let_def split: bind_splits if_splits dest!: setReg_tk)
  ultimately show "tickets (stub s') = tickets (stub s)" "serving s' = serving s" "tcounter s' = tcounter s"
    "allstop s' = allstop s" "gpc s' = gpc s"
    by auto
qed

lemma exc_enter_ok:
  assumes "turn_inv s" "p < ncpu s" "gpc s p = GRun" "exc_enter p vec s = Some s'"
  shows "turn_inv s'"
proof -
  have low: "tick s p < serving s"
    using turn_invD(5) [OF assms(1), rule_format, OF assms(2)] assms(3) by (simp add: pc_ok_def)
  obtain s1 where s1: "exc_note p vec s = Some s1" using assms(4) by (auto simp: exc_enter_def split: bind_splits)
  note F = exc_note_fields [OF s1 assms(2)]
  have I: "turn_inv s1" by (rule turn_cong [OF assms(1) F])
  show ?thesis
  proof (cases "vec = StopIPI")
    case True
    then have s': "s' = goto p GLoop (s1\<lparr>ipi := (ipi s1)(p := False)\<rparr>)" using assms(4) s1 by (simp add: exc_enter_def)
    show ?thesis
      by (rule turn_move [OF I, where p = p and pc = GLoop]) (use low F in \<open>simp_all add: s' goto_def pc_ok_def\<close>)
  next
    case False
    then obtain s2 where "draw_ticket p s1 = Some s2" "s' = goto p (GTurn (sigval_of vec)) s2"
      using assms(4) s1 by (auto simp: exc_enter_def split: bind_splits)
    then show ?thesis using draw_ticket_ok [OF I] F(1) assms(2) by simp
  qed
qed

lemma turn_to:
  assumes "turn_inv s" "p < ncpu s" "tick s p = serving s" "allstop s"
    and "tickets g = tickets (stub s)"
    and "pc = GLoop \<or> (\<exists>sg. pc = GTalk sg \<or> pc = GReport sg \<or> (\<exists>i. pc = GStopping sg i \<or> pc = GStopWait sg i))"
  shows "turn_inv (goto p pc (s\<lparr>stub := g, ipi := f\<rparr>))"
  by (rule turn_move [OF assms(1), where p = p and pc = pc])
    (use assms(3-6) in \<open>auto simp: goto_def pc_ok_def\<close>)

lemma affinity_fields [simp]:
  "stub (setGdbAffinity p s) = stub s" "serving (setGdbAffinity p s) = serving s"
  "tcounter (setGdbAffinity p s) = tcounter s" "gpc (setGdbAffinity p s) = gpc s"
  "stub (resetGdbAffinity s) = stub s" "serving (resetGdbAffinity s) = serving s"
  "tcounter (resetGdbAffinity s) = tcounter s" "gpc (resetGdbAffinity s) = gpc s"
  by (simp_all add: setGdbAffinity_def resetGdbAffinity_def Let_def split: option.split)

lemma exc_action_fields:
  "exc_action p s = Some (s1, e) \<Longrightarrow> stub s1 = stub s \<and> serving s1 = serving s \<and> tcounter s1 = tcounter s \<and> gpc s1 = gpc s"
  by (auto simp: exc_action_def Let_def split: bind_splits if_splits)

lemma exc_resume_ok:
  assumes "turn_inv s" "p < ncpu s" "exc_resume p s = Some s'"
  shows "turn_inv s'"
proof -
  have t: "tick s p = serving s"
    using assms(2,3) by (auto simp: exc_resume_def my_cpu_eq tick_cpu split: if_splits)
  have pc: "(gpc s' p = GLeave \<or> gpc s' p = GLoop) \<and> tickets (stub s') = tickets (stub s) \<and>
      serving s' = serving s + 1 \<and> tcounter s' = tcounter s \<and> gpc s' = (gpc s)(p := gpc s' p)"
    using assms(2,3)
    by (auto simp: exc_resume_def my_cpu_eq tick_cpu goto_def split: if_splits bind_splits
        dest!: setReg_tk exc_action_fields)
  show ?thesis
    by (rule turn_pass [OF assms(1) _ _ _ assms(2) t, where pc = "gpc s' p"]) (use pc in simp_all)
qed

lemma exc_leave_ok:
  assumes "turn_inv s" "p < ncpu s" "gpc s p = GLeave" "exc_leave p s = Some s'"
  shows "turn_inv s'"
proof -
  have low: "tick s p < serving s"
    using turn_invD(5) [OF assms(1), rule_format, OF assms(2)] assms(3) by (simp add: pc_ok_def)
  have "tickets ((stub s)\<lparr>gcpus := (gcpus (stub s))[p := (gcpus (stub s) ! p)\<lparr>gstate := gdb_state.Running\<rparr>]\<rparr>) = tickets (stub s)"
    using assms(2) by (simp add: tickets_set_cpu tickets_same)
  then show ?thesis
    using assms(2,4) low
    by (intro turn_move [OF assms(1), where p = p and pc = GRun])
      (auto simp: exc_leave_def my_cpu_eq set_my_cpu_eq goto_def pc_ok_def split: bind_splits)
qed

lemma handle_exception_ok:
  assumes "turn_inv s" "p < ncpu s" "handle_exception p s = Some s'"
  shows "turn_inv s'"
proof -
  have ok: "pc_ok s p (gpc s p)" by (rule turn_invD(5) [OF assms(1), rule_format, OF assms(2)])
  note T = turn_to [OF assms(1,2)]
  have same: "s\<lparr>stub := stub s, ipi := ipi s\<rparr> = s" by simp
  show ?thesis
  proof (cases "gpc s p")
    case GRun
    then show ?thesis using assms(3) by (simp add: handle_exception_def)
  next
    case (GTurn sg)
    then have t: "tick s p = serving s" and s': "s' = goto p (GStopping sg 0) (s\<lparr>allstop := True\<rparr>)"
      using assms(2,3) by (auto simp: handle_exception_def exc_turn_def my_cpu_eq tick_cpu split: if_splits)
    show ?thesis
      by (rule turn_move [OF assms(1), where p = p and pc = "GStopping sg 0"])
        (use t in \<open>simp_all add: s' goto_def pc_ok_def\<close>)
  next
    case (GStopping sg i)
    then show ?thesis
      using assms(3) ok T [of "stub s" "GStopWait sg i" "(ipi s)(i := True)"] T [of "stub s" "GStopping sg (Suc i)" "ipi s"]
        T [of "stub s" "GReport sg" "ipi s"]
      by (auto simp: handle_exception_def exc_stopping_def pc_ok_def same split: if_splits)
  next
    case (GStopWait sg i)
    then show ?thesis
      using assms(3) ok T [of "stub s" "GStopping sg (Suc i)" "ipi s"]
      by (auto simp: handle_exception_def exc_stopwait_def pc_ok_def same split: if_splits)
  next
    case (GReport sg)
    then show ?thesis
      using assms(3) ok T [of _ "GTalk sg" "ipi s"] T [of "stub s" "GTalk sg" "ipi s"]
      by (auto simp: handle_exception_def exc_report_def pc_ok_def split: if_splits bind_splits dest!: thread_handlers_tk)
  next
    case (GTalk sg)
    then show ?thesis
      using assms(3) ok T [of _ "GTalk sg" "ipi s"] T [of _ GLoop "ipi s"]
      by (auto simp: handle_exception_def exc_talk_def pc_ok_def split: if_splits bind_splits dest!: handlePacket_tk)
  next
    case GLoop
    show ?thesis
    proof (cases "allstop s")
      case True
      then obtain s1 where "draw_ticket p s = Some s1" "s' = goto p GResume s1"
        using GLoop assms(3) by (auto simp: handle_exception_def exc_loop_def split: bind_splits)
      then show ?thesis using draw_ticket_ok [OF assms(1,2)] by simp
    next
      case False
      then have s': "s' = goto p GLeave s" using GLoop assms(3) by (simp add: handle_exception_def exc_loop_def)
      show ?thesis
        by (rule turn_move [OF assms(1), where p = p and pc = GLeave])
          (use ok GLoop False in \<open>auto simp: s' goto_def pc_ok_def\<close>)
    qed
  next
    case GResume
    then show ?thesis using assms exc_resume_ok by (simp add: handle_exception_def)
  next
    case GLeave
    then show ?thesis using assms exc_leave_ok by (simp add: handle_exception_def)
  qed
qed

lemma kernel_ok: "turn_inv s \<Longrightarrow> p < ncpu s \<Longrightarrow> turn_inv (kernel_runs p m r64 r32 s)"
  by (rule turn_cong [of s]) (simp_all add: kernel_runs_def Let_def tickets_def map_update list_update_same_conv)

lemma gdb_step_ok: "gdb_step s s' \<Longrightarrow> turn_inv s \<Longrightarrow> turn_inv s'"
proof (induction rule: gdb_step.induct)
  case (exception p s vec s')
  then show ?case using exc_enter_ok by (simp add: length_tickets)
next
  case (handler p s s')
  then show ?case using handle_exception_ok by (simp add: length_tickets)
next
  case (kernel p s m r64 r32)
  then show ?case using kernel_ok by (simp add: length_tickets)
next
  case (start p s g)
  have "tickets g = tickets (stub s)"
    using start by (auto simp: startGdbCpu_def cpu_at_def set_cpu_at_def tickets_def map_update list_update_same_conv)
  then show ?case by (intro turn_cong [OF start.prems]) simp_all
qed

lemma gsys_init_ok: "turn_inv (gsys_init n g s)"
  by (auto simp: turn_inv_def gsys_init_def tickets_def GdbCpu_init_def pc_ok_def)

lemma gdb_reach_ok: "gdb_step\<^sup>*\<^sup>* s s' \<Longrightarrow> turn_inv s \<Longrightarrow> turn_inv s'"
  by (induction rule: rtranclp_induct) (auto intro: gdb_step_ok)

definition at_frontend :: "gsys \<Rightarrow> nat \<Rightarrow> bool" where
  "at_frontend s p = (case gpc s p of GStopping _ _ \<Rightarrow> True | GStopWait _ _ \<Rightarrow> True | GReport _ \<Rightarrow> True | GTalk _ \<Rightarrow> True | _ \<Rightarrow> False)"

text \<open>
  C18: However exceptions, breakpoints and stop interrupts interleave on the
  processors, at most one of them is between stopping the others and the end of its
  talk with the front-end, and while tickets are outstanding the one that is being
  served belongs to exactly one processor, which is inside the handler: the turn
  cannot be lost or given twice.
\<close>
theorem gdb_one_talks_turn_not_lost:
  assumes "gdb_step\<^sup>*\<^sup>* (gsys_init n g s0) s"
  shows "(\<forall>p q. p < length (gcpus (stub s)) \<longrightarrow> q < length (gcpus (stub s)) \<longrightarrow>
      at_frontend s p \<longrightarrow> at_frontend s q \<longrightarrow> p = q) \<and>
    (serving s < tcounter s \<longrightarrow>
      (\<exists>!p. p < length (gcpus (stub s)) \<and> ticket (gcpus (stub s) ! p) = serving s) \<and>
      (\<exists>p. p < length (gcpus (stub s)) \<and> ticket (gcpus (stub s) ! p) = serving s \<and> gpc s p \<noteq> GRun \<and> gpc s p \<noteq> GLeave))"
proof -
  have I: "turn_inv s" by (rule gdb_reach_ok [OF assms gsys_init_ok])
  have uniq: "p = q" if "p < ncpu s" "q < ncpu s" "tick s p = serving s" "tick s q = serving s" for p q
    using turn_invD(3) [OF I, rule_format, OF that(1,2)] that(3,4) by simp
  have front: "tick s p = serving s" if "p < ncpu s" "at_frontend s p" for p
    using turn_invD(5) [OF I, rule_format, OF that(1)] that(2) by (auto simp: pc_ok_def at_frontend_def split: gpc.splits)
  have turn: "\<exists>p<ncpu s. tick s p = serving s" if "serving s < tcounter s"
    by (rule turn_invD(4) [OF I, rule_format]) (use that in simp_all)
  have inside: "gpc s p \<noteq> GRun \<and> gpc s p \<noteq> GLeave" if "p < ncpu s" "tick s p = serving s" for p
    using turn_invD(5) [OF I, rule_format, OF that(1)] that(2) by (auto simp: pc_ok_def)
  show ?thesis
    unfolding length_tickets [symmetric]
  proof (intro conjI impI allI)
    fix p q assume "p < ncpu s" "q < ncpu s" "at_frontend s p" "at_frontend s q"
    then show "p = q" using uniq front by blast
  next
    assume "serving s < tcounter s"
    then obtain p where p: "p < ncpu s" "tick s p = serving s" using turn by blast
    then show "\<exists>!p. p < ncpu s \<and> ticket (gcpus (stub s) ! p) = serving s"
      by (intro ex1I [of _ p]) (auto simp: tick_cpu intro: uniq)
    show "\<exists>p. p < ncpu s \<and> ticket (gcpus (stub s) ! p) = serving s \<and> gpc s p \<noteq> GRun \<and> gpc s p \<noteq> GLeave"
      using p inside tick_cpu by (intro exI [of _ p]) simp
  qed
qed

definition ex_stub :: gdb where
  "ex_stub = \<lparr>line = \<lparr>rx = [], tx = []\<rparr>, gcpus = [], memory = Map.empty, writable = (\<lambda>_. False),
     gdbFaultHandlerCalled = False, gdbFaultHandlerEnabled = False, bpMap = Map.empty,
     hook_addr = 0, hook_break = False, Htid = -2, vCont = VCont_init, inbuf = [], outbuf = []\<rparr>"

definition ex_gsys :: gsys where
  "ex_gsys = gsys_init 2 ex_stub \<lparr>stub = ex_stub, tcounter = 0, serving = 0, allstop = False, savedThread = None,
     savedAffinity = None, gthread = (\<lambda>_. th_new 0 0), gcurr = id, glock = (\<lambda>_. \<lparr>lockCount = 0, intr = True\<rparr>),
     ipi = (\<lambda>_. False), gpc = (\<lambda>_. GRun)\<rparr>"

lemma ex_gdb_step: "\<exists>s'. gdb_step ex_gsys s' \<and> serving s' < tcounter s' \<and> length (gcpus (stub s')) = 2"
proof -
  obtain s' where s': "exc_enter 1 1 ex_gsys = Some s'" "serving s' < tcounter s'" "length (gcpus (stub s')) = 2"
    by (simp add: exc_enter_def exc_note_def ex_gsys_def gsys_init_def ex_stub_def lp_lock_spec my_cpu_def cpu_at_def
        set_my_cpu_def set_cpu_at_def draw_ticket_def GdbCpu_init_def StopIPI_def goto_def eval_nat_numeral)
  have "gdb_step ex_gsys s'"
    by (rule gdb_step.exception [where p = 1 and vec = 1])
      (use s'(1) in \<open>simp_all add: StopIPI_def ex_gsys_def gsys_init_def\<close>)
  then show ?thesis using s' by blast
qed

theorem gdb_one_talks_turn_not_lost_witness:
  "\<exists>s. gdb_step ex_gsys s \<and> serving s < tcounter s \<and>
    (\<exists>!p. p < length (gcpus (stub s)) \<and> ticket (gcpus (stub s) ! p) = serving s)"
proof -
  obtain s where s: "gdb_step ex_gsys s" "serving s < tcounter s" using ex_gdb_step by blast
  have "gdb_step\<^sup>*\<^sup>* (gsys_init 2 ex_stub \<lparr>stub = ex_stub, tcounter = 0, serving = 0, allstop = False, savedThread = None,
     savedAffinity = None, gthread = (\<lambda>_. th_new 0 0), gcurr = id, glock = (\<lambda>_. \<lparr>lockCount = 0, intr = True\<rparr>),
     ipi = (\<lambda>_. False), gpc = (\<lambda>_. GRun)\<rparr>) s"
    using s(1) by (simp add: ex_gsys_def)
  from gdb_one_talks_turn_not_lost [OF this] show ?thesis using s by blast
qed

end
