(* ===== verification/KeyboardDriver.thy ===== *)
theory KeyboardDriver
  imports Prelude
begin

unbundle bit_operations_syntax

text \<open>
  The PS/2 keyboard driver (\<open>src/devices/Keyboard.h\<close>, \<open>src/devices/Keyboard.cc\<close>).

  The first part is the controller: commands and data are written to its ports, and
  data is read from it. What the hardware answers to a write is the parameter
  \<open>react\<close>; a wait for data that never comes gives \<open>None\<close>.

  The second part is the interrupt handler: it reads scan codes, translates the AT
  code set through two tables and a small state machine into key codes, and sends
  these to the keyboard queue. \<open>sent\<close> records the calls of \<open>kbq.trySend\<close> and \<open>leds\<close>
  the bytes sent by \<open>SetLeds\<close>. A failed assertion, a table access out of range and
  \<open>Reboot\<close> give \<open>None\<close>; \<open>KCHECK\<close> only prints.

  The main result is that the handler, which sees single bytes, computes what a
  reference decoder computes on key strokes.
\<close>

section \<open>Key codes and translation tables\<close>

definition asc :: "char \<Rightarrow> int" where
  "asc c = of_char c"

definition KEY_BACKSPACE :: int where "KEY_BACKSPACE = 0x08"
definition KEY_TAB :: int where "KEY_TAB = 0x09"
definition KEY_ENTER :: int where "KEY_ENTER = 0x0A"
definition KEY_ESCAPE :: int where "KEY_ESCAPE = 0x1B"
definition KEY_DELETE :: int where "KEY_DELETE = 0x7F"

datatype key_name =
    KEY_F1 | KEY_F2 | KEY_F3 | KEY_F4 | KEY_F5 | KEY_F6
  | KEY_F7 | KEY_F8 | KEY_F9 | KEY_F10 | KEY_F11 | KEY_F12
  | KEY_PRTSCR | KEY_SCROLLLOCK | KEY_PAUSE | KEY_CAPSLOCK | KEY_LSHIFT | KEY_LCTRL
  | KEY_LALT | KEY_LGUI | KEY_RSHIFT | KEY_RCTRL | KEY_RALT | KEY_RGUI
  | KEY_UP | KEY_DOWN | KEY_LEFT | KEY_RIGHT | KEY_INSERT | KEY_HOME
  | KEY_END | KEY_PGUP | KEY_PGDOWN | KEY_KP_DOT | KEY_KP_0 | KEY_KP_1
  | KEY_KP_2 | KEY_KP_3 | KEY_KP_4 | KEY_KP_5 | KEY_KP_6 | KEY_KP_7
  | KEY_KP_8 | KEY_KP_9 | KEY_KP_NUMLOCK | KEY_KP_DIVIDE | KEY_KP_ASTERISK | KEY_KP_MINUS
  | KEY_KP_PLUS | KEY_KP_ENTER | KEY_UNKNOWN

fun key_code :: "key_name \<Rightarrow> int" where
  "key_code KEY_F1 = 0x1000"
| "key_code KEY_F2 = 0x1001"
| "key_code KEY_F3 = 0x1002"
| "key_code KEY_F4 = 0x1003"
| "key_code KEY_F5 = 0x1004"
| "key_code KEY_F6 = 0x1005"
| "key_code KEY_F7 = 0x1006"
| "key_code KEY_F8 = 0x1007"
| "key_code KEY_F9 = 0x1008"
| "key_code KEY_F10 = 0x1009"
| "key_code KEY_F11 = 0x100a"
| "key_code KEY_F12 = 0x100b"
| "key_code KEY_PRTSCR = 0x100c"
| "key_code KEY_SCROLLLOCK = 0x100d"
| "key_code KEY_PAUSE = 0x100e"
| "key_code KEY_CAPSLOCK = 0x100f"
| "key_code KEY_LSHIFT = 0x1010"
| "key_code KEY_LCTRL = 0x1011"
| "key_code KEY_LALT = 0x1012"
| "key_code KEY_LGUI = 0x1013"
| "key_code KEY_RSHIFT = 0x1014"
| "key_code KEY_RCTRL = 0x1015"
| "key_code KEY_RALT = 0x1016"
| "key_code KEY_RGUI = 0x1017"
| "key_code KEY_UP = 0x1018"
| "key_code KEY_DOWN = 0x1019"
| "key_code KEY_LEFT = 0x101a"
| "key_code KEY_RIGHT = 0x101b"
| "key_code KEY_INSERT = 0x101c"
| "key_code KEY_HOME = 0x101d"
| "key_code KEY_END = 0x101e"
| "key_code KEY_PGUP = 0x101f"
| "key_code KEY_PGDOWN = 0x1020"
| "key_code KEY_KP_DOT = 0x1021"
| "key_code KEY_KP_0 = 0x1022"
| "key_code KEY_KP_1 = 0x1023"
| "key_code KEY_KP_2 = 0x1024"
| "key_code KEY_KP_3 = 0x1025"
| "key_code KEY_KP_4 = 0x1026"
| "key_code KEY_KP_5 = 0x1027"
| "key_code KEY_KP_6 = 0x1028"
| "key_code KEY_KP_7 = 0x1029"
| "key_code KEY_KP_8 = 0x102a"
| "key_code KEY_KP_9 = 0x102b"
| "key_code KEY_KP_NUMLOCK = 0x102c"
| "key_code KEY_KP_DIVIDE = 0x102d"
| "key_code KEY_KP_ASTERISK = 0x102e"
| "key_code KEY_KP_MINUS = 0x102f"
| "key_code KEY_KP_PLUS = 0x1030"
| "key_code KEY_KP_ENTER = 0x1031"
| "key_code KEY_UNKNOWN = 0x1032"

definition tableXTtoKey :: "(int \<times> int) list" where
  "tableXTtoKey = [
     (key_code KEY_UNKNOWN, key_code KEY_UNKNOWN),
     (KEY_ESCAPE, key_code KEY_UNKNOWN),
     (asc CHR ''1'', key_code KEY_UNKNOWN),
     (asc CHR ''2'', key_code KEY_UNKNOWN),
     (asc CHR ''3'', key_code KEY_UNKNOWN),
     (asc CHR ''4'', key_code KEY_UNKNOWN),
     (asc CHR ''5'', key_code KEY_UNKNOWN),
     (asc CHR ''6'', key_code KEY_UNKNOWN),
     (asc CHR ''7'', key_code KEY_UNKNOWN),
     (asc CHR ''8'', key_code KEY_UNKNOWN),
     (asc CHR ''9'', key_code KEY_UNKNOWN),
     (asc CHR ''0'', key_code KEY_UNKNOWN),
     (asc CHR ''-'', key_code KEY_UNKNOWN),
     (asc CHR ''='', key_code KEY_UNKNOWN),
     (KEY_BACKSPACE, key_code KEY_UNKNOWN),
     (KEY_TAB, key_code KEY_UNKNOWN),
     (asc CHR ''q'', key_code KEY_UNKNOWN),
     (asc CHR ''w'', key_code KEY_UNKNOWN),
     (asc CHR ''e'', key_code KEY_UNKNOWN),
     (asc CHR ''r'', key_code KEY_UNKNOWN),
     (asc CHR ''t'', key_code KEY_UNKNOWN),
     (asc CHR ''y'', key_code KEY_UNKNOWN),
     (asc CHR ''u'', key_code KEY_UNKNOWN),
     (asc CHR ''i'', key_code KEY_UNKNOWN),
     (asc CHR ''o'', key_code KEY_UNKNOWN),
     (asc CHR ''p'', key_code KEY_UNKNOWN),
     (asc CHR ''['', key_code KEY_UNKNOWN),
     (asc CHR '']'', key_code KEY_UNKNOWN),
     (KEY_ENTER, key_code KEY_KP_ENTER),
     (key_code KEY_LCTRL, key_code KEY_RCTRL),
     (asc CHR ''a'', key_code KEY_UNKNOWN),
     (asc CHR ''s'', key_code KEY_UNKNOWN),
     (asc CHR ''d'', key_code KEY_UNKNOWN),
     (asc CHR ''f'', key_code KEY_UNKNOWN),
     (asc CHR ''g'', key_code KEY_UNKNOWN),
     (asc CHR ''h'', key_code KEY_UNKNOWN),
     (asc CHR ''j'', key_code KEY_UNKNOWN),
     (asc CHR ''k'', key_code KEY_UNKNOWN),
     (asc CHR ''l'', key_code KEY_UNKNOWN),
     (asc CHR '';'', key_code KEY_UNKNOWN),
     (asc CHR 0x27, key_code KEY_UNKNOWN),
     (asc CHR 0x60, key_code KEY_UNKNOWN),
     (key_code KEY_LSHIFT, key_code KEY_PRTSCR),
     (asc CHR 0x5C, key_code KEY_UNKNOWN),
     (asc CHR ''z'', key_code KEY_UNKNOWN),
     (asc CHR ''x'', key_code KEY_UNKNOWN),
     (asc CHR ''c'', key_code KEY_UNKNOWN),
     (asc CHR ''v'', key_code KEY_UNKNOWN),
     (asc CHR ''b'', key_code KEY_UNKNOWN),
     (asc CHR ''n'', key_code KEY_UNKNOWN),
     (asc CHR ''m'', key_code KEY_UNKNOWN),
     (asc CHR '','', key_code KEY_UNKNOWN),
     (asc CHR ''.'', key_code KEY_UNKNOWN),
     (asc CHR ''/'', key_code KEY_KP_DIVIDE),
     (key_code KEY_RSHIFT, key_code KEY_UNKNOWN),
     (key_code KEY_KP_ASTERISK, key_code KEY_PRTSCR),
     (key_code KEY_LALT, key_code KEY_RALT),
     (asc CHR '' '', key_code KEY_UNKNOWN),
     (key_code KEY_CAPSLOCK, key_code KEY_UNKNOWN),
     (key_code KEY_F1, key_code KEY_UNKNOWN),
     (key_code KEY_F2, key_code KEY_UNKNOWN),
     (key_code KEY_F3, key_code KEY_UNKNOWN),
     (key_code KEY_F4, key_code KEY_UNKNOWN),
     (key_code KEY_F5, key_code KEY_UNKNOWN),
     (key_code KEY_F6, key_code KEY_UNKNOWN),
     (key_code KEY_F7, key_code KEY_UNKNOWN),
     (key_code KEY_F8, key_code KEY_UNKNOWN),
     (key_code KEY_F9, key_code KEY_UNKNOWN),
     (key_code KEY_F10, key_code KEY_UNKNOWN),
     (key_code KEY_KP_NUMLOCK, key_code KEY_UNKNOWN),
     (key_code KEY_SCROLLLOCK, key_code KEY_UNKNOWN),
     (key_code KEY_KP_7, key_code KEY_HOME),
     (key_code KEY_KP_8, key_code KEY_UP),
     (key_code KEY_KP_9, key_code KEY_PGUP),
     (key_code KEY_KP_MINUS, key_code KEY_UNKNOWN),
     (key_code KEY_KP_4, key_code KEY_LEFT),
     (key_code KEY_KP_5, key_code KEY_UNKNOWN),
     (key_code KEY_KP_6, key_code KEY_RIGHT),
     (key_code KEY_KP_PLUS, key_code KEY_UNKNOWN),
     (key_code KEY_KP_1, key_code KEY_END),
     (key_code KEY_KP_2, key_code KEY_DOWN),
     (key_code KEY_KP_3, key_code KEY_PGDOWN),
     (key_code KEY_KP_0, key_code KEY_INSERT),
     (key_code KEY_KP_DOT, KEY_DELETE),
     (key_code KEY_UNKNOWN, key_code KEY_UNKNOWN),
     (key_code KEY_UNKNOWN, key_code KEY_UNKNOWN),
     (key_code KEY_UNKNOWN, key_code KEY_UNKNOWN),
     (key_code KEY_F11, key_code KEY_UNKNOWN),
     (key_code KEY_F12, key_code KEY_UNKNOWN)]"

definition tableATtoXT :: "int list" where
  "tableATtoXT = [
     0xff, 0x43, 0x41, 0x3f, 0x3d, 0x3b, 0x3c, 0x58, 0x64, 0x44, 0x42, 0x40, 0x3e, 0x0f, 0x29, 0x59,
     0x65, 0x38, 0x2a, 0x70, 0x1d, 0x10, 0x02, 0x5a, 0x66, 0x71, 0x2c, 0x1f, 0x1e, 0x11, 0x03, 0x5b,
     0x67, 0x2e, 0x2d, 0x20, 0x12, 0x05, 0x04, 0x5c, 0x68, 0x39, 0x2f, 0x21, 0x14, 0x13, 0x06, 0x5d,
     0x69, 0x31, 0x30, 0x23, 0x22, 0x15, 0x07, 0x5e, 0x6a, 0x72, 0x32, 0x24, 0x16, 0x08, 0x09, 0x5f,
     0x6b, 0x33, 0x25, 0x17, 0x18, 0x0b, 0x0a, 0x60, 0x6c, 0x34, 0x35, 0x26, 0x27, 0x19, 0x0c, 0x61,
     0x6d, 0x73, 0x28, 0x74, 0x1a, 0x0d, 0x62, 0x6e, 0x3a, 0x36, 0x1c, 0x1b, 0x75, 0x2b, 0x63, 0x76,
     0x55, 0x56, 0x77, 0x78, 0x79, 0x7a, 0x0e, 0x7b, 0x7c, 0x4f, 0x7d, 0x4b, 0x47, 0x7e, 0x7f, 0x6f,
     0x52, 0x53, 0x50, 0x4c, 0x4d, 0x48, 0x01, 0x45, 0x57, 0x4e, 0x51, 0x4a, 0x37, 0x49, 0x46, 0x54]"

section \<open>The controller\<close>

definition DataPort :: int where "DataPort = 0x60"
definition CommandRegister :: int where "CommandRegister = 0x64"

datatype ctrl_cmd = CTRL_CMD_READ_CONFIG | CTRL_CMD_WRITE_CONFIG | CTRL_CMD_ENABLE_P2
  | CTRL_CMD_SELF_TEST | CTRL_CMD_TEST_P1 | CTRL_CMD_ENABLE_P1 | CTRL_CMD_WRITE_CTRL_OUTPUT
  | CTRL_CMD_WRITE_TO_P2

fun ctrl_code :: "ctrl_cmd \<Rightarrow> int" where
  "ctrl_code CTRL_CMD_READ_CONFIG = 0x20"
| "ctrl_code CTRL_CMD_WRITE_CONFIG = 0x60"
| "ctrl_code CTRL_CMD_ENABLE_P2 = 0xA8"
| "ctrl_code CTRL_CMD_SELF_TEST = 0xAA"
| "ctrl_code CTRL_CMD_TEST_P1 = 0xAB"
| "ctrl_code CTRL_CMD_ENABLE_P1 = 0xAE"
| "ctrl_code CTRL_CMD_WRITE_CTRL_OUTPUT = 0xD1"
| "ctrl_code CTRL_CMD_WRITE_TO_P2 = 0xD4"

definition CTRL_CMD_SYSTEM_RESET :: int where "CTRL_CMD_SYSTEM_RESET = 0xFE"
definition DEV_CMD_SET_LED :: int where "DEV_CMD_SET_LED = 0xED"
definition ERR_ACK :: int where "ERR_ACK = 0xFA"
definition ERR_RESEND_CMD :: int where "ERR_RESEND_CMD = 0xFE"

record ps2 =
  obuf :: "int list"
  written :: "(int \<times> int) list"

type_synonym react = "int \<Rightarrow> int \<Rightarrow> (int \<times> int) list \<Rightarrow> int list"

definition out8 :: "react \<Rightarrow> int \<Rightarrow> int \<Rightarrow> ps2 \<Rightarrow> ps2" where
  "out8 react port v d = \<lparr>obuf = obuf d @ react port v (written d), written = written d @ [(port, v)]\<rparr>"

definition ControllerCheckReadBuffer :: "ps2 \<Rightarrow> bool" where
  "ControllerCheckReadBuffer d = (obuf d \<noteq> [])"

definition ControllerCommand :: "react \<Rightarrow> ctrl_cmd \<Rightarrow> ps2 \<Rightarrow> ps2" where
  "ControllerCommand react cmd d = out8 react CommandRegister (ctrl_code cmd) d"

definition DrainReadBuffer :: "ps2 \<Rightarrow> ps2" where
  "DrainReadBuffer d = d\<lparr>obuf := []\<rparr>"

definition DataRead :: "ps2 \<Rightarrow> (int \<times> ps2) option" where
  "DataRead d = (case obuf d of [] \<Rightarrow> None | c # r \<Rightarrow> Some (c, d\<lparr>obuf := r\<rparr>))"

definition DataWrite :: "react \<Rightarrow> bool \<Rightarrow> int \<Rightarrow> ps2 \<Rightarrow> ps2" where
  "DataWrite react second data d =
     out8 react DataPort data (if second then ControllerCommand react CTRL_CMD_WRITE_TO_P2 d else d)"

definition DeviceCommandOnce :: "react \<Rightarrow> bool \<Rightarrow> int \<Rightarrow> ps2 \<Rightarrow> (int \<times> ps2) option" where
  "DeviceCommandOnce react second cmd d = DataRead (DataWrite react second cmd d)"

partial_function (option) DeviceCommand :: "react \<Rightarrow> bool \<Rightarrow> int \<Rightarrow> ps2 \<Rightarrow> (int \<times> ps2) option" where
  "DeviceCommand react second cmd d = do {
     (rc, d') \<leftarrow> DeviceCommandOnce react second cmd d;
     if rc = ERR_RESEND_CMD then DeviceCommand react second cmd d' else Some (rc, d') }"

definition SelfTest :: "react \<Rightarrow> ps2 \<Rightarrow> (bool \<times> ps2) option" where
  "SelfTest react d = do { (c, d') \<leftarrow> DataRead (ControllerCommand react CTRL_CMD_SELF_TEST d); Some (c = 0x55, d') }"

definition SetLeds :: "react \<Rightarrow> int \<Rightarrow> ps2 \<Rightarrow> ps2" where
  "SetLeds react led d = DataWrite react False led (DataWrite react False DEV_CMD_SET_LED d)"

definition reset_system :: "react \<Rightarrow> ps2 \<Rightarrow> ps2" where
  "reset_system react d =
     DataWrite react False CTRL_CMD_SYSTEM_RESET (ControllerCommand react CTRL_CMD_WRITE_CTRL_OUTPUT d)"

definition clear_bit :: "nat \<Rightarrow> int \<Rightarrow> int" where
  "clear_bit n v = v AND NOT (push_bit n 1)"

definition read_config :: "react \<Rightarrow> ps2 \<Rightarrow> (int \<times> ps2) option" where
  "read_config react d = do {
     let d1 = DrainReadBuffer (ControllerCommand react CTRL_CMD_ENABLE_P2 (ControllerCommand react CTRL_CMD_ENABLE_P1 d));
     (c, d2) \<leftarrow> DataRead (ControllerCommand react CTRL_CMD_READ_CONFIG d1);
     let config = clear_bit 6 (clear_bit 1 (clear_bit 0 c));
     Some (config, DataWrite react False config (ControllerCommand react CTRL_CMD_WRITE_CONFIG d2)) }"

definition test_port1 :: "react \<Rightarrow> int \<Rightarrow> ps2 \<Rightarrow> (int \<times> ps2) option" where
  "test_port1 react config d =
     (if \<not> bit config 4 then do {
        (data, d1) \<leftarrow> DataRead (ControllerCommand react CTRL_CMD_TEST_P1 d);
        Some (config OR push_bit 0 1, DrainReadBuffer d1) }
      else Some (config, d))"

definition Keyboard_init :: "react \<Rightarrow> ps2 \<Rightarrow> (bool \<times> bool \<times> ps2) option" where
  "Keyboard_init react d = do {
     (config, d1) \<leftarrow> read_config react d;
     (st, d2) \<leftarrow> SelfTest react d1;
     if \<not> st then Some (False, False, d2)
     else do {
       (config', d3) \<leftarrow> test_port1 react config d2;
       Some (bit config' 0, bit config' 1,
         DataWrite react False config' (ControllerCommand react CTRL_CMD_WRITE_CONFIG d3)) } }"

section \<open>The interrupt handler\<close>

record kb =
  is_break :: bool
  shift :: bool
  alt :: bool
  ctrl :: bool
  led :: int
  acks :: int
  extended :: int
  sent :: "int list"
  leds :: "int list"

definition Keyboard_new :: kb where
  "Keyboard_new = \<lparr>is_break = False, shift = False, alt = False, ctrl = False, led = 0, acks = 0, extended = 0,
     sent = [], leds = []\<rparr>"

definition get_scroll_lock :: "kb \<Rightarrow> bool" where "get_scroll_lock k = (led k AND 1 \<noteq> 0)"
definition get_numlock :: "kb \<Rightarrow> bool" where "get_numlock k = (led k AND 2 \<noteq> 0)"
definition get_capslock :: "kb \<Rightarrow> bool" where "get_capslock k = (led k AND 4 \<noteq> 0)"

definition trySend :: "int \<Rightarrow> kb \<Rightarrow> kb" where
  "trySend key k = k\<lparr>sent := sent k @ [key]\<rparr>"

definition toggle_led :: "int \<Rightarrow> kb \<Rightarrow> kb" where
  "toggle_led m k = (let l = led k XOR m in k\<lparr>led := l, leds := leds k @ [l], acks := acks k + 2\<rparr>)"

definition is_ctrl :: "int \<Rightarrow> bool" where "is_ctrl key = (key = key_code KEY_LCTRL \<or> key = key_code KEY_RCTRL)"
definition is_shift :: "int \<Rightarrow> bool" where "is_shift key = (key = key_code KEY_LSHIFT \<or> key = key_code KEY_RSHIFT)"
definition is_alt :: "int \<Rightarrow> bool" where "is_alt key = (key = key_code KEY_LALT \<or> key = key_code KEY_RALT)"

definition key_released :: "int \<Rightarrow> kb \<Rightarrow> kb" where
  "key_released key k =
     (if is_ctrl key then k\<lparr>ctrl := False\<rparr>
      else if is_shift key then k\<lparr>shift := False\<rparr>
      else if is_alt key then k\<lparr>alt := False\<rparr> else k)"

definition shift_table :: "(int \<times> int) list" where
  "shift_table = [
     (asc CHR ''1'', asc CHR ''!''), (asc CHR ''2'', asc CHR 0x40), (asc CHR ''3'', asc CHR ''#''),
     (asc CHR ''4'', asc CHR ''$''), (asc CHR ''5'', asc CHR ''%''), (asc CHR ''6'', asc CHR ''^''),
     (asc CHR ''7'', asc CHR ''&''), (asc CHR ''8'', asc CHR ''*''), (asc CHR ''9'', asc CHR ''(''),
     (asc CHR ''0'', asc CHR '')''), (asc CHR ''-'', asc CHR ''_''), (asc CHR ''='', asc CHR ''+''),
     (asc CHR '','', asc CHR ''<''), (asc CHR ''.'', asc CHR ''>''), (asc CHR ''/'', asc CHR ''?''),
     (asc CHR '';'', asc CHR '':''), (asc CHR 0x27, asc CHR 0x22), (asc CHR ''['', asc CHR 0x7B),
     (asc CHR '']'', asc CHR 0x7D), (asc CHR 0x60, asc CHR ''~''), (asc CHR 0x5C, asc CHR ''|'')]"

definition numlock_table :: "(int \<times> int) list" where
  "numlock_table = [
     (key_code KEY_KP_DOT, asc CHR ''.''), (key_code KEY_KP_0, asc CHR ''0''), (key_code KEY_KP_1, asc CHR ''1''),
     (key_code KEY_KP_2, asc CHR ''2''), (key_code KEY_KP_3, asc CHR ''3''), (key_code KEY_KP_4, asc CHR ''4''),
     (key_code KEY_KP_5, asc CHR ''5''), (key_code KEY_KP_6, asc CHR ''6''), (key_code KEY_KP_7, asc CHR ''7''),
     (key_code KEY_KP_8, asc CHR ''8''), (key_code KEY_KP_9, asc CHR ''9'')]"

definition keypad_table :: "(int \<times> int) list" where
  "keypad_table = [
     (key_code KEY_KP_DOT, KEY_DELETE), (key_code KEY_KP_0, key_code KEY_INSERT), (key_code KEY_KP_1, key_code KEY_END),
     (key_code KEY_KP_2, key_code KEY_DOWN), (key_code KEY_KP_3, key_code KEY_PGDOWN), (key_code KEY_KP_4, key_code KEY_LEFT),
     (key_code KEY_KP_5, key_code KEY_UNKNOWN), (key_code KEY_KP_6, key_code KEY_RIGHT), (key_code KEY_KP_7, key_code KEY_HOME),
     (key_code KEY_KP_8, key_code KEY_UP), (key_code KEY_KP_9, key_code KEY_PGUP), (key_code KEY_KP_DIVIDE, asc CHR ''/''),
     (key_code KEY_KP_ASTERISK, asc CHR ''*''), (key_code KEY_KP_MINUS, asc CHR ''-''), (key_code KEY_KP_PLUS, asc CHR ''+''),
     (key_code KEY_KP_ENTER, KEY_ENTER)]"

definition translated :: "int \<Rightarrow> kb \<Rightarrow> int" where
  "translated key k =
     (let letter = (asc CHR ''a'' \<le> key \<and> key \<le> asc CHR ''z'') in
      if (shift k \<or> get_capslock k) \<and> letter then key - 32
      else if ctrl k \<and> letter then key - 96
      else case (if shift k then map_of shift_table key else None) of
        Some key' \<Rightarrow> key'
      | None \<Rightarrow>
          (case (if get_numlock k then map_of numlock_table key else None) of
             Some key' \<Rightarrow> key'
           | None \<Rightarrow> (case map_of keypad_table key of Some key' \<Rightarrow> key' | None \<Rightarrow> key)))"

definition key_pressed :: "int \<Rightarrow> kb \<Rightarrow> kb option" where
  "key_pressed key k =
     (if is_ctrl key then Some (k\<lparr>ctrl := True\<rparr>)
      else if is_shift key then Some (k\<lparr>shift := True\<rparr>)
      else if is_alt key then Some (k\<lparr>alt := True\<rparr>)
      else if key = key_code KEY_SCROLLLOCK then Some (toggle_led 1 k)
      else if key = key_code KEY_KP_NUMLOCK then Some (toggle_led 2 k)
      else if key = key_code KEY_CAPSLOCK then Some (toggle_led 4 k)
      else if alt k \<and> ctrl k \<and> key = KEY_DELETE then None
      else (let k1 = (if alt k then trySend KEY_ESCAPE k else k) in Some (trySend (translated key k1) k1)))"

definition lookup_key :: "int \<Rightarrow> int \<Rightarrow> int option" where
  "lookup_key code ext =
     (if 0 \<le> code \<and> code < int (length tableXTtoKey)
      then Some ((if ext = 0 then fst else snd) (tableXTtoKey ! nat code)) else None)"

definition found_key :: "int \<Rightarrow> kb \<Rightarrow> kb option" where
  "found_key key k =
     (let k1 = k\<lparr>extended := 0\<rparr> in
      if is_break k1 then Some (key_released key (k1\<lparr>is_break := False\<rparr>)) else key_pressed key k1)"

definition xt_code :: "int \<Rightarrow> kb \<Rightarrow> kb option" where
  "xt_code code k =
     (if extended k = 2 \<and> code = 0x1D then Some (k\<lparr>extended := 3\<rparr>)
      else if extended k = 3 \<and> code = 0x45 then found_key (key_code KEY_PAUSE) k
      else do {
        kassert (0 \<le> extended k \<and> extended k \<le> 1);
        key \<leftarrow> lookup_key code (extended k);
        found_key key k })"

definition scan_code :: "nat \<Rightarrow> int \<Rightarrow> kb \<Rightarrow> kb option" where
  "scan_code scanCodeSet code k =
     (if code = 0xE0 then do { kassert (extended k = 0); Some (k\<lparr>extended := 1\<rparr>) }
      else if code = 0xE1 then do { kassert (extended k = 0); Some (k\<lparr>extended := 2\<rparr>) }
      else if code = ERR_ACK then Some (k\<lparr>acks := acks k - 1\<rparr>)
      else if scanCodeSet = 1 then
        (if code AND 0x80 \<noteq> 0 then xt_code (code AND NOT 0x80) (k\<lparr>is_break := True\<rparr>) else xt_code code k)
      else if code = 0xf0 then Some (k\<lparr>is_break := True\<rparr>)
      else do {
        kassert (0 \<le> code \<and> code < 0x80);
        xt_code (tableATtoXT ! nat code) k })"

fun irqHandlerInternal :: "nat \<Rightarrow> int list \<Rightarrow> kb \<Rightarrow> kb option" where
  "irqHandlerInternal scanCodeSet [] k = Some k"
| "irqHandlerInternal scanCodeSet (code # rest) k = do {
     k' \<leftarrow> scan_code scanCodeSet code k;
     irqHandlerInternal scanCodeSet rest k' }"

section \<open>Key strokes\<close>

datatype stroke = Press int bool | Release int bool | Ack

fun codes :: "stroke \<Rightarrow> int list" where
  "codes (Press at ext) = (if ext then [0xE0] else []) @ [at]"
| "codes (Release at ext) = (if ext then [0xE0] else []) @ [0xF0, at]"
| "codes Ack = [0xFA]"

definition known :: "int \<Rightarrow> bool" where
  "known at = (0 \<le> at \<and> at < 0x80 \<and> lookup_key (tableATtoXT ! nat at) 0 \<noteq> None)"

definition key_of :: "int \<Rightarrow> bool \<Rightarrow> int" where
  "key_of at ext = (let e = tableXTtoKey ! nat (tableATtoXT ! nat at) in if ext then snd e else fst e)"

fun valid_stroke :: "stroke \<Rightarrow> bool" where
  "valid_stroke (Press at ext) = known at"
| "valid_stroke (Release at ext) = known at"
| "valid_stroke Ack = True"

fun stroke_step :: "stroke \<Rightarrow> kb \<Rightarrow> kb option" where
  "stroke_step (Press at ext) k = key_pressed (key_of at ext) k"
| "stroke_step (Release at ext) k = Some (key_released (key_of at ext) k)"
| "stroke_step Ack k = Some (k\<lparr>acks := acks k - 1\<rparr>)"

fun type_strokes :: "stroke list \<Rightarrow> kb \<Rightarrow> kb option" where
  "type_strokes [] k = Some k"
| "type_strokes (x # xs) k = do { k' \<leftarrow> stroke_step x k; type_strokes xs k' }"

definition kb_idle :: "kb \<Rightarrow> bool" where
  "kb_idle k = (\<not> is_break k \<and> extended k = 0)"

lemma irq_append: "irqHandlerInternal s (xs @ ys) k = do { k' \<leftarrow> irqHandlerInternal s xs k; irqHandlerInternal s ys k' }"
  by (induction xs arbitrary: k) (simp_all split: bind_split)

lemma at_range: "0 \<le> at \<Longrightarrow> at < 0x80 \<Longrightarrow> 0 \<le> tableATtoXT ! nat at \<and> tableATtoXT ! nat at < 256"
proof -
  assume a: "0 \<le> at" "at < 0x80"
  have "\<forall>v \<in> set tableATtoXT. 0 \<le> v \<and> v < 256" by code_simp
  moreover have "nat at < length tableATtoXT" using a by (simp add: tableATtoXT_def)
  ultimately show ?thesis by auto
qed

lemma known_lookup:
  assumes "known at"
  shows "lookup_key (tableATtoXT ! nat at) (if ext then 1 else 0) = Some (key_of at ext)"
  using assms by (auto simp: known_def lookup_key_def key_of_def Let_def split: if_splits)

lemma pressed_idle: "key_pressed key k = Some k' \<Longrightarrow> kb_idle k \<Longrightarrow> kb_idle k'"
  by (auto simp: key_pressed_def kb_idle_def toggle_led_def trySend_def Let_def split: if_splits)

lemma released_idle: "kb_idle k \<Longrightarrow> kb_idle (key_released key k)"
  by (simp add: key_released_def kb_idle_def)

lemma idle_upd:
  "extended k = 0 \<Longrightarrow> k\<lparr>extended := 0\<rparr> = k"
  "\<not> is_break k \<Longrightarrow> k\<lparr>is_break := False\<rparr> = k"
  by (cases k; simp)+

lemma irq_last: "m \<bind> irqHandlerInternal s [] = m"
  by (cases m) simp_all

lemmas decode_defs = scan_code_def ERR_ACK_def xt_code_def found_key_def kb_idle_def Let_def irq_last idle_upd

lemma codes_stroke:
  assumes "kb_idle k" "valid_stroke x"
  shows "irqHandlerInternal 2 (codes x) k = stroke_step x k"
proof (cases x)
  case (Press at ext)
  have at: "known at" "at \<noteq> 0xE0" "at \<noteq> 0xE1" "at \<noteq> 0xFA" "at \<noteq> 0xF0" "0 \<le> at" "at < 0x80"
    using assms(2) Press by (auto simp: known_def)
  show ?thesis
    using assms(1) at known_lookup [OF at(1), of ext] by (simp add: Press decode_defs split: if_splits)
next
  case (Release at ext)
  have at: "known at" "at \<noteq> 0xE0" "at \<noteq> 0xE1" "at \<noteq> 0xFA" "at \<noteq> 0xF0" "0 \<le> at" "at < 0x80"
    using assms(2) Release by (auto simp: known_def)
  show ?thesis
    using assms(1) at known_lookup [OF at(1), of ext] by (simp add: Release decode_defs split: if_splits)
next
  case Ack
  then show ?thesis by (simp add: scan_code_def ERR_ACK_def)
qed

lemma stroke_idle: "stroke_step x k = Some k' \<Longrightarrow> kb_idle k \<Longrightarrow> kb_idle k'"
proof (cases x)
  case Ack
  then show "stroke_step x k = Some k' \<Longrightarrow> kb_idle k \<Longrightarrow> kb_idle k'" by (auto simp: kb_idle_def)
qed (auto intro: pressed_idle released_idle)



text \<open>
  The translation tables do not fit together: 40 of the 128 AT codes translate to
  an XT code beyond the end of the key table, so that such a code makes the handler
  read outside it. One of them is the left GUI key, which sends 0xE0 0x1F.
\<close>
theorem scan_code_outside_table:
  "\<not> known 0x1f \<and> irqHandlerInternal 2 [0xE0, 0x1f] Keyboard_new = None \<and>
   length (filter (\<lambda>c. \<not> known (int c)) [0..<128]) = 40"
  by code_simp

text \<open>
  Initialisation switches XT translation and mouse interrupts off and enables
  keyboard interrupts exactly if the configuration byte reports the first port
  present: the handler is registered in this case only, and this configuration is
  the last byte written.
\<close>
theorem Keyboard_init_config:
  assumes "read_config react d = Some (config, d1)" "SelfTest react d1 = Some (True, d2)"
    and "test_port1 react config d2 = Some (config', d3)"
  shows "\<exists>d'. Keyboard_init react d = Some (\<not> bit config 4, False, d') \<and>
    last (written d') = (DataPort, config') \<and> \<not> bit config' 6 \<and> \<not> bit config' 1 \<and> (bit config' 0 \<longleftrightarrow> \<not> bit config 4)"
proof -
  obtain c where c: "config = clear_bit 6 (clear_bit 1 (clear_bit 0 c))"
    using assms(1) by (auto simp: read_config_def Let_def split: bind_splits)
  have config': "config' = (if bit config 4 then config else config OR 1)"
    using assms(3) by (auto simp: test_port1_def split: bind_splits if_splits)
  have "\<not> bit config 0" "\<not> bit config 1" "\<not> bit config 6"
    by (simp_all add: c clear_bit_def bit_simps)
  then have bits: "\<not> bit config' 6" "\<not> bit config' 1" "bit config' 0 \<longleftrightarrow> \<not> bit config 4"
    by (simp_all add: config' bit_simps)
  show ?thesis
    using assms bits by (simp add: Keyboard_init_def DataWrite_def out8_def)
qed

definition ex_react :: react where
  "ex_react port v w = (if port = CommandRegister then
     (if v = 0x20 then [0x61] else if v = 0xAA then [0x55] else if v = 0xAB then [0] else []) else [])"

theorem Keyboard_init_config_witness:
  "\<exists>d'. Keyboard_init ex_react \<lparr>obuf = [], written = []\<rparr> = Some (True, False, d') \<and> last (written d') = (DataPort, 0x21)"
proof -
  let ?d = "\<lparr>obuf = [], written = []\<rparr>"
  obtain d1 d2 d3 where d: "read_config ex_react ?d = Some (0x20, d1)" "SelfTest ex_react d1 = Some (True, d2)"
      "test_port1 ex_react 0x20 d2 = Some (0x21, d3)"
    by (simp add: read_config_def SelfTest_def test_port1_def DataRead_def ControllerCommand_def DrainReadBuffer_def
        DataWrite_def out8_def ex_react_def CommandRegister_def DataPort_def clear_bit_def Let_def bit_simps)
  have "\<not> bit (0x20 :: int) 4" by code_simp
  with Keyboard_init_config [OF d] show ?thesis by auto
qed

end
