(* ===== verification/MessageQueues.thy ===== *)
theory MessageQueues
  imports Buffers
begin

text \<open>
  The bounded message queue (\<open>src/runtime/SyncQueues.h\<close>): a ring buffer guarded by
  two counters, \<open>sendSlots\<close> and \<open>recvSlots\<close>, and two queues of blocked threads. A
  thread that is woken has been handed its slot by the waker and completes its
  operation later, after it has acquired the lock again; such threads are kept in
  \<open>readySend\<close> and \<open>readyRecv\<close>. Each critical section of the code is one step. The
  blocking queues are lists of waiting threads, first come first served, from which
  a timeout removes a thread. \<open>pushed\<close> and \<open>got\<close> record what went into and came
  out of the buffer.

  The invariant relates slots, woken threads and buffer contents: it makes the
  buffer accesses safe, and messages leave in the order they entered.
\<close>

record 'a mq =
  buffer :: "'a ring"
  sendSlots :: nat
  recvSlots :: nat
  sendQueue :: "(nat \<times> 'a) list"
  recvQueue :: "nat list"
  readySend :: "(nat \<times> 'a) list"
  readyRecv :: "nat list"
  pushed :: "'a list"
  got :: "(nat \<times> 'a) list"

datatype mq_result = Returned bool | Waits

definition MessageQueue_new :: "'a list \<Rightarrow> 'a mq" where
  "MessageQueue_new storage =
     (let b = RingBuffer_init storage in
      \<lparr>buffer = b, sendSlots = rb_max_size b, recvSlots = 0, sendQueue = [], recvQueue = [],
       readySend = [], readyRecv = [], pushed = [], got = []\<rparr>)"

definition MessageQueue_delete :: "'a mq \<Rightarrow> unit option" where
  "MessageQueue_delete q = do {
     kassert (rb_empty (buffer q));
     kassert (sendSlots q = rb_max_size (buffer q));
     kassert (recvSlots q = 0) }"

definition mq_size :: "'a mq \<Rightarrow> nat" where
  "mq_size q = rb_size (buffer q)"

definition finish_send :: "'a \<Rightarrow> 'a mq \<Rightarrow> 'a mq option" where
  "finish_send elem q = do {
     b \<leftarrow> rb_push (buffer q) elem;
     let q1 = q\<lparr>buffer := b, pushed := pushed q @ [elem]\<rparr>;
     (case recvQueue q1 of
        [] \<Rightarrow> Some (q1\<lparr>recvSlots := recvSlots q1 + 1\<rparr>)
      | t # ts \<Rightarrow> Some (q1\<lparr>recvQueue := ts, readyRecv := readyRecv q1 @ [t]\<rparr>)) }"

definition finish_recv :: "nat \<Rightarrow> 'a mq \<Rightarrow> ('a \<times> 'a mq) option" where
  "finish_recv t q = do {
     elem \<leftarrow> rb_front (buffer q);
     b \<leftarrow> rb_pop (buffer q);
     let q1 = q\<lparr>buffer := b, got := got q @ [(t, elem)]\<rparr>;
     (case sendQueue q1 of
        [] \<Rightarrow> Some (elem, q1\<lparr>sendSlots := sendSlots q1 + 1\<rparr>)
      | w # ws \<Rightarrow> Some (elem, q1\<lparr>sendQueue := ws, readySend := readySend q1 @ [w]\<rparr>)) }"

definition internalSend :: "nat \<Rightarrow> 'a \<Rightarrow> nat \<Rightarrow> 'a mq \<Rightarrow> (mq_result \<times> 'a mq) option" where
  "internalSend t elem timeout q =
     (if sendSlots q = 0 then
        if timeout = 0 then Some (Returned False, q)
        else Some (Waits, q\<lparr>sendQueue := sendQueue q @ [(t, elem)]\<rparr>)
      else do {
        q1 \<leftarrow> finish_send elem (q\<lparr>sendSlots := sendSlots q - 1\<rparr>);
        Some (Returned True, q1) })"

definition internalRecv :: "nat \<Rightarrow> nat \<Rightarrow> 'a mq \<Rightarrow> (mq_result \<times> 'a option \<times> 'a mq) option" where
  "internalRecv t timeout q =
     (if recvSlots q = 0 then
        if timeout = 0 then Some (Returned False, None, q)
        else Some (Waits, None, q\<lparr>recvQueue := recvQueue q @ [t]\<rparr>)
      else do {
        (e, q1) \<leftarrow> finish_recv t (q\<lparr>recvSlots := recvSlots q - 1\<rparr>);
        Some (Returned True, Some e, q1) })"

definition send_woken :: "nat \<Rightarrow> 'a \<Rightarrow> 'a mq \<Rightarrow> 'a mq option" where
  "send_woken t elem q = finish_send elem (q\<lparr>readySend := remove1 (t, elem) (readySend q)\<rparr>)"

definition recv_woken :: "nat \<Rightarrow> 'a mq \<Rightarrow> ('a \<times> 'a mq) option" where
  "recv_woken t q = finish_recv t (q\<lparr>readyRecv := remove1 t (readyRecv q)\<rparr>)"

definition send_timeout :: "nat \<Rightarrow> 'a \<Rightarrow> 'a mq \<Rightarrow> 'a mq" where
  "send_timeout t elem q = q\<lparr>sendQueue := remove1 (t, elem) (sendQueue q)\<rparr>"

definition recv_timeout :: "nat \<Rightarrow> 'a mq \<Rightarrow> 'a mq" where
  "recv_timeout t q = q\<lparr>recvQueue := remove1 t (recvQueue q)\<rparr>"

inductive mq_step :: "'a mq \<Rightarrow> 'a mq \<Rightarrow> bool" where
  "internalSend t elem timeout q = Some (r, q') \<Longrightarrow> mq_step q q'"
| "internalRecv t timeout q = Some (r, e, q') \<Longrightarrow> mq_step q q'"
| "(t, elem) \<in> set (readySend q) \<Longrightarrow> send_woken t elem q = Some q' \<Longrightarrow> mq_step q q'"
| "t \<in> set (readyRecv q) \<Longrightarrow> recv_woken t q = Some (e, q') \<Longrightarrow> mq_step q q'"
| "(t, elem) \<in> set (sendQueue q) \<Longrightarrow> mq_step q (send_timeout t elem q)"
| "t \<in> set (recvQueue q) \<Longrightarrow> mq_step q (recv_timeout t q)"

definition mq_inv :: "nat \<Rightarrow> 'a mq \<Rightarrow> bool" where
  "mq_inv n q =
     (rb_invar (buffer q) \<and> rb_max_size (buffer q) = n \<and>
      sendSlots q + length (readySend q) + length (rb_contents (buffer q)) = n \<and>
      recvSlots q + length (readyRecv q) = length (rb_contents (buffer q)) \<and>
      (sendSlots q = 0 \<or> sendQueue q = []) \<and> (recvSlots q = 0 \<or> recvQueue q = []) \<and>
      map snd (got q) @ rb_contents (buffer q) = pushed q)"

lemma finish_send_ok:
  assumes "rb_invar (buffer q)" "rb_max_size (buffer q) = n"
    and "sendSlots q + length (readySend q) + length (rb_contents (buffer q)) + 1 = n"
    and "recvSlots q + length (readyRecv q) = length (rb_contents (buffer q))"
    and "sendSlots q = 0 \<or> sendQueue q = []" "recvSlots q = 0 \<or> recvQueue q = []"
    and "map snd (got q) @ rb_contents (buffer q) = pushed q"
  shows "\<exists>q'. finish_send elem q = Some q' \<and> mq_inv n q'"
proof -
  have "length (rb_contents (buffer q)) < rb_max_size (buffer q)" using assms by simp
  then obtain b where b: "rb_push (buffer q) elem = Some b" "rb_invar b"
      "rb_contents b = rb_contents (buffer q) @ [elem]" "rb_max_size b = rb_max_size (buffer q)"
    using ring_fifo.push_cases [OF assms(1)] by metis
  show ?thesis
    using b assms by (cases "recvQueue q") (auto simp: finish_send_def mq_inv_def)
qed

lemma finish_recv_ok:
  assumes "rb_invar (buffer q)" "rb_max_size (buffer q) = n"
    and "sendSlots q + length (readySend q) + length (rb_contents (buffer q)) = n"
    and "recvSlots q + length (readyRecv q) + 1 = length (rb_contents (buffer q))"
    and "sendSlots q = 0 \<or> sendQueue q = []" "recvSlots q = 0 \<or> recvQueue q = []"
    and "map snd (got q) @ rb_contents (buffer q) = pushed q"
  shows "\<exists>e q'. finish_recv t q = Some (e, q') \<and> mq_inv n q'"
proof -
  obtain e es where es: "rb_contents (buffer q) = e # es"
    using assms(4) by (cases "rb_contents (buffer q)") auto
  obtain b where b: "rb_front (buffer q) = Some e" "rb_pop (buffer q) = Some b" "rb_invar b"
      "rb_contents b = es" "rb_max_size b = rb_max_size (buffer q)"
    using ring_fifo.pop_cases [OF assms(1) es] by metis
  show ?thesis
    using b assms es by (cases "sendQueue q") (auto simp: finish_recv_def mq_inv_def)
qed

lemma internalSend_ok: "mq_inv n q \<Longrightarrow> \<exists>r q'. internalSend t elem timeout q = Some (r, q') \<and> mq_inv n q'"
proof (cases "sendSlots q = 0")
  case True
  assume "mq_inv n q"
  then show ?thesis using True by (auto simp: internalSend_def mq_inv_def)
next
  case False
  assume I: "mq_inv n q"
  have "\<exists>q'. finish_send elem (q\<lparr>sendSlots := sendSlots q - 1\<rparr>) = Some q' \<and> mq_inv n q'"
    by (rule finish_send_ok) (use I False in \<open>auto simp: mq_inv_def\<close>)
  then show ?thesis using False by (auto simp: internalSend_def)
qed

lemma internalRecv_ok: "mq_inv n q \<Longrightarrow> \<exists>r e q'. internalRecv t timeout q = Some (r, e, q') \<and> mq_inv n q'"
proof (cases "recvSlots q = 0")
  case True
  assume "mq_inv n q"
  then show ?thesis using True by (auto simp: internalRecv_def mq_inv_def)
next
  case False
  assume I: "mq_inv n q"
  have "\<exists>e q'. finish_recv t (q\<lparr>recvSlots := recvSlots q - 1\<rparr>) = Some (e, q') \<and> mq_inv n q'"
    by (rule finish_recv_ok) (use I False in \<open>auto simp: mq_inv_def\<close>)
  then show ?thesis using False by (auto simp: internalRecv_def)
qed

lemma Suc_length_remove1: "x \<in> set xs \<Longrightarrow> length xs = Suc (length (remove1 x xs))"
  by (induction xs) auto

lemma send_woken_ok:
  "mq_inv n q \<Longrightarrow> (t, elem) \<in> set (readySend q) \<Longrightarrow> \<exists>q'. send_woken t elem q = Some q' \<and> mq_inv n q'"
  unfolding send_woken_def using Suc_length_remove1 [of "(t, elem)" "readySend q"]
  by (intro finish_send_ok) (auto simp: mq_inv_def)

lemma recv_woken_ok:
  "mq_inv n q \<Longrightarrow> t \<in> set (readyRecv q) \<Longrightarrow> \<exists>e q'. recv_woken t q = Some (e, q') \<and> mq_inv n q'"
  unfolding recv_woken_def using Suc_length_remove1 [of t "readyRecv q"]
  by (intro finish_recv_ok) (auto simp: mq_inv_def)

lemma mq_step_inv: "mq_step q q' \<Longrightarrow> mq_inv n q \<Longrightarrow> mq_inv n q'"
proof (induction rule: mq_step.induct)
  case (1 t elem timeout q r q')
  then show ?case using internalSend_ok [of n q t elem timeout] by auto
next
  case (2 t timeout q r e q')
  then show ?case using internalRecv_ok [of n q t timeout] by auto
next
  case (3 t elem q q')
  then show ?case using send_woken_ok [of n q t elem] by auto
next
  case (4 t q e q')
  then show ?case using recv_woken_ok [of n q t] by auto
qed (auto simp: mq_inv_def send_timeout_def recv_timeout_def)

lemma mq_reach_inv: "mq_step\<^sup>*\<^sup>* q q' \<Longrightarrow> mq_inv n q \<Longrightarrow> mq_inv n q'"
  by (induction rule: rtranclp_induct) (auto intro: mq_step_inv)

lemma mq_new_inv: "storage \<noteq> [] \<Longrightarrow> mq_inv (length storage) (MessageQueue_new storage)"
  by (simp add: mq_inv_def MessageQueue_new_def RingBuffer_init_def rb_invar_def rb_max_size_def rb_contents_def)

text \<open>
  C19: Whatever sends, receives, wake-ups and timeouts have happened on a queue, what
  was received followed by what the buffer holds is what was pushed, in this order:
  no message is lost, duplicated or overtaken. Senders wait only while no slot is
  free, receivers only while no message is unclaimed, and every send, receive and
  completion of a woken thread succeeds without failing a buffer assertion.
\<close>
theorem messages_in_order:
  assumes "mq_step\<^sup>*\<^sup>* (MessageQueue_new storage) q" "storage \<noteq> []"
  shows "map snd (got q) @ rb_contents (buffer q) = pushed q \<and>
    (sendQueue q \<noteq> [] \<longrightarrow> length (readySend q) + length (rb_contents (buffer q)) = length storage) \<and>
    (recvQueue q \<noteq> [] \<longrightarrow> length (readyRecv q) = length (rb_contents (buffer q))) \<and>
    internalSend t elem timeout q \<noteq> None \<and> internalRecv t timeout q \<noteq> None \<and>
    ((t, elem) \<in> set (readySend q) \<longrightarrow> send_woken t elem q \<noteq> None) \<and>
    (t \<in> set (readyRecv q) \<longrightarrow> recv_woken t q \<noteq> None)"
proof -
  have I: "mq_inv (length storage) q" by (rule mq_reach_inv [OF assms(1) mq_new_inv [OF assms(2)]])
  then have "map snd (got q) @ rb_contents (buffer q) = pushed q \<and>
    (sendQueue q \<noteq> [] \<longrightarrow> length (readySend q) + length (rb_contents (buffer q)) = length storage) \<and>
    (recvQueue q \<noteq> [] \<longrightarrow> length (readyRecv q) = length (rb_contents (buffer q)))"
    by (auto simp: mq_inv_def)
  then show ?thesis
    using internalSend_ok [OF I, of t elem timeout] internalRecv_ok [OF I, of t timeout]
      send_woken_ok [OF I, of t elem] recv_woken_ok [OF I, of t] by auto
qed

theorem messages_in_order_witness:
  "\<exists>q. internalSend 1 (7 :: nat) 0 (MessageQueue_new [0, 0]) = Some (Returned True, q) \<and>
    map snd (got q) @ rb_contents (buffer q) = [7]"
proof -
  obtain q where q: "internalSend 1 (7 :: nat) 0 (MessageQueue_new [0, 0]) = Some (Returned True, q)" "pushed q = [7]"
    by (simp add: internalSend_def finish_send_def MessageQueue_new_def RingBuffer_init_def rb_push_def rb_full_def
        rb_max_size_def rb_size_def Let_def)
  have "mq_step (MessageQueue_new [0, 0]) q" by (rule mq_step.intros(1) [OF q(1)])
  then have "mq_step\<^sup>*\<^sup>* (MessageQueue_new [0, 0]) q" by simp
  from messages_in_order [OF this] show ?thesis using q by auto
qed

section \<open>Reading keys\<close>

text \<open>
  \<open>InputAccess::read\<close> of \<open>src/world/Access.h\<close> on the queue of available keys: the
  first \<open>recv\<close> waits for a key, the others are \<open>tryRecv\<close>. The keyboard queue is
  given by the list of keys in it.
\<close>

fun input_loop :: "nat \<Rightarrow> nat \<Rightarrow> 'k \<Rightarrow> 'k list \<Rightarrow> 'k list \<Rightarrow> nat \<times> 'k list \<times> 'k list" where
  "input_loop r 0 k s keys = (r, s, keys)"
| "input_loop r (Suc n) k s keys =
     (case keys of
        [] \<Rightarrow> (r + 1, s @ [k], [])
      | k' # ks \<Rightarrow> input_loop (r + 1) n k' (s @ [k]) ks)"

definition InputAccess_read :: "nat \<Rightarrow> 'k list \<Rightarrow> (nat \<times> 'k list \<times> 'k list) option" where
  "InputAccess_read nbyte keys =
     (if nbyte = 0 then Some (0, [], keys)
      else case keys of [] \<Rightarrow> None | k # ks \<Rightarrow> Some (input_loop 0 nbyte k [] ks))"

lemma input_loop_eq:
  "input_loop r n k s keys =
     (if n = 0 then (r, s, keys)
      else if length keys < n then (r + length keys + 1, s @ k # keys, [])
      else (r + n, s @ take n (k # keys), drop n keys))"
proof (induction n arbitrary: r k s keys)
  case (Suc n)
  then show ?case by (cases keys) auto
qed simp

text \<open>
  A read of \<open>n\<close> characters with more than \<open>n\<close> keys available loses a key: the loop
  takes the next key from the queue before it checks whether the caller's buffer is
  full. With at most \<open>n\<close> keys available it returns all of them.
\<close>
theorem input_read_loses_key:
  assumes "0 < n" "keys \<noteq> []"
  shows "InputAccess_read n keys =
    (if length keys \<le> n then Some (length keys, keys, []) else Some (n, take n keys, drop (n + 1) keys))"
  using assms by (cases keys) (auto simp: InputAccess_read_def input_loop_eq)

theorem input_read_loses_key_witness:
  "InputAccess_read 2 [10, 20, 30, 40 :: nat] = Some (2, [10, 20], [40])"
  using input_read_loses_key [of 2 "[10, 20, 30, 40 :: nat]"] by simp

end
