(* ===== verification/Interrupts.thy ===== *)
theory Interrupts
  imports Bitmaps Locks
begin

unbundle bit_operations_syntax

text \<open>
  Interrupt handling (\<open>src/machine/Machine.cc\<close>, \<open>src/machine/APIC.cc\<close>,
  \<open>src/machine/Descriptors.h\<close>): the interrupt descriptor table, routing of device
  interrupts through the I/O interrupt controller, registration of asynchronous
  handlers, the loop that runs them, and entry and exit of interrupt service
  routines. The addresses of the assembly wrappers are a parameter. An interrupt
  handler is given by its address and context; \<open>handled\<close> records the calls.
\<close>

section \<open>The interrupt descriptor table\<close>

record gate =
  Offset00 :: "16 word"
  SegmentSelector :: "16 word"
  IST :: "3 word"
  GateType :: "4 word"
  Present :: "1 word"
  Offset16 :: "16 word"
  Offset32 :: "32 word"

definition maxIDT :: nat where "maxIDT = 256"
definition kernCS :: nat where "kernCS = 1"
definition nmiIST :: "32 word" where "nmiIST = 1"
definition dbfIST :: "32 word" where "dbfIST = 2"
definition stfIST :: "32 word" where "stfIST = 3"
definition pgfIST :: "32 word" where "pgfIST = 4"

definition gate_zero :: gate where
  "gate_zero = \<lparr>Offset00 = 0, SegmentSelector = 0, IST = 0, GateType = 0, Present = 0, Offset16 = 0, Offset32 = 0\<rparr>"

definition setupIDT :: "nat \<Rightarrow> vaddr \<Rightarrow> 32 word \<Rightarrow> gate list \<Rightarrow> gate list option" where
  "setupIDT number address ist t = do {
     kassert (number < maxIDT);
     Some (t[number := (t ! number)\<lparr>
       Offset00 := ucast (address AND 0x000000000000FFFF),
       Offset16 := ucast (drop_bit 16 (address AND 0x00000000FFFF0000)),
       Offset32 := ucast (drop_bit 32 (address AND 0xFFFFFFFF00000000)),
       SegmentSelector := of_nat (kernCS * 8),
       IST := ucast ist,
       GateType := 0x0E,
       Present := 1\<rparr>]) }"

definition idt_calls_low :: "(nat \<times> 32 word) list" where
  "idt_calls_low =
     [(0x00, 0), (0x01, 0), (0x02, nmiIST), (0x03, 0), (0x04, 0), (0x05, 0), (0x06, 0), (0x07, 0),
      (0x08, dbfIST), (0x09, 0), (0x0a, 0), (0x0b, 0), (0x0c, stfIST), (0x0d, 0), (0x0e, pgfIST), (0x0f, 0)]
     @ map (\<lambda>v. (v, 0)) [0x10..<0x80]"

definition idt_calls_high :: "(nat \<times> 32 word) list" where
  "idt_calls_high = map (\<lambda>v. (v, 0)) [0x80..<0x100]"

fun setup_gates :: "(nat \<Rightarrow> vaddr) \<Rightarrow> (nat \<times> 32 word) list \<Rightarrow> gate list \<Rightarrow> gate list option" where
  "setup_gates isr [] t = Some t"
| "setup_gates isr ((v, ist) # cs) t = do { t' \<leftarrow> setupIDT v (isr v) ist t; setup_gates isr cs t' }"

record irq_info =
  irqApicAddr :: paddr
  irqApicIrq :: "8 word"
  globalIrq :: "8 word"
  overrideFlags :: "16 word"
  handlers :: "(nat \<times> nat) list"

record irqs =
  irqTable :: "irq_info list"
  irqMask :: bitmap
  idt :: "gate list"
  ioapics :: "paddr \<Rightarrow> 8 word \<Rightarrow> 32 word"
  bspApicID :: mword
  handled :: "(nat \<times> nat) list"

definition MaxIrqCount :: nat where "MaxIrqCount = 192"

definition irq_init :: "nat \<Rightarrow> irq_info \<Rightarrow> irq_info" where
  "irq_init i e = e\<lparr>irqApicAddr := 0, irqApicIrq := 0, globalIrq := of_nat i, overrideFlags := 0\<rparr>"

definition setupIDTable :: "bool \<Rightarrow> (nat \<Rightarrow> vaddr) \<Rightarrow> irqs \<Rightarrow> irqs option" where
  "setupIDTable interruptsEnabled isr s = do {
     kassert (\<not> interruptsEnabled);
     kassert (length (irqTable s) = MaxIrqCount);
     let tab = map2 irq_init [0..<MaxIrqCount] (irqTable s);
     t \<leftarrow> setup_gates isr (idt_calls_low @ idt_calls_high) (replicate maxIDT gate_zero);
     Some (s\<lparr>irqTable := tab, idt := t\<rparr>) }"

definition gdb_vectors :: "nat list" where
  "gdb_vectors = [0x00..<0x0f] @ [0x10, 0xef]"

definition initGdb_gates :: "(nat \<Rightarrow> vaddr) \<Rightarrow> gate list \<Rightarrow> gate list option" where
  "initGdb_gates catch t = setup_gates catch (map (\<lambda>v. (v, 0)) gdb_vectors) t"

text \<open>The address to which the processor transfers control through a gate.\<close>

definition gate_target :: "gate \<Rightarrow> vaddr" where
  "gate_target g = ucast (Offset00 g) OR push_bit 16 (ucast (Offset16 g)) OR push_bit 32 (ucast (Offset32 g))"

section \<open>The I/O interrupt controller\<close>

definition IOREDTBL :: "8 word" where "IOREDTBL = 0x10"

definition io_Vector :: bitstring where "io_Vector = \<lparr>Pos = 0, Width = 8\<rparr>"
definition io_DeliveryMode :: bitstring where "io_DeliveryMode = \<lparr>Pos = 8, Width = 3\<rparr>"
definition io_DestinationMode :: bitstring where "io_DestinationMode = \<lparr>Pos = 11, Width = 1\<rparr>"
definition io_Polarity :: bitstring where "io_Polarity = \<lparr>Pos = 13, Width = 1\<rparr>"
definition io_TriggerModeLevel :: bitstring where "io_TriggerModeLevel = \<lparr>Pos = 15, Width = 1\<rparr>"
definition io_Mask :: bitstring where "io_Mask = \<lparr>Pos = 16, Width = 1\<rparr>"
definition io_DestinationSet :: bitstring where "io_DestinationSet = \<lparr>Pos = 56, Width = 8\<rparr>"

definition redirect_write :: "8 word \<Rightarrow> 64 word \<Rightarrow> (8 word \<Rightarrow> 32 word) \<Rightarrow> 8 word \<Rightarrow> 32 word" where
  "redirect_write irq val r =
     r(IOREDTBL + irq * 2 := ucast (val AND 0xFFFFFFFF), IOREDTBL + irq * 2 + 1 := ucast (drop_bit 32 val))"

definition maskIRQ :: "8 word \<Rightarrow> (8 word \<Rightarrow> 32 word) \<Rightarrow> 8 word \<Rightarrow> 32 word" where
  "maskIRQ irq r = redirect_write irq (bs_mask io_Mask) r"

definition mapIRQ_val :: "8 word \<Rightarrow> bool \<Rightarrow> bool \<Rightarrow> 64 word" where
  "mapIRQ_val vec low level =
     bs_put io_Vector (ucast vec) OR bs_put io_DeliveryMode 1 OR bs_mask io_DestinationMode
     OR bs_put io_Polarity (of_bool low) OR bs_put io_TriggerModeLevel (of_bool level) OR bs_put io_DestinationSet 1"

definition mapIRQ :: "8 word \<Rightarrow> 8 word \<Rightarrow> bool \<Rightarrow> bool \<Rightarrow> (8 word \<Rightarrow> 32 word) \<Rightarrow> 8 word \<Rightarrow> 32 word" where
  "mapIRQ irq vec low level r = redirect_write irq (mapIRQ_val vec low level) r"

definition mapIrq :: "nat \<Rightarrow> mword \<Rightarrow> irqs \<Rightarrow> irqs option" where
  "mapIrq irq vector s = do {
     kassert (irq < length (irqTable s));
     let irqmod = unat (globalIrq (irqTable s ! irq));
     kassert (irqmod < length (irqTable s));
     let e = irqTable s ! irqmod;
     let r = ioapics s (irqApicAddr e);
     let r' = (if vector \<noteq> 0 then mapIRQ (irqApicIrq e) (ucast vector) (bspApicID s \<noteq> 0) False r
               else maskIRQ (irqApicIrq e) r);
     Some (s\<lparr>ioapics := (ioapics s)(irqApicAddr e := r')\<rparr>) }"

section \<open>Registration and service of asynchronous interrupts\<close>

definition registerIrqSync :: "nat \<Rightarrow> mword \<Rightarrow> irqs \<Rightarrow> irqs option" where
  "registerIrqSync irq vector s = do {
     kassert (irq < length (irqTable s));
     kassert (handlers (irqTable s ! irq) = []);
     mapIrq irq vector s }"

definition set_handlers :: "nat \<Rightarrow> (nat \<times> nat) list \<Rightarrow> irqs \<Rightarrow> irqs" where
  "set_handlers irq hs s = s\<lparr>irqTable := (irqTable s)[irq := (irqTable s ! irq)\<lparr>handlers := hs\<rparr>]\<rparr>"

definition registerIrqAsync :: "nat \<Rightarrow> nat \<Rightarrow> nat \<Rightarrow> irqs \<Rightarrow> irqs option" where
  "registerIrqAsync irq handler ctx s = do {
     kassert (irq < length (irqTable s));
     let hs = handlers (irqTable s ! irq);
     s1 \<leftarrow> (if hs = [] then mapIrq irq (of_nat irq + 0x20) s else Some s);
     Some (set_handlers irq (hs @ [(handler, ctx)]) s1) }"

fun erase_handler :: "nat \<Rightarrow> (nat \<times> nat) list \<Rightarrow> (nat \<times> nat) list" where
  "erase_handler h [] = []"
| "erase_handler h (x # xs) = (if fst x = h then xs else x # erase_handler h xs)"

definition deregisterIrqAsync :: "nat \<Rightarrow> nat \<Rightarrow> irqs \<Rightarrow> irqs option" where
  "deregisterIrqAsync irq handler s = do {
     kassert (irq < length (irqTable s));
     let s1 = set_handlers irq (erase_handler handler (handlers (irqTable s ! irq))) s;
     if handlers (irqTable s1 ! irq) = [] then mapIrq irq 0 s1 else Some s1 }"

definition irq_handler_async :: "nat \<Rightarrow> irqs \<Rightarrow> irqs option" where
  "irq_handler_async idx s = do {
     kassert (idx < 64 * length (irqMask s));
     Some (s\<lparr>irqMask := Bitmap_set (irqMask s) idx\<rparr>) }"

definition run_handlers :: "nat \<Rightarrow> irqs \<Rightarrow> irqs" where
  "run_handlers idx s =
     s\<lparr>irqMask := Bitmap_clear (irqMask s) idx, handled := handled s @ handlers (irqTable s ! idx)\<rparr>"

definition pending_irqs :: "bitmap \<Rightarrow> nat set" where
  "pending_irqs m = {i. i < 64 * length m \<and> Bitmap_test m i}"

lemma findset_none:
  assumes "length m = 3" "Bitmap_empty m"
  shows "Bitmap_findset m = 192"
proof -
  have "m \<noteq> []" using assms(1) by auto
  then have "first_set m = 64 * length m"
    using assms(2) by (auto simp: first_set_none Bitmap_empty_iff Bitmap_test_words_bit dest: words_bit_less)
  then show ?thesis using assms(1) by (simp add: Bitmap_findset_first)
qed

lemma pending_clear:
  "i < 64 * length m \<Longrightarrow> pending_irqs (Bitmap_clear m i) = pending_irqs m - {i}"
  by (auto simp: pending_irqs_def Bitmap_test_clear length_Bitmap_ops)

lemma finite_pending [simp]: "finite (pending_irqs m)"
  by (rule finite_subset [of _ "{..<64 * length m}"]) (auto simp: pending_irqs_def)

function async_pass :: "irqs \<Rightarrow> irqs option" where
  "async_pass s =
     (if length (irqMask s) \<noteq> 3 \<or> length (irqTable s) \<noteq> MaxIrqCount then None
      else let idx = Bitmap_findset (irqMask s) in
        if idx \<ge> MaxIrqCount then Some s else async_pass (run_handlers idx s))"
  by pat_completeness auto
termination
proof (relation "measure (\<lambda>s. card (pending_irqs (irqMask s)))", simp)
  fix s :: irqs and idx
  assume a: "\<not> (length (irqMask s) \<noteq> 3 \<or> length (irqTable s) \<noteq> MaxIrqCount)" "idx = Bitmap_findset (irqMask s)"
    "\<not> MaxIrqCount \<le> idx"
  have "\<not> Bitmap_empty (irqMask s)"
    using a findset_none [of "irqMask s"] by (auto simp: MaxIrqCount_def)
  then have "Bitmap_findset (irqMask s) < 64 * 3 \<and> Bitmap_test (irqMask s) (Bitmap_findset (irqMask s))"
    by (intro bmap.find_hit [of _ 3]) (use a in auto)
  then have "idx \<in> pending_irqs (irqMask s)" "idx < 64 * length (irqMask s)"
    using a by (auto simp: pending_irqs_def)
  then show "(run_handlers idx s, s) \<in> measure (\<lambda>s. card (pending_irqs (irqMask s)))"
    using card_Diff1_less [OF finite_pending] by (simp add: run_handlers_def pending_clear del: card_Diff_insert)
qed

declare async_pass.simps [simp del]

section \<open>Interrupt service routines\<close>

record isr =
  rip :: vaddr
  cs :: mword
  rsp :: vaddr
  gsKernel :: bool
  isr_cpu :: cpu
  eois :: nat
  ustack :: "vaddr \<Rightarrow> mword"

definition userSegment :: "mword \<Rightarrow> bool" where
  "userSegment c = (c \<noteq> of_nat (kernCS * 8))"

definition IsrEntry_new :: "bool \<Rightarrow> isr \<Rightarrow> isr option" where
  "IsrEntry_new irq f = do {
     let f1 = (if irq then f\<lparr>eois := eois f + 1\<rparr> else f);
     let f2 = (if userSegment (cs f1) then f1\<lparr>gsKernel := \<not> gsKernel f1\<rparr> else f1);
     c \<leftarrow> lp_lockFake (isr_cpu f2);
     Some (f2\<lparr>isr_cpu := c\<rparr>) }"

definition checkSignals :: "vaddr \<Rightarrow> isr \<Rightarrow> isr" where
  "checkSignals sigHandler f =
     (if sigHandler \<noteq> 0 then
        f\<lparr>rsp := rsp f - 16, ustack := (ustack f)(rsp f - 8 := rip f, rsp f - 16 := 0xdeadbeef), rip := sigHandler\<rparr>
      else f)"

definition IsrEntry_delete :: "vaddr \<Rightarrow> isr \<Rightarrow> isr option" where
  "IsrEntry_delete sigHandler f = do {
     c \<leftarrow> lp_unlockFake (isr_cpu f);
     let f1 = f\<lparr>isr_cpu := c\<rparr>;
     if userSegment (cs f1) then (let f2 = checkSignals sigHandler f1 in Some (f2\<lparr>gsKernel := \<not> gsKernel f2\<rparr>))
     else Some f1 }"

datatype isr_action = Reboots string | Continues

definition exception_name :: "nat \<Rightarrow> string" where
  "exception_name vec =
     (if vec = 0x00 then ''DIVIDE ERROR'' else if vec = 0x01 then ''DEBUG'' else if vec = 0x02 then ''NMI''
      else if vec = 0x03 then ''BREAKPOINT'' else if vec = 0x04 then ''OVERFLOW''
      else if vec = 0x05 then ''BOUND RANGE EXCEEDED'' else if vec = 0x06 then ''INVALID OPCODE''
      else if vec = 0x07 then ''DEVICE NOT AVAILABLE'' else if vec = 0x08 then ''DOUBLE FAULT''
      else if vec = 0x09 then ''COPROCESSOR SEGMENT OVERRUN'' else if vec = 0x0a then ''INVALID TSS''
      else if vec = 0x0b then ''SEGMENT NOT PRESENT'' else if vec = 0x0c then ''STACK FAULT''
      else if vec = 0x0d then ''GENERAL PROTECTION FAULT'' else if vec = 0x0e then ''PAGE FAULT''
      else if vec = 0x10 then ''FPU ERROR'' else if vec = 0x11 then ''ALIGNMENT CHECK''
      else if vec = 0x12 then ''MACHINE CHECK'' else if vec = 0x13 then ''SIMD FP''
      else if vec = 0x14 then ''VIRTUALIZATION'' else ''UNDEFINED EXCEPTION'')"

definition exception_handler :: "nat \<Rightarrow> bool \<Rightarrow> isr_action" where
  "exception_handler vec fault_resolved =
     (if vec = 0x0e \<and> fault_resolved then Continues else Reboots (exception_name vec))"

definition interrupt_exception :: "nat \<Rightarrow> bool \<Rightarrow> vaddr \<Rightarrow> isr \<Rightarrow> (isr_action \<times> isr) option" where
  "interrupt_exception vec fault_resolved sigHandler f = do {
     f1 \<leftarrow> IsrEntry_new False f;
     (case exception_handler vec fault_resolved of
        Continues \<Rightarrow> do { f2 \<leftarrow> IsrEntry_delete sigHandler f1; Some (Continues, f2) }
      | a \<Rightarrow> Some (a, f1)) }"

datatype irq_work =
    Preempt | RunTipiHandler | RebootNoHandler | HaltForever | ClockTick | RtcInterrupt
  | AsyncSemV | CheckExpiry | RoundRobinPreempt | Print string

definition irq_handler :: "bool \<Rightarrow> bool \<Rightarrow> nat \<Rightarrow> irq_work list option" where
  "irq_handler tipiSet maskEmpty vec =
     (if vec = 0xe0 then Some [Preempt]
      else if vec = 0xed then Some [Preempt]
      else if vec = 0xee then Some [if tipiSet then RunTipiHandler else RebootNoHandler]
      else if vec = 0xef then Some [HaltForever]
      else if vec = 0xf0 then Some [ClockTick]
      else if vec = 0xf7 then Some [Print '' parallel'']
      else if vec = 0xf8 then
        Some ([RtcInterrupt] @ (if \<not> maskEmpty then [AsyncSemV] else []) @ [CheckExpiry, RoundRobinPreempt])
      else if vec = 0xf9 then Some [Print '' IRQ-F9'']
      else if vec = 0xfc then Some [Print '' mouse'']
      else if vec = 0xff then Some [Print '' IRQ-FF'']
      else None)"

definition sendIPI_target :: "mword list \<Rightarrow> nat \<Rightarrow> mword option" where
  "sendIPI_target apicIDs idx = (if idx < length apicIDs then Some (apicIDs ! idx) else None)"

definition rrPreemptIPI :: "mword list \<Rightarrow> nat \<Rightarrow> mword option" where
  "rrPreemptIPI apicIDs tick = sendIPI_target apicIDs (unat (apicIDs ! (tick mod length apicIDs)))"

section \<open>The descriptor table is complete\<close>

lemma gate_split:
  "ucast (ucast (address AND 0xFFFF) :: 16 word) OR
   push_bit 16 (ucast (ucast (drop_bit 16 (address AND 0xFFFF0000)) :: 16 word)) OR
   push_bit 32 (ucast (ucast (drop_bit 32 (address AND 0xFFFFFFFF00000000)) :: 32 word)) = (address :: 64 word)"
proof -
  have m: "(0xFFFF :: 64 word) = mask 16" "(0xFFFF0000 :: 64 word) = push_bit 16 (mask 16)"
    "(0xFFFFFFFF00000000 :: 64 word) = push_bit 32 (mask 32)"
    by (simp_all add: mask_eq_exp_minus_1 push_bit_eq_mult)
  show ?thesis
    unfolding m
  proof (rule bit_word_eqI)
    fix n assume "n < LENGTH(64)"
    then show "bit ((ucast (ucast (address AND mask 16) :: 16 word) :: 64 word) OR
        push_bit 16 (ucast (ucast (drop_bit 16 (address AND push_bit 16 (mask 16))) :: 16 word)) OR
        push_bit 32 (ucast (ucast (drop_bit 32 (address AND push_bit 32 (mask 32))) :: 32 word))) n = bit address n"
      by (cases "n < 32") (auto simp: bit_simps)
  qed
qed

definition gate_for :: "vaddr \<Rightarrow> 32 word \<Rightarrow> gate \<Rightarrow> bool" where
  "gate_for address ist g =
     (gate_target g = address \<and> SegmentSelector g = 8 \<and> IST g = ucast ist \<and> GateType g = 0x0E \<and> Present g = 1)"

lemma setupIDT_gate:
  assumes "v < maxIDT" "length t = maxIDT"
  shows "\<exists>t'. setupIDT v a ist t = Some t' \<and> length t' = maxIDT \<and> gate_for a ist (t' ! v) \<and>
    (\<forall>w. w \<noteq> v \<longrightarrow> t' ! w = t ! w)"
  using assms by (auto simp: setupIDT_def gate_for_def gate_target_def gate_split [simplified] kernCS_def)

lemma setup_gates_ok:
  assumes "list_all (\<lambda>(v, ist). v < maxIDT) calls" "distinct (map fst calls)" "length t = maxIDT"
  shows "\<exists>t'. setup_gates isr calls t = Some t' \<and> length t' = maxIDT \<and>
    (\<forall>(v, ist) \<in> set calls. gate_for (isr v) ist (t' ! v)) \<and> (\<forall>w. w \<notin> fst ` set calls \<longrightarrow> t' ! w = t ! w)"
  using assms
proof (induction calls arbitrary: t)
  case (Cons c calls)
  obtain v ist where c: "c = (v, ist)" by (cases c)
  obtain t1 where t1: "setupIDT v (isr v) ist t = Some t1" "length t1 = maxIDT" "gate_for (isr v) ist (t1 ! v)"
      "\<forall>w. w \<noteq> v \<longrightarrow> t1 ! w = t ! w"
    using setupIDT_gate [of v t "isr v" ist] Cons.prems c by auto
  obtain t2 where t2: "setup_gates isr calls t1 = Some t2" "length t2 = maxIDT"
      "\<forall>(v, ist) \<in> set calls. gate_for (isr v) ist (t2 ! v)" "\<forall>w. w \<notin> fst ` set calls \<longrightarrow> t2 ! w = t1 ! w"
    using Cons.IH [of t1] Cons.prems t1(2) by auto
  have "v \<notin> fst ` set calls" using Cons.prems(2) c by simp
  then have "t2 ! v = t1 ! v" using t2(4) by blast
  then show ?case using c t1 t2 by auto
qed simp

definition ist_of :: "nat \<Rightarrow> 32 word" where
  "ist_of v = (if v = 2 then 1 else if v = 8 then 2 else if v = 12 then 3 else if v = 14 then 4 else 0)"

lemma idt_calls_eq: "idt_calls_low @ idt_calls_high = map (\<lambda>v. (v, ist_of v)) [0..<256]"
  by code_simp

text \<open>
  C21: After \<open>setupIDTable\<close> each of the 256 vectors has a present interrupt gate in the
  kernel code segment through which the processor reaches exactly the wrapper of
  this vector, the three parts of the address recombined; the non-maskable
  interrupt, double fault, stack fault and page fault run on stacks of their own.
\<close>
theorem setupIDTable_complete:
  assumes "length (irqTable s) = 192"
  shows "\<exists>s'. setupIDTable False isr s = Some s' \<and> length (idt s') = 256 \<and> length (irqTable s') = 192 \<and>
    (\<forall>i<192. globalIrq (irqTable s' ! i) = of_nat i) \<and>
    (\<forall>v<256. gate_target (idt s' ! v) = isr v \<and> SegmentSelector (idt s' ! v) = 8 \<and> GateType (idt s' ! v) = 0x0E \<and>
      Present (idt s' ! v) = 1 \<and>
      IST (idt s' ! v) = (if v = 2 then 1 else if v = 8 then 2 else if v = 12 then 3 else if v = 14 then 4 else 0))"
proof -
  let ?cs = "map (\<lambda>v. (v, ist_of v)) [0..<256]"
  have "\<exists>t'. setup_gates isr ?cs (replicate maxIDT gate_zero) = Some t' \<and> length t' = maxIDT \<and>
    (\<forall>(v, ist) \<in> set ?cs. gate_for (isr v) ist (t' ! v)) \<and>
    (\<forall>w. w \<notin> fst ` set ?cs \<longrightarrow> t' ! w = replicate maxIDT gate_zero ! w)"
    by (rule setup_gates_ok) (simp_all add: list_all_iff maxIDT_def comp_def)
  then obtain t where t: "setup_gates isr ?cs (replicate maxIDT gate_zero) = Some t" "length t = maxIDT"
      "\<forall>(v, ist) \<in> set ?cs. gate_for (isr v) ist (t ! v)"
    by (elim exE conjE)
  have "gate_for (isr v) (ist_of v) (t ! v)" if "v < 256" for v
    using t(3) that by auto
  moreover have "ucast (ist_of v) = (if v = 2 then 1 else if v = 8 then 2 else if v = 12 then 3 else if v = 14 then 4 else (0 :: 3 word))" for v
    by (simp add: ist_of_def)
  ultimately show ?thesis
    using t(1,2) assms by (simp add: setupIDTable_def idt_calls_eq gate_for_def maxIDT_def MaxIrqCount_def irq_init_def)
qed

definition irq_zero :: irq_info where
  "irq_zero = \<lparr>irqApicAddr = 0, irqApicIrq = 0, globalIrq = 0, overrideFlags = 0, handlers = []\<rparr>"

definition ex_boot :: irqs where
  "ex_boot = \<lparr>irqTable = replicate 192 irq_zero, irqMask = [0, 0, 0],
     idt = [], ioapics = (\<lambda>_ _. 0), bspApicID = 0, handled = []\<rparr>"

theorem setupIDTable_complete_witness:
  "\<exists>s'. setupIDTable False (\<lambda>v. 0xFFFFFFFF80100000 + of_nat v * 16) ex_boot = Some s' \<and>
    gate_target (idt s' ! 14) = 0xFFFFFFFF801000E0 \<and> IST (idt s' ! 14) = 4 \<and> globalIrq (irqTable s' ! 9) = 9"
proof -
  obtain s' where s': "setupIDTable False (\<lambda>v. 0xFFFFFFFF80100000 + of_nat v * 16) ex_boot = Some s'"
      "\<forall>i<192. globalIrq (irqTable s' ! i) = of_nat i"
      "\<forall>v<256. gate_target (idt s' ! v) = 0xFFFFFFFF80100000 + of_nat v * 16 \<and>
        SegmentSelector (idt s' ! v) = 8 \<and> GateType (idt s' ! v) = 0x0E \<and> Present (idt s' ! v) = 1 \<and>
        IST (idt s' ! v) = (if v = 2 then 1 else if v = 8 then 2 else if v = 12 then 3 else if v = 14 then 4 else 0)"
    using setupIDTable_complete [of ex_boot "\<lambda>v. 0xFFFFFFFF80100000 + of_nat v * 16"]
    by (auto simp: ex_boot_def)
  show ?thesis
    using s'(1) s'(2) [rule_format, of 9] s'(3) [rule_format, of 14] by simp
qed

section \<open>Asynchronous interrupts are served\<close>

lemma sorted_list_pending:
  assumes "p \<in> pending_irqs m" "\<forall>i\<in>pending_irqs m. p \<le> i"
  shows "sorted_list_of_set (pending_irqs m) = p # sorted_list_of_set (pending_irqs m - {p})"
proof -
  have "Min (pending_irqs m) = p" using assms by (intro Min_eqI) auto
  then show ?thesis using assms(1) sorted_list_of_set_nonempty [of "pending_irqs m"] by auto
qed

lemma async_pass_spec:
  assumes "length (irqMask s) = 3" "length (irqTable s) = MaxIrqCount"
  shows "\<exists>s'. async_pass s = Some s' \<and> pending_irqs (irqMask s') = {} \<and> length (irqMask s') = 3 \<and>
    irqTable s' = irqTable s \<and>
    handled s' = handled s @ concat (map (\<lambda>i. handlers (irqTable s ! i)) (sorted_list_of_set (pending_irqs (irqMask s))))"
  using assms
proof (induction s rule: async_pass.induct)
  case (1 s)
  let ?m = "irqMask s" and ?i = "Bitmap_findset (irqMask s)"
  have inv: "length ?m = 3 \<and> ?m \<noteq> [] \<and> (3 :: nat) < 2 ^ 58" using 1(2) by auto
  show ?case
  proof (cases "Bitmap_empty ?m")
    case True
    then have "pending_irqs ?m = {}"
      using Bitmap_empty_iff [of ?m] inv by (auto simp: pending_irqs_def)
    then show ?thesis using True 1(2,3) findset_none [of ?m] by (subst async_pass.simps) (simp add: MaxIrqCount_def)
  next
    case False
    have hit: "?i < 64 * 3 \<and> Bitmap_test ?m ?i" by (rule bmap.find_hit [OF inv False])
    have least: "\<forall>i\<in>pending_irqs ?m. ?i \<le> i"
      using bmap.find_least [OF inv] 1(2) by (auto simp: pending_irqs_def)
    have p: "?i \<in> pending_irqs ?m" using hit 1(2) by (simp add: pending_irqs_def)
    let ?s = "run_handlers ?i s"
    have clr: "pending_irqs (irqMask ?s) = pending_irqs ?m - {?i}" "length (irqMask ?s) = 3" "irqTable ?s = irqTable s"
      using hit 1(2) by (simp_all add: run_handlers_def pending_clear length_Bitmap_ops)
    have step: "async_pass s = async_pass ?s"
      using False hit 1(2,3) by (subst async_pass.simps) (simp add: Let_def MaxIrqCount_def)
    have "\<exists>s'. async_pass ?s = Some s' \<and> pending_irqs (irqMask s') = {} \<and> length (irqMask s') = 3 \<and>
        irqTable s' = irqTable ?s \<and>
        handled s' = handled ?s @ concat (map (\<lambda>i. handlers (irqTable ?s ! i)) (sorted_list_of_set (pending_irqs (irqMask ?s))))"
      by (rule "1.IH") (use False hit 1(2,3) clr in \<open>simp_all add: MaxIrqCount_def\<close>)
    then show ?thesis
      using step clr sorted_list_pending [OF p least] by (simp add: run_handlers_def)
  qed
qed


definition ex_irqs :: irqs where
  "ex_irqs = \<lparr>irqTable = (map (\<lambda>i. irq_init i irq_zero) [0..<192])[1 := (irq_init 1 irq_zero)\<lparr>handlers := [(7, 8)]\<rparr>], irqMask = [2, 0, 0],
     idt = [], ioapics = (\<lambda>_ _. 0), bspApicID = 0, handled = []\<rparr>"


section \<open>Routing\<close>

text \<open>
  The entry that \<open>mapIRQ\<close> writes carries the vector, is not masked and asks for
  lowest priority delivery to the logical group 1; the entry of \<open>maskIRQ\<close> is masked.
\<close>

lemma bs_get_mask_other:
  assumes "Pos b + Width b \<le> Pos c \<or> Pos c + Width c \<le> Pos b"
  shows "bs_get b (bs_mask c) = (0 :: 'a::len word)"
  by (rule bit_word_eqI) (use assms in \<open>auto simp: bit_bs_get bit_bs_mask\<close>)

lemma bs_get_own:
  "bs_get io_Vector (bs_put io_Vector (ucast (vec :: 8 word))) = (ucast vec :: 64 word)"
  "bs_get io_DestinationSet (bs_put io_DestinationSet 1) = (1 :: 64 word)"
  "bs_get io_Polarity (bs_put io_Polarity (of_bool b)) = (of_bool b :: 64 word)"
proof -
  show "bs_get io_Vector (bs_put io_Vector (ucast (vec :: 8 word))) = (ucast vec :: 64 word)"
    by (rule bit_word_eqI) (auto simp: bit_bs_get bit_bs_put io_Vector_def bit_simps dest: bit_imp_le_length)
  show "bs_get io_DestinationSet (bs_put io_DestinationSet 1) = (1 :: 64 word)" by code_simp
  show "bs_get io_Polarity (bs_put io_Polarity (of_bool b)) = (of_bool b :: 64 word)"
    by (rule bit_word_eqI) (cases b; auto simp: bit_bs_get bit_bs_put io_Polarity_def bit_1_iff)
qed

lemmas io_fields = io_Vector_def io_Mask_def io_DestinationSet_def io_Polarity_def io_DeliveryMode_def
  io_DestinationMode_def io_TriggerModeLevel_def

lemma mapIRQ_fields:
  "bs_get io_Vector (mapIRQ_val vec low level) = ucast vec"
  "bs_get io_Mask (mapIRQ_val vec low level) = 0"
  "bs_get io_DestinationSet (mapIRQ_val vec low level) = 1"
  "bs_get io_Polarity (mapIRQ_val vec low level) = of_bool low"
  unfolding mapIRQ_val_def bs_get_or bs_get_own
  by (simp_all add: bs_get_other bs_get_mask_other io_fields)

definition redirect_entry :: "8 word \<Rightarrow> (8 word \<Rightarrow> 32 word) \<Rightarrow> 64 word" where
  "redirect_entry irq r = ucast (r (IOREDTBL + irq * 2)) OR push_bit 32 (ucast (r (IOREDTBL + irq * 2 + 1)))"

lemma redirect_read: "redirect_entry irq (redirect_write irq val r) = val"
proof -
  have m: "(0xFFFFFFFF :: 64 word) = mask 32" by (simp add: mask_eq_exp_minus_1)
  show ?thesis
    unfolding redirect_entry_def redirect_write_def m by (rule bit_word_eqI) (auto simp: bit_simps)
qed

lemma byte_vector:
  fixes x :: mword
  assumes "unat x < 256"
  shows "ucast (ucast x :: 8 word) = x"
proof (rule bit_word_eqI)
  fix n assume n: "n < LENGTH(64)"
  have "\<not> bit x n" if "8 \<le> n"
  proof
    assume "bit x n"
    then have "2 ^ n \<le> unat x" using unat_ge_bit [of x n] by simp
    moreover have "(2 :: nat) ^ 8 \<le> 2 ^ n" using that by (intro power_increasing) simp_all
    ultimately show False using assms by simp
  qed
  then show "bit (ucast (ucast x :: 8 word) :: mword) n = bit x n"
    using n by (cases "8 \<le> n") (auto simp: bit_simps)
qed

text \<open>
  C23: Registering a handler for an interrupt that has none routes the interrupt to
  vector \<open>irq + 0x20\<close>, unmasked; removing the only handler masks it again. The
  polarity of the route is taken from the number of the boot processor.
\<close>
theorem irq_routed_while_handled:
  assumes "length (irqTable s) = 192" "irq < 192" "handlers (irqTable s ! irq) = []"
    and "globalIrq (irqTable s ! irq) = of_nat irq"
  defines "e \<equiv> irqTable s ! irq"
  shows "\<exists>s1 s2. registerIrqAsync irq h ctx s = Some s1 \<and> handlers (irqTable s1 ! irq) = [(h, ctx)] \<and>
    deregisterIrqAsync irq h s1 = Some s2 \<and> handlers (irqTable s2 ! irq) = [] \<and>
    (let v = redirect_entry (irqApicIrq e) (ioapics s1 (irqApicAddr e)) in
      bs_get io_Vector v = of_nat irq + 0x20 \<and> bs_get io_Mask v = 0 \<and> bs_get io_Polarity v = of_bool (bspApicID s \<noteq> 0)) \<and>
    bs_get io_Mask (redirect_entry (irqApicIrq e) (ioapics s2 (irqApicAddr e))) = 1"
proof -
  have ui: "unat (of_nat irq :: 8 word) = irq" using assms(2) by (simp add: unat_of_nat take_bit_eq_mod)
  have vec: "(of_nat irq + 0x20 :: mword) \<noteq> 0" "ucast (ucast (of_nat irq + 0x20 :: mword) :: 8 word) = (of_nat irq + 0x20 :: mword)"
  proof -
    have "unat (of_nat (irq + 0x20) :: mword) = irq + 0x20"
      using assms(2) by (simp add: unat_of_nat take_bit_eq_mod del: of_nat_add)
    then have u: "unat (of_nat irq + 0x20 :: mword) = irq + 0x20" by simp
    then show "(of_nat irq + 0x20 :: mword) \<noteq> 0" by auto
    show "ucast (ucast (of_nat irq + 0x20 :: mword) :: 8 word) = (of_nat irq + 0x20 :: mword)"
      by (rule byte_vector) (use u assms(2) in simp)
  qed
  have mask1: "bs_get io_Mask (bs_mask io_Mask) = (1 :: 64 word)" by code_simp
  show ?thesis
    using assms ui vec
    by (simp add: registerIrqAsync_def deregisterIrqAsync_def mapIrq_def set_handlers_def Let_def e_def
        mapIRQ_def maskIRQ_def redirect_read mapIRQ_fields mask1)
qed

theorem irq_routed_while_handled_witness:
  "\<exists>s1 s2. registerIrqAsync 4 7 8 ex_irqs = Some s1 \<and> handlers (irqTable s1 ! 4) = [(7, 8)] \<and>
    deregisterIrqAsync 4 7 s1 = Some s2 \<and> handlers (irqTable s2 ! 4) = []"
proof -
  have "length (irqTable ex_irqs) = 192" "handlers (irqTable ex_irqs ! 4) = []" "globalIrq (irqTable ex_irqs ! 4) = of_nat 4"
    by (simp_all add: ex_irqs_def irq_init_def irq_zero_def)
  from irq_routed_while_handled [OF this(1) _ this(2,3), of 7 8] show ?thesis by auto
qed

section \<open>Service routines are balanced\<close>

text \<open>
  An exception that is resolved returns to the interrupted code with the processor
  lock count, the \<open>GS\<close> base and the code segment as they were. If user code was
  interrupted and the process has a signal handler, execution continues there with
  the interrupted address as return address on the user stack.
\<close>
theorem page_fault_returns:
  assumes "\<not> intr (isr_cpu f)"
  shows "\<exists>f'. interrupt_exception 0x0e True sig f = Some (Continues, f') \<and>
    isr_cpu f' = isr_cpu f \<and> gsKernel f' = gsKernel f \<and> cs f' = cs f \<and> eois f' = eois f \<and>
    (if userSegment (cs f) \<and> sig \<noteq> 0
     then rip f' = sig \<and> rsp f' = rsp f - 16 \<and> ustack f' (rsp f - 8) = rip f
     else rip f' = rip f \<and> rsp f' = rsp f \<and> ustack f' = ustack f)"
proof -
  have "isr_cpu f\<lparr>lockCount := lockCount (isr_cpu f)\<rparr> = isr_cpu f" by simp
  then show ?thesis
    using assms
    by (auto simp: interrupt_exception_def exception_handler_def IsrEntry_new_def IsrEntry_delete_def Let_def
        lp_lockFake_def lp_unlockFake_def checkSignals_def)
qed

theorem page_fault_returns_witness:
  "\<exists>f'. interrupt_exception 0x0e True 0x400000 \<lparr>rip = 0x1234, cs = 0x23, rsp = 0x8000, gsKernel = False,
      isr_cpu = \<lparr>lockCount = 0, intr = False\<rparr>, eois = 0, ustack = (\<lambda>_. 0)\<rparr> = Some (Continues, f') \<and>
    rip f' = 0x400000 \<and> ustack f' 0x7ff8 = 0x1234"
  using page_fault_returns [where sig = "0x400000" and f = "\<lparr>rip = 0x1234, cs = 0x23, rsp = 0x8000, gsKernel = False,
      isr_cpu = \<lparr>lockCount = 0, intr = False\<rparr>, eois = 0, ustack = (\<lambda>_. 0)\<rparr>"]
  by (auto simp: userSegment_def kernCS_def)

text \<open>
  \<open>rrPreemptIPI\<close> passes an interrupt controller identifier where \<open>sendIPI\<close> expects the
  index of a processor: with identifiers that are not the indices the interrupt
  reaches another processor, or the access is outside the processor table.
\<close>
theorem rrPreemptIPI_wrong_target:
  "rrPreemptIPI [0, 2, 4, 6] 1 = Some 4 \<and> sendIPI_target [0, 2, 4, 6] 1 = Some 2 \<and> rrPreemptIPI [0, 2, 4, 6] 2 = None"
  by code_simp

end
