(* ===== verification/Processes.thy ===== *)
theory Processes
  imports ManagedArrays MemoryLayout
begin

text \<open>
  User processes (\<open>src/kernel/Process.cc\<close>, \<open>src/kernel/Process.h\<close>,
  \<open>src/runtime/JoinableThread.h\<close>) and files (\<open>src/world/Access.cc\<close>).

  \<^item> \<open>exec\<close> computes from the program headers of an ELF file which pages of the file are
    mapped, which are allocated and what is cleared. The ELF reader is third party
    code: its result, the list of segments and the entry point, is a parameter.
  \<^item> Threads end with a value that another thread collects: whichever of the two
    comes first waits for the other on the condition of the thread. A pointer to a
    result variable is either to the variable of the waiting joiner or to that of
    the thread that ended.
    The value of an operation says what becomes of the caller: whether it blocks, and
    whether \<open>threadLock\<close> was released or is still held. The call of \<open>terminate\<close> that ends
    \<open>exitThread\<close> once \<open>post\<close> returns is that of the scheduler.
  \<^item> File access is by offset; the arithmetic is that of 64-bit words. \<open>lseek\<close> returns the
    error as \<open>Inl\<close>, together with the offset it leaves.
\<close>

section \<open>Loading a program\<close>

record ramfile =
  rf_vma :: vaddr
  rf_pma :: paddr
  rf_size :: mword

record segment =
  p_load :: bool
  p_offset :: mword
  p_filesz :: mword
  p_memsz :: mword
  p_vaddr :: vaddr
  p_writable :: bool
  p_executable :: bool

datatype page_kind = Data | Code | RoData

datatype load_call =
    MapDirect paddr vaddr mword page_kind
  | AllocDirect vaddr mword page_kind
  | Clear vaddr mword
  | InitUser vaddr
  | StartThread vaddr

definition seg_kind :: "segment \<Rightarrow> page_kind" where
  "seg_kind p = (if p_writable p then Data else if p_executable p then Code else RoData)"

definition load_segment :: "ramfile \<Rightarrow> segment \<Rightarrow> vaddr \<times> load_call list \<Rightarrow> (vaddr \<times> load_call list) option" where
  "load_segment rf p = (\<lambda>(currBreak, calls).
     if \<not> p_load p then Some (currBreak, calls)
     else do {
       kassert (p_offset p + p_filesz p \<le> rf_size rf);
       kassert (p_memsz p \<ge> p_filesz p);
       let pma = rf_pma rf + p_offset p;
       let apma = align_down pma (pagesize 1);
       let vma = p_vaddr p;
       let avma = align_down vma (pagesize 1);
       kassert (vma - avma = pma - apma);
       let fend = vma + p_filesz p;
       let afend = align_up fend (pagesize 1);
       let mend = vma + p_memsz p;
       let amend = align_up mend (pagesize 1);
       let c1 = [MapDirect apma avma (afend - avma) (seg_kind p)];
       let c2 = (if mend > fend then
                   (if amend > afend then [AllocDirect afend (amend - afend) Data] else []) @ [Clear fend (mend - fend)]
                 else []);
       Some (if mend > currBreak then mend else currBreak, calls @ c1 @ c2) })"

fun load_segments :: "ramfile \<Rightarrow> segment list \<Rightarrow> vaddr \<times> load_call list \<Rightarrow> (vaddr \<times> load_call list) option" where
  "load_segments rf [] s = Some s"
| "load_segments rf (p # ps) s = do { s' \<leftarrow> load_segment rf p s; load_segments rf ps s' }"

definition Process_exec :: "(string \<rightharpoonup> ramfile) \<Rightarrow> (string \<Rightarrow> (segment list \<times> vaddr) option) \<Rightarrow> bool \<Rightarrow> string \<Rightarrow> (vaddr \<times> load_call list) option" where
  "Process_exec kernelFS elf_load threadStore_empty fileName = do {
     kassert threadStore_empty;
     rf \<leftarrow> kernelFS fileName;
     (segs, entry) \<leftarrow> elf_load fileName;
     (currBreak, calls) \<leftarrow> load_segments rf segs (0, []);
     Some (currBreak, calls @ [InitUser currBreak, StartThread entry]) }"

fun call_maps :: "load_call \<Rightarrow> vaddr \<Rightarrow> paddr option" where
  "call_maps (MapDirect pa va len k) a = (if a - va < len then Some (pa + (a - va)) else None)"
| "call_maps _ a = None"

fun call_provides :: "load_call \<Rightarrow> vaddr \<Rightarrow> bool" where
  "call_provides (MapDirect pa va len k) a = (a - va < len)"
| "call_provides (AllocDirect va len k) a = (a - va < len)"
| "call_provides _ a = False"

fun call_clears :: "load_call \<Rightarrow> vaddr \<Rightarrow> bool" where
  "call_clears (Clear va len) a = (a - va < len)"
| "call_clears _ a = False"

lemma sub_less: "(l :: mword) \<le> a \<Longrightarrow> a < h \<Longrightarrow> a - l < h - l"
  by (simp add: word_less_nat_alt word_le_nat_alt unat_sub)

lemma page1: "pagesize 1 = 2 ^ 12"
  by (simp add: pagesize_pow pagesizebits_simps)

lemma load_segment_provides:
  assumes "load_segment rf p (b, cs) = Some (b', cs')" "p_load p"
    and "unat (p_vaddr p) + unat (p_memsz p) + 4096 \<le> 2 ^ 64"
  shows "\<exists>new. cs' = cs @ new \<and> p_vaddr p + p_memsz p \<le> b' \<and> b \<le> b' \<and>
    (\<forall>a. p_vaddr p \<le> a \<and> a < p_vaddr p + p_filesz p \<longrightarrow>
      (\<exists>c \<in> set new. call_maps c a = Some (rf_pma rf + p_offset p + (a - p_vaddr p)))) \<and>
    (\<forall>a. p_vaddr p + p_filesz p \<le> a \<and> a < p_vaddr p + p_memsz p \<longrightarrow>
      (\<exists>c \<in> set new. call_provides c a) \<and> (\<exists>c \<in> set new. call_clears c a))"
proof -
  let ?v = "p_vaddr p" and ?pa = "rf_pma rf + p_offset p"
  let ?av = "align_down ?v (2 ^ 12)" and ?ap = "align_down ?pa (2 ^ 12)"
  let ?f = "?v + p_filesz p" and ?m = "?v + p_memsz p"
  let ?af = "align_up ?f (2 ^ 12)" and ?am = "align_up ?m (2 ^ 12)"
  let ?map = "MapDirect ?ap ?av (?af - ?av) (seg_kind p)"
  let ?rest = "if ?m > ?f then (if ?am > ?af then [AllocDirect ?af (?am - ?af) Data] else []) @ [Clear ?f (?m - ?f)] else []"
  have res: "cs' = cs @ ?map # ?rest" "b' = (if ?m > b then ?m else b)" "p_filesz p \<le> p_memsz p" "?v - ?av = ?pa - ?ap"
    using assms(1,2) by (auto simp: load_segment_def Let_def page1 simp del: One_nat_def)
  have fz: "unat (p_filesz p) \<le> unat (p_memsz p)" using res(3) by (simp add: word_le_nat_alt)
  have uf: "unat ?f = unat ?v + unat (p_filesz p)" "unat ?m = unat ?v + unat (p_memsz p)"
    using fz assms(3) by (simp_all add: unat_word_ariths)
  have le: "?av \<le> ?v" by (rule align_down_le)
  have le': "?v \<le> ?f" "?f \<le> ?m" using fz by (simp_all add: word_le_nat_alt uf)
  have up: "?f \<le> ?af" "?m \<le> ?am" using uf fz assms(3) by (intro align_up_ge; simp)+
  have fpart: "\<exists>c \<in> set (?map # ?rest). call_maps c a = Some (?pa + (a - ?v))" if "?v \<le> a" "a < ?f" for a
  proof -
    have "a - ?av < ?af - ?av" by (rule sub_less) (use that le le' up in \<open>auto intro: order_trans less_le_trans\<close>)
    moreover have "?ap + (a - ?av) = ?pa + (a - ?v)" using res(4) by (simp add: algebra_simps)
    ultimately show ?thesis by (intro bexI [of _ ?map]) simp_all
  qed
  have bss: "(\<exists>c \<in> set (?map # ?rest). call_provides c a) \<and> (\<exists>c \<in> set (?map # ?rest). call_clears c a)"
    if "?f \<le> a" "a < ?m" for a
  proof
    have gt: "?f < ?m" using that by simp
    show "\<exists>c \<in> set (?map # ?rest). call_provides c a"
    proof (cases "a < ?af")
      case True
      have "a - ?av < ?af - ?av" by (rule sub_less) (use True that le le' in \<open>auto intro: order_trans\<close>)
      then show ?thesis by (intro bexI [of _ ?map]) simp_all
    next
      case False
      then have "a - ?af < ?am - ?af" by (intro sub_less) (use that up in \<open>auto intro: less_le_trans\<close>)
      moreover have "?af < ?am" using False that(2) up(2) by (auto intro: le_less_trans less_le_trans)
      ultimately show ?thesis using gt by (intro bexI [of _ "AllocDirect ?af (?am - ?af) Data"]) simp_all
    qed
    have "a - ?f < ?m - ?f" using that by (rule sub_less)
    then show "\<exists>c \<in> set (?map # ?rest). call_clears c a" using gt by (intro bexI [of _ "Clear ?f (?m - ?f)"]) simp_all
  qed
  show ?thesis
    by (rule exI [of _ "?map # ?rest"]) (use res(1,2) fpart bss in auto)
qed

lemma load_segments_mono:
  assumes "load_segments rf ps (b, cs) = Some (b', cs')"
  shows "b \<le> b' \<and> (\<exists>new. cs' = cs @ new)"
  using assms
proof (induction ps arbitrary: b cs)
  case (Cons p ps)
  then obtain b1 cs1 where l: "load_segment rf p (b, cs) = Some (b1, cs1)" "load_segments rf ps (b1, cs1) = Some (b', cs')"
    by (auto simp: bind_eq_Some_conv)
  then have "b \<le> b1 \<and> (\<exists>new. cs1 = cs @ new)"
    by (auto simp: load_segment_def Let_def bind_eq_Some_conv split: if_splits)
  then show ?case using Cons.IH [OF l(2)] by auto
qed simp

lemma load_segments_provides:
  assumes "load_segments rf ps (b, cs) = Some (b', cs')" "p \<in> set ps" "p_load p"
    and "unat (p_vaddr p) + unat (p_memsz p) + 4096 \<le> 2 ^ 64"
  shows "p_vaddr p + p_memsz p \<le> b' \<and>
    (\<forall>a. p_vaddr p \<le> a \<and> a < p_vaddr p + p_filesz p \<longrightarrow>
      (\<exists>c \<in> set cs'. call_maps c a = Some (rf_pma rf + p_offset p + (a - p_vaddr p)))) \<and>
    (\<forall>a. p_vaddr p + p_filesz p \<le> a \<and> a < p_vaddr p + p_memsz p \<longrightarrow>
      (\<exists>c \<in> set cs'. call_provides c a) \<and> (\<exists>c \<in> set cs'. call_clears c a))"
  using assms(1,2)
proof (induction ps arbitrary: b cs)
  case (Cons q ps)
  then obtain b1 cs1 where l: "load_segment rf q (b, cs) = Some (b1, cs1)" "load_segments rf ps (b1, cs1) = Some (b', cs')"
    by (auto simp: bind_eq_Some_conv)
  show ?case
  proof (cases "p = q")
    case True
    obtain more where m: "b1 \<le> b'" "cs' = cs1 @ more" using load_segments_mono [OF l(2)] by auto
    have "p_vaddr p + p_memsz p \<le> b1" and "set cs1 \<subseteq> set cs'"
      using load_segment_provides [OF l(1) [folded True] assms(3,4)] m(2) by auto
    then show ?thesis
      using load_segment_provides [OF l(1) [folded True] assms(3,4)] m(1)
      by (elim exE conjE, intro conjI) (force, fastforce, fastforce)
  next
    case False
    then show ?thesis using Cons.IH [OF l(2)] Cons.prems(2) by simp
  qed
qed simp

text \<open>
  C24: When \<open>exec\<close> returns, then for every loadable segment that does not reach the end of
  the address space each byte of its file part was mapped to the physical byte of the
  file at the same distance from the segment's start, each byte of the rest of the
  segment is provided by a mapped or allocated page and was cleared, and the program
  break, from which the user part of the address space is set up before the first
  thread is started at the entry point, lies behind the segment.
\<close>
theorem exec_provides_segments:
  assumes "Process_exec kernelFS elf_load e name = Some (brk, calls)" "kernelFS name = Some rf"
    and "elf_load name = Some (segs, entry)" "p \<in> set segs" "p_load p"
    and "unat (p_vaddr p) + unat (p_memsz p) + 4096 \<le> 2 ^ 64"
  shows "p_vaddr p + p_memsz p \<le> brk \<and> (\<exists>cs. calls = cs @ [InitUser brk, StartThread entry]) \<and>
    (\<forall>a. p_vaddr p \<le> a \<and> a < p_vaddr p + p_filesz p \<longrightarrow>
      (\<exists>c \<in> set calls. call_maps c a = Some (rf_pma rf + p_offset p + (a - p_vaddr p)))) \<and>
    (\<forall>a. p_vaddr p + p_filesz p \<le> a \<and> a < p_vaddr p + p_memsz p \<longrightarrow>
      (\<exists>c \<in> set calls. call_provides c a) \<and> (\<exists>c \<in> set calls. call_clears c a))"
proof -
  obtain cs where cs: "load_segments rf segs (0, []) = Some (brk, cs)" "calls = cs @ [InitUser brk, StartThread entry]"
    using assms(1-3) by (auto simp: Process_exec_def bind_eq_Some_conv)
  then show ?thesis using load_segments_provides [OF cs(1) assms(4-6)] by auto
qed

definition ex_seg :: segment where
  "ex_seg = \<lparr>p_load = True, p_offset = 0x1010, p_filesz = 0x20, p_memsz = 0x3000, p_vaddr = 0x400010,
     p_writable = True, p_executable = False\<rparr>"

definition ex_rf :: ramfile where
  "ex_rf = \<lparr>rf_vma = 0, rf_pma = 0x200000, rf_size = 0x2000\<rparr>"

theorem exec_provides_segments_witness:
  "\<exists>calls. Process_exec [''init'' \<mapsto> ex_rf] (\<lambda>_. Some ([ex_seg], 0x400010)) True ''init'' = Some (0x403010, calls) \<and>
    (\<exists>c \<in> set calls. call_maps c 0x400020 = Some 0x201020) \<and> (\<exists>c \<in> set calls. call_clears c 0x401000)"
proof -
  let ?e = "Process_exec [''init'' \<mapsto> ex_rf] (\<lambda>_. Some ([ex_seg], 0x400010)) True ''init''"
  obtain calls where l: "?e = Some (0x403010, calls)"
    by (simp add: Process_exec_def load_segment_def ex_seg_def ex_rf_def Let_def page1 align_down_def align_up_def del: One_nat_def)
  have v: "p_load ex_seg" "p_vaddr ex_seg = 0x400010" "p_filesz ex_seg = 0x20" "p_memsz ex_seg = 0x3000"
      "p_offset ex_seg = 0x1010" "rf_pma ex_rf = 0x200000"
    by (simp_all add: ex_seg_def ex_rf_def)
  have x: "[''init'' \<mapsto> ex_rf] ''init'' = Some ex_rf" "ex_seg \<in> set [ex_seg]" by simp_all
  note n = exec_provides_segments [OF l x(1) refl x(2) v(1), unfolded v]
  have "\<exists>c \<in> set calls. call_maps c 0x400020 = Some 0x201020"
    using n [THEN conjunct2, THEN conjunct2, THEN conjunct1, rule_format, where a = "0x400020"] by simp
  moreover have "\<exists>c \<in> set calls. call_clears c 0x401000"
    using n [THEN conjunct2, THEN conjunct2, THEN conjunct2, rule_format, where a = "0x401000"] by simp
  ultimately show ?thesis using l by auto
qed

section \<open>Ending and joining threads\<close>

datatype jt_state = Regular | Detached | Joining

datatype 'v res_ptr = NoResult | PosterResult 'v | JoinerResult nat

record 'v uthread =
  jstate :: jt_state
  jwait :: "nat list"
  jresult :: "'v res_ptr"

datatype 'v jt_effect =
    StillLocked
  | Released
  | Blocks
  | Delivers nat 'v
  | Obtains 'v nat

definition JoinableThread_new :: "'v uthread" where
  "JoinableThread_new = \<lparr>jstate = Regular, jwait = [], jresult = NoResult\<rparr>"

definition jt_post :: "nat \<Rightarrow> 'v \<Rightarrow> 'v uthread \<Rightarrow> ('v jt_effect \<times> 'v uthread) option" where
  "jt_post me res u =
     (if jstate u = Detached then Some (StillLocked, u)
      else case jwait u of
        [] \<Rightarrow> Some (Blocks, u\<lparr>jresult := PosterResult res, jwait := [me]\<rparr>)
      | w # ws \<Rightarrow>
          (case jresult u of
             JoinerResult j \<Rightarrow> Some (Delivers j res, u\<lparr>jwait := ws\<rparr>)
           | _ \<Rightarrow> None))"

definition jt_join :: "nat \<Rightarrow> 'v uthread \<Rightarrow> (bool \<times> 'v jt_effect \<times> 'v uthread) option" where
  "jt_join me u =
     (if jstate u \<noteq> Regular then Some (False, StillLocked, u)
      else case jwait u of
        [] \<Rightarrow> Some (True, Blocks, u\<lparr>jstate := Joining, jresult := JoinerResult me, jwait := [me]\<rparr>)
      | w # ws \<Rightarrow>
          (case jresult u of
             PosterResult v \<Rightarrow> Some (True, Obtains v w, u\<lparr>jstate := Joining, jwait := ws\<rparr>)
           | _ \<Rightarrow> None))"

record 'v proc =
  threadStore :: "nat marray"
  uthreads :: "nat \<Rightarrow> 'v uthread"
  uindex :: "nat \<Rightarrow> nat"
  started :: "nat list"
  stacksReleased :: "nat list"

datatype join_code = ESRCH | EINVAL | JoinWaits | Joined

definition createThread :: "(nat \<Rightarrow> bool) \<Rightarrow> nat \<Rightarrow> 'v proc \<Rightarrow> (nat \<times> 'v proc) option" where
  "createThread alloc_ok ut p = do {
     (m, idx) \<leftarrow> MA_put alloc_ok (threadStore p) ut;
     Some (idx, p\<lparr>threadStore := m, uthreads := (uthreads p)(ut := JoinableThread_new),
       uindex := (uindex p)(ut := idx), started := started p @ [ut]\<rparr>) }"

definition exitThread :: "nat \<Rightarrow> 'v \<Rightarrow> 'v proc \<Rightarrow> ('v jt_effect \<times> 'v proc) option" where
  "exitThread ut res p =
     (let p1 = p\<lparr>stacksReleased := stacksReleased p @ [ut]\<rparr> in
      if MA_size (threadStore p1) > 1 then do {
        (e, u) \<leftarrow> jt_post ut res (uthreads p1 ut);
        Some (e, p1\<lparr>uthreads := (uthreads p1)(ut := u)\<rparr>) }
      else Some (Released, p1))"

definition joinThread :: "nat \<Rightarrow> nat \<Rightarrow> 'v proc \<Rightarrow> (join_code \<times> 'v jt_effect \<times> 'v proc) option" where
  "joinThread me idx p =
     (if \<not> MA_valid (threadStore p) idx then Some (ESRCH, Released, p)
      else do {
        ut \<leftarrow> MA_get (threadStore p) idx;
        (ok, e, u) \<leftarrow> jt_join me (uthreads p ut);
        let p1 = p\<lparr>uthreads := (uthreads p)(ut := u)\<rparr>;
        Some (if \<not> ok then (EINVAL, Released, p1) else (if e = Blocks then JoinWaits else Joined, e, p1)) })"

definition destroyThread :: "nat \<Rightarrow> 'v proc \<Rightarrow> (bool \<times> 'v proc) option" where
  "destroyThread ut p = do {
     m \<leftarrow> MA_remove (threadStore p) (uindex p ut);
     Some (MA_empty m, p\<lparr>threadStore := m\<rparr>) }"

text \<open>
  C25: Joining a thread hands its exit value to the joiner in either order: if the
  thread ends first it waits, and the join returns its value and wakes it; if the
  join comes first the joiner waits, and the end of the thread delivers the value to
  the joiner. A second join of the same thread is refused.
\<close>
theorem join_obtains_exit_value:
  assumes "MA_valid (threadStore p) idx" "MA_get (threadStore p) idx = Some t" "MA_size (threadStore p) > 1"
    and "uthreads p t = JoinableThread_new"
  shows "(\<exists>p1 p2 p3. exitThread t v p = Some (Blocks, p1) \<and> joinThread j idx p1 = Some (Joined, Obtains v t, p2) \<and>
      joinThread k idx p2 = Some (EINVAL, Released, p3)) \<and>
    (\<exists>p1 p2 p3. joinThread j idx p = Some (JoinWaits, Blocks, p1) \<and> joinThread k idx p1 = Some (EINVAL, Released, p2) \<and>
      exitThread t v p1 = Some (Delivers j v, p3))"
  using assms by (simp add: exitThread_def joinThread_def jt_post_def jt_join_def JoinableThread_new_def Let_def)

definition ex_store :: "nat marray" where
  "ex_store = \<lparr>data = [Elem 10, Elem 11], freestack = None, index = 2, capacity = 2, freecount = 0, checkbits = [True, True]\<rparr>"

theorem join_obtains_exit_value_witness:
  "\<exists>p1 p2. exitThread 11 (99 :: nat) \<lparr>threadStore = ex_store, uthreads = (\<lambda>_. JoinableThread_new), uindex = (\<lambda>t. t - 10), started = [10, 11], stacksReleased = []\<rparr> = Some (Blocks, p1) \<and>
    joinThread 10 1 p1 = Some (Joined, Obtains 99 11, p2)"
  using join_obtains_exit_value [of "\<lparr>threadStore = ex_store, uthreads = (\<lambda>_. JoinableThread_new), uindex = (\<lambda>t. t - 10), started = [10, 11], stacksReleased = []\<rparr>" 1 11 "99 :: nat" 10 10]
  by (auto simp: ex_store_def MA_valid_def MA_get_def MA_size_def read_elem_def)

section \<open>Files\<close>

definition file_pread :: "mword \<Rightarrow> mword \<Rightarrow> mword \<Rightarrow> mword" where
  "file_pread sz nbyte off = (if off + nbyte > sz then sz - off else nbyte)"

definition file_bytes :: "'b list \<Rightarrow> mword \<Rightarrow> mword \<Rightarrow> 'b list option" where
  "file_bytes content off n =
     (if unat off + unat n \<le> length content then Some (take (unat n) (drop (unat off) content)) else None)"

definition file_read :: "'b list \<Rightarrow> mword \<Rightarrow> mword \<Rightarrow> (mword \<times> 'b list \<times> mword) option" where
  "file_read content nbyte off = do {
     let len = file_pread (of_nat (length content)) nbyte off;
     bytes \<leftarrow> file_bytes content off len;
     Some (len, bytes, if sint len \<ge> 0 then off + len else off) }"

definition SEEK_SET :: int where "SEEK_SET = 0"
definition SEEK_CUR :: int where "SEEK_CUR = 1"
definition SEEK_END :: int where "SEEK_END = 2"

definition file_lseek :: "mword \<Rightarrow> mword \<Rightarrow> mword \<Rightarrow> int \<Rightarrow> (unit + mword) \<times> mword" where
  "file_lseek sz off o' whence =
     (case (if whence = SEEK_SET then Some o' else if whence = SEEK_CUR then Some (off + o')
            else if whence = SEEK_END then Some (sz + o') else None) of
        None \<Rightarrow> (Inl (), off)
      | Some new_o \<Rightarrow> if sint new_o < 0 then (Inl (), off) else (Inr new_o, new_o))"

fun read_all :: "'b list \<Rightarrow> mword list \<Rightarrow> mword \<Rightarrow> ('b list \<times> mword) option" where
  "read_all content [] off = Some ([], off)"
| "read_all content (n # ns) off = do {
     (len, bytes, off') \<leftarrow> file_read content n off;
     (rest, off'') \<leftarrow> read_all content ns off';
     Some (bytes @ rest, off'') }"

lemma file_read_ok:
  assumes "length content < 2 ^ 62" "unat off \<le> length content" "unat n < 2 ^ 62"
  shows "file_read content n off =
    Some (of_nat (min (unat n) (length content - unat off)), take (unat n) (drop (unat off) content),
      of_nat (min (unat off + unat n) (length content)))"
proof -
  let ?L = "length content"
  have L: "unat (of_nat ?L :: mword) = ?L" using assms(1) by (simp add: unat_of_nat take_bit_eq_mod)
  have s: "unat (off + n) = unat off + unat n" using assms by (simp add: unat_word_ariths)
  have len: "file_pread (of_nat ?L) n off = of_nat (min (unat n) (?L - unat off))"
  proof (cases "unat off + unat n > ?L")
    case True
    then have "of_nat ?L < off + n" by (simp add: word_less_nat_alt L s)
    moreover have "of_nat ?L - off = (of_nat (?L - unat off) :: mword)"
      using assms(2) by (simp add: of_nat_diff)
    moreover have "min (unat n) (?L - unat off) = ?L - unat off" using True assms(2) by simp
    ultimately show ?thesis by (simp add: file_pread_def)
  next
    case False
    then have "\<not> of_nat ?L < off + n" by (simp add: word_less_nat_alt L s)
    moreover have "min (unat n) (?L - unat off) = unat n" using False by simp
    ultimately show ?thesis by (simp add: file_pread_def)
  qed
  let ?k = "min (unat n) (?L - unat off)"
  have k: "unat (of_nat ?k :: mword) = ?k" using assms(1) by (simp add: unat_of_nat take_bit_eq_mod min_def)
  have nn: "0 \<le> sint (of_nat ?k :: mword)"
  proof -
    have "?k < 4611686018427387904" using assms(1) by simp
    then have "int ?k < 4611686018427387904" by linarith
    then have "signed_take_bit 63 (int ?k) = int ?k" by (intro signed_take_bit_int_eq_self) simp_all
    then show ?thesis by (simp add: signed_of_nat)
  qed
  have "unat off + ?k = min (unat off + unat n) ?L" using assms(2) by (simp add: min_def; linarith)
  then have "(of_nat (unat off + ?k) :: mword) = of_nat (min (unat off + unat n) ?L)" by simp
  then have off: "off + of_nat ?k = of_nat (min (unat off + unat n) ?L)" by simp
  have t: "take ?k (drop (unat off) content) = take (unat n) (drop (unat off) content)"
    by (simp add: min_def)
  have b: "file_bytes content off (of_nat ?k) = Some (take (unat n) (drop (unat off) content))"
    unfolding file_bytes_def k t using assms(2) by simp
  show ?thesis unfolding file_read_def len Let_def b using nn off by simp
qed

text \<open>
  C26: Reading a file piece by piece from its start returns its bytes in order: the
  pieces together are the prefix of the file of the total length asked for, or the
  whole file, and the offset ends behind them.
\<close>
theorem file_reads_prefix:
  assumes "length content < 2 ^ 62" "unat off \<le> length content" "list_all (\<lambda>n. unat n < 2 ^ 62) ns"
  shows "\<exists>off'. read_all content ns off = Some (take (sum_list (map unat ns)) (drop (unat off) content), off') \<and>
    unat off' = min (unat off + sum_list (map unat ns)) (length content)"
  using assms(2,3)
proof (induction ns arbitrary: off)
  case Nil
  then show ?case by simp
next
  case (Cons n ns)
  let ?o = "of_nat (min (unat off + unat n) (length content)) :: mword"
  have "min (unat off + unat n) (length content) < 2 ^ 64" using assms(1) by simp
  then have o: "unat ?o = min (unat off + unat n) (length content)" by (simp add: unat_of_nat take_bit_eq_mod)
  have r: "file_read content n off = Some (of_nat (min (unat n) (length content - unat off)), take (unat n) (drop (unat off) content), ?o)"
    by (rule file_read_ok) (use assms(1) Cons.prems in simp_all)
  obtain off' where off': "read_all content ns ?o = Some (take (sum_list (map unat ns)) (drop (unat ?o) content), off')"
      "unat off' = min (unat ?o + sum_list (map unat ns)) (length content)"
    using Cons.IH [of ?o] Cons.prems o by auto
  have d: "drop (unat ?o) content = drop (unat n) (drop (unat off) content)"
    unfolding o by (simp add: min_def add.commute)
  have "read_all content (n # ns) off =
      Some (take (unat n) (drop (unat off) content) @ take (sum_list (map unat ns)) (drop (unat ?o) content), off')"
    using r off'(1) by simp
  moreover have "take (unat n) (drop (unat off) content) @ take (sum_list (map unat ns)) (drop (unat ?o) content) =
      take (sum_list (map unat (n # ns))) (drop (unat off) content)"
    unfolding d by (simp only: take_add list.map sum_list.Cons)
  moreover have "unat off' = min (unat off + sum_list (map unat (n # ns))) (length content)"
    unfolding off'(2) o by (simp add: min_def)
  ultimately show ?case by (intro exI [of _ off']) (simp only: simp_thms)
qed

theorem file_reads_prefix_witness:
  "\<exists>off'. read_all [1, 2, 3, 4, 5 :: nat] [2, 9] 0 = Some ([1, 2, 3, 4, 5], off') \<and> unat off' = 5"
proof -
  let ?f = "[1, 2, 3, 4, 5 :: nat]" and ?ns = "[2, 9] :: mword list"
  have "\<exists>off'. read_all ?f ?ns 0 = Some (take (sum_list (map unat ?ns)) (drop (unat (0 :: mword)) ?f), off') \<and>
      unat off' = min (unat (0 :: mword) + sum_list (map unat ?ns)) (length ?f)"
    by (rule file_reads_prefix) simp_all
  moreover have "take (sum_list (map unat ?ns)) (drop (unat (0 :: mword)) ?f) = ?f" by simp
  moreover have "min (unat (0 :: mword) + sum_list (map unat ?ns)) (length ?f) = 5" by simp
  ultimately show ?thesis by (simp only:)
qed

text \<open>
  An offset behind the end of the file, which \<open>lseek\<close> accepts, is not checked by
  \<open>pread\<close>: the length to copy wraps around to almost the whole address space.
\<close>
theorem file_read_behind_end:
  "file_lseek 100 0 200 SEEK_SET = (Inr 200, 200) \<and> file_pread 100 8 200 = - 100"
  by code_simp

end
