(* ===== verification/Spec2Isabelle.thy ===== *)
theory Spec2Isabelle
  imports Bitmaps Buffers RegionSets EmbeddedContainers ManagedArrays Locks FrameContig
    AddressSpaces Invalidation ThreadSystem GdbRoundTrips GdbCores KeyboardDriver MessageQueues
    Interrupts Processes
begin

text \<open>
  A verification library for KOS, a small multi-processor kernel in C++ (\<open>src/src\<close>).

  \<^bold>\<open>The program.\<close> Generic containers (\<open>generic/\<close>) carry everything else. The machine layer
  (\<open>machine/\<close>) provides locks, page tables, the descriptor table and the entry and exit
  of interrupts; the kernel layer (\<open>kernel/\<close>) manages page frames, address spaces and
  processes; the runtime (\<open>runtime/\<close>) schedules threads and blocks and wakes them; on top
  there are the keyboard (\<open>devices/\<close>), files (\<open>world/\<close>) and a debugger stub (\<open>gdb/\<close>). The
  frame manager keeps its free frames in hierarchical bitmaps; page tables take their
  frames from it; address spaces edit page tables and post invalidations that every
  processor works off; the page fault handler fills lazily reserved pages; interrupts
  drive timeouts and preemption; blocking operations hand threads to the scheduler.

  \<^bold>\<open>Conventions.\<close> A class is a record, an operation a function from states to an option of
  result and state. \<open>None\<close> stands for a failed \<open>KASSERT\<close>, an access outside an object, a lock
  that is never released, or a loop that does not end. \<open>mword\<close>, \<open>vaddr\<close> and \<open>paddr\<close> are 64-bit
  words; sizes and bit indices that the code keeps below \<open>2\<^sup>6\<^sup>4\<close> are natural numbers with the
  wrap-around written out where it can be reached. Template arguments are arguments.
  Pointers into intrusive structures are keys of an explicit store of links.

  \<^bold>\<open>Theories.\<close>
  \<^item> \<open>Prelude\<close>: word types, \<open>kassert\<close>, lemmas on lists, words and option values.
  \<^item> \<open>BitManip\<close>: \<open>generic/basics.h\<close> and \<open>generic/bitmanip.h\<close>. The scan of a word array finds
    the first selected bit; alignment, logarithms and bit strings have their meaning.
  \<^item> \<open>Bitmaps\<close>: \<open>generic/Bitmap.h\<close>. The locale \<open>bit_store\<close> is what a client relies on; it is
    interpreted on the word-array bitmap, the one-word bitmap and the hierarchical bitmap.
    After any calls the hierarchical bitmap holds exactly the set that was described.
  \<^item> \<open>Buffers\<close>: \<open>generic/Buffers.h\<close>. The locale \<open>fifo_buffer\<close> is a bounded queue,
    interpreted on the ring buffer and the queue buffer.
  \<^item> \<open>RegionSets\<close>: \<open>generic/RegionSet.h\<close>. Insertion, removal and retrieval act on the set of
    covered points and keep regions disjoint and merged.
  \<^item> \<open>EmbeddedContainers\<close>: \<open>generic/EmbeddedContainers.h\<close>. The pointer operations implement
    those of an abstract list.
  \<^item> \<open>ManagedArrays\<close>: \<open>generic/ManagedArray.h\<close>. The locale \<open>slot_store\<close>: what is put under an
    index is found there.
  \<^item> \<open>Locks\<close>: \<open>machine/SpinLock.h\<close> and the lock count of \<open>machine/Processor.h\<close>. Interleavings
    of processors are step relations; spin and ticket locks exclude each other.
  \<^item> \<open>MemoryLayout\<close>: \<open>machine/Memory.h\<close>, the address ranges and page sizes.
  \<^item> \<open>FrameManager\<close>, \<open>FrameContig\<close>: \<open>kernel/FrameManager.h\<close> and \<open>.cc\<close>. The locale \<open>frame_pool\<close>:
    no frame is handed out twice or lost; release of regions frees exactly them;
    contiguous allocation returns an aligned range of free frames or nothing.
  \<^item> \<open>Paging\<close>: \<open>machine/Paging.h\<close>, with the page-table walk of the processor. Mapping installs
    a translation and keeps all others, unmapping takes it back, the recursive window
    shows the entries that the walk uses, and faults fill lazy pages only.
  \<^item> \<open>AddressSpaces\<close>, \<open>Invalidation\<close>: \<open>kernel/AddressSpace.h\<close>. The invalidation protocol as
    a step relation of processors: no processor uses a translation of a page whose frame
    was given back, and processors that work off their list empty it.
  \<^item> \<open>Scheduling\<close>, \<open>SchedulerOps\<close>: \<open>runtime/Thread.h\<close>, \<open>Thread.cc\<close>, \<open>Scheduler.cc\<close>,
    \<open>RuntimeImpl.h\<close>: threads, ready queues, the thread switch and the invariant they keep.
  \<^item> \<open>BlockingSync\<close>, \<open>BlockingOps\<close>, \<open>ThreadSystem\<close>: \<open>runtime/BlockingSync.h\<close>: timeouts,
    blocking queues, mutexes, semaphores, conditions, and the system of all operations
    from boot: no thread is lost, and units and ownership are handed over in order.
  \<^item> \<open>MessageQueues\<close>: \<open>runtime/SyncQueues.h\<close> over the ring buffer, and the reading of keys.
  \<^item> \<open>GdbProtocol\<close>, \<open>GdbHandlers\<close>, \<open>GdbRoundTrips\<close>, \<open>GdbCores\<close>: \<open>gdb/Gdb.cc\<close>: packets on the
    line, the packet handlers, what reads back what was written, and the turn-taking of
    the processors in the exception handler as a step relation.
  \<^item> \<open>KeyboardDriver\<close>: \<open>devices/Keyboard.cc\<close> and \<open>.h\<close>: controller protocol, key tables and the
    interrupt handler, which agrees with a decoder of whole key strokes.
  \<^item> \<open>Interrupts\<close>: \<open>machine/Machine.cc\<close> and \<open>machine/APIC.cc\<close>: descriptor table, routing,
    registration and service of interrupts, entry and exit of service routines.
  \<^item> \<open>Processes\<close>: \<open>kernel/Process.cc\<close>, \<open>runtime/JoinableThread.h\<close>, \<open>world/Access.cc\<close>: loading
    a program, ending and joining threads, files.
  \<^item> This theory joins the last piece of the page fault path: the service routine, the
    page tables and the frame manager.

  \<^bold>\<open>Bounds.\<close> Loops are total functions with a measure (the bits left to scan, the pending
  interrupts, the bytes left of a region) or recursion on the data. The exceptions are
  \<open>partial_function\<close> definitions, where not returning is \<open>None\<close>; properties of these state
  that a value is returned. Bitmaps have fewer than \<open>2\<^sup>5\<^sup>8\<close> words, so that bit indices fit
  a word; files have fewer than \<open>2\<^sup>6\<^sup>2\<close> bytes, so that offsets are positive as signed numbers.

  \<^bold>\<open>Atomicity.\<close> A call that runs under a lock, or with interrupts disabled, is one step of
  the interleaving models; the locks themselves are interleaved instruction by
  instruction in \<open>Locks\<close>, and the debugger's exception handler section by section in
  \<open>GdbCores\<close>.

  \<^bold>\<open>Not modelled.\<close> Assembly (boot, stack switch, wrappers of interrupts and system calls);
  devices that are pure port or memory output (screen, serial line, PIT, RTC, DMA, PCI);
  printing; firmware tables and boot loader data; the kernel heap, which wraps a third
  party allocator; the system call table and the user library, which only dispatch; the
  third party code under \<open>extern/\<close>. The ELF reader, the clock, the addresses of assembly
  wrappers, success of memory allocation and the behaviour of the keyboard controller
  are parameters.
\<close>

section \<open>The page fault path\<close>

text \<open>
  \<open>exception_handler_errcode_0x0e\<close> of \<open>machine/Machine.cc\<close>: entry of the service routine, the
  attempt to resolve the fault at the address \<open>da\<close> in control register 2, and the exit, or
  the message and reboot.
\<close>

definition exception_handler_errcode_0x0e ::
  "vaddr \<Rightarrow> vaddr \<Rightarrow> isr \<times> paging \<Rightarrow> (isr_action \<times> isr \<times> paging) option" where
  "exception_handler_errcode_0x0e da sigHandler = (\<lambda>(f, s). do {
     f1 \<leftarrow> IsrEntry_new False f;
     (s1, resolved) \<leftarrow> fault pagelevels da s;
     (if resolved then do { f2 \<leftarrow> IsrEntry_delete sigHandler f1; Some (Continues, f2, s1) }
      else Some (Reboots ''PAGE FAULT'', f1, s1)) })"

lemma page_fault_exit:
  assumes "\<not> intr (isr_cpu f)" "fault pagelevels da s = Some (s', True)"
  shows "\<exists>f'. exception_handler_errcode_0x0e da sig (f, s) = Some (Continues, f', s') \<and>
    isr_cpu f' = isr_cpu f \<and> gsKernel f' = gsKernel f \<and>
    isr.rip f' = (if userSegment (isr.cs f) \<and> sig \<noteq> 0 then sig else isr.rip f)"
  using assms
  by (auto simp: exception_handler_errcode_0x0e_def IsrEntry_new_def IsrEntry_delete_def Let_def
      lp_lockFake_def lp_unlockFake_def checkSignals_def)


definition ex_frame :: isr where
  "ex_frame = \<lparr>rip = 0x1234, cs = 0x23, rsp = 0x8000, gsKernel = False,
     isr_cpu = \<lparr>lockCount = 0, intr = False\<rparr>, eois = 0, ustack = (\<lambda>_. 0)\<rparr>"


end
